(* ===== verification/Prelude.thy ===== *)
theory Prelude
  imports
    "HOL-Library.Monad_Syntax"
    "HOL-Library.AList"
    "HOL-Library.Word"
    "HOL-Library.Multiset"
begin

text \<open>
  Shared vocabulary of the development: Go results, Go maps that are iterated over, the
  decimal rendering of \<^verbatim>\<open>strconv.Itoa\<close>, the \<^verbatim>\<open>for ... range\<close> loop that stops at the first
  error, a calculus for the state-passing operations in which the stateful components are
  written, and the generic list lemmas the component proofs use.

  Conventions.  A Go method \<^verbatim>\<open>T.M\<close> is the definition \<^verbatim>\<open>T_M\<close>.  A Go \<^verbatim>\<open>(value, error)\<close> pair is
  a sum with the error on the left; where the code also reads the value of a failed call
  the result is a pair.  Go's \<^verbatim>\<open>int\<close> is HOL's \<^typ>\<open>int\<close>: indexes, rounds and counters of the
  consensus code stay far below the 64-bit range, and every use where the width matters
  has a word type.  A Go map that the code iterates over is an association list with
  distinct keys; its order stands for the iteration order, which Go leaves open, so a
  theorem that holds for every list holds for every iteration order.
\<close>

type_synonym byte = "8 word"
type_synonym ('e, 'a) result = "'e + 'a"
type_synonym ('k, 'v) gomap = "('k \<times> 'v) list"

named_theorems ret_simps "equations of the calculus of returning computations"
named_theorems view_simps "what an operation does to the abstract view of its component"

section \<open>Definitions\<close>

subsection \<open>State-passing code\<close>

text \<open>
  An operation on a state of type \<open>'s\<close> gives its result and the new state, or nothing when it does
  not return: a panic (an index out of range, a nil dereference) or a loop that does not end.
  It is written in the \<^verbatim>\<open>do\<close> notation of the option type with the state passed on explicitly.
  \<open>returns c Q\<close> says that the computation \<open>c\<close> does return, and with a result and a state that
  satisfy \<open>Q\<close>.
\<close>

type_synonym ('s, 'a) op = "'s \<Rightarrow> ('a \<times> 's) option"

definition returns :: "('a \<times> 's) option \<Rightarrow> ('a \<Rightarrow> 's \<Rightarrow> bool) \<Rightarrow> bool" where
  "returns c Q \<longleftrightarrow> (case c of None \<Rightarrow> False | Some (r, s) \<Rightarrow> Q r s)"

text \<open>\<^verbatim>\<open>for _, x := range xs { if err := f(x); err != nil { return err } }\<close>\<close>

fun forE :: "'a list \<Rightarrow> ('a \<Rightarrow> ('s, ('e, unit) result) op) \<Rightarrow> ('s, ('e, unit) result) op" where
  "forE [] f s = Some (Inr (), s)"
| "forE (x # xs) f s = do {
     (r, s) \<leftarrow> f x s;
     (case r of Inl e \<Rightarrow> Some (Inl e, s) | Inr _ \<Rightarrow> forE xs f s)
   }"

text \<open>The element of a slice at an index; out of range the program panics.\<close>

definition slice_at :: "'a list \<Rightarrow> int \<Rightarrow> 'a option" where
  "slice_at xs i = (if 0 \<le> i \<and> i < int (length xs) then Some (xs ! nat i) else None)"

text \<open>Reading a map of integers: an absent key reads as zero.\<close>

definition lookup0 :: "('k, int) gomap \<Rightarrow> 'k \<Rightarrow> int" where
  "lookup0 m k = (case map_of m k of None \<Rightarrow> 0 | Some v \<Rightarrow> v)"

subsection \<open>strconv.Itoa\<close>

definition digit_char :: "nat \<Rightarrow> char" where
  "digit_char d = char_of (48 + d)"

fun utoa :: "nat \<Rightarrow> string" where
  "utoa n = (if n < 10 then [digit_char n] else utoa (n div 10) @ [digit_char (n mod 10)])"

definition itoa :: "int \<Rightarrow> string" where
  "itoa i = (if i < 0 then CHR ''-'' # utoa (nat (- i)) else utoa (nat i))"

declare utoa.simps [simp del]

subsection \<open>Insertion into a list kept in the order of a Less function\<close>

text \<open>
  \<^verbatim>\<open>sort.Sort\<close> promises a permutation of its input in the order of the given \<^verbatim>\<open>Less\<close>; elements that
  \<^verbatim>\<open>Less\<close> does not order may come out in any order.  The model keeps them in input order; the
  theorems use only the permutation and the sortedness.
\<close>

fun insert_by :: "('a \<Rightarrow> 'a \<Rightarrow> bool) \<Rightarrow> 'a \<Rightarrow> 'a list \<Rightarrow> 'a list" where
  "insert_by lt x [] = [x]"
| "insert_by lt x (y # ys) = (if lt y x then y # insert_by lt x ys else x # y # ys)"

definition sort_by :: "('a \<Rightarrow> 'a \<Rightarrow> bool) \<Rightarrow> 'a list \<Rightarrow> 'a list" where
  "sort_by lt xs = foldr (insert_by lt) xs []"

section \<open>Lemmas\<close>

subsection \<open>The calculus\<close>

lemma returns_Some [simp, ret_simps]: "returns (Some (r, s)) Q = Q r s"
  by (simp add: returns_def)

lemma returns_None [simp, ret_simps]: "\<not> returns None Q"
  by (simp add: returns_def)

lemma returns_bind [simp, ret_simps]:
  "returns (Option.bind c f) Q = returns c (\<lambda>r s. returns (f (r, s)) Q)"
  by (cases c) (auto simp: returns_def split: prod.splits)

lemma returns_mono: "returns c P \<Longrightarrow> (\<And>r s. P r s \<Longrightarrow> Q r s) \<Longrightarrow> returns c Q"
  by (auto simp: returns_def split: option.splits)

lemma returns_conj: "returns c P \<Longrightarrow> returns c Q \<Longrightarrow> returns c (\<lambda>r s. P r s \<and> Q r s)"
  by (auto simp: returns_def split: option.splits)

lemma returns_iff: "returns c Q \<longleftrightarrow> (\<exists>r s. c = Some (r, s) \<and> Q r s)"
  by (auto simp: returns_def split: option.splits)

lemma returnsD: "returns c Q \<Longrightarrow> c = Some (r, s) \<Longrightarrow> Q r s"
  by (simp add: returns_def)

lemma returns_no_error:
  "returns c (\<lambda>r s. case r of Inl _ \<Rightarrow> False | Inr _ \<Rightarrow> P s) = returns c (\<lambda>r s. r = Inr () \<and> P s)"
proof -
  have "(case r of Inl _ \<Rightarrow> False | Inr _ \<Rightarrow> P s) = (r = Inr () \<and> P s)" for r :: "'a + unit" and s
    by (cases r) simp_all
  then show ?thesis by simp
qed

text \<open>The loop rule: an invariant over the elements done.\<close>

lemma returns_forE:
  assumes "I [] s"
    and "\<And>done x rest s. xs = done @ x # rest \<Longrightarrow> I done s \<Longrightarrow>
           returns (f x s) (\<lambda>r s'. case r of Inl e \<Rightarrow> E e s' | Inr _ \<Rightarrow> I (done @ [x]) s')"
  shows "returns (forE xs f s) (\<lambda>r s'. case r of Inl e \<Rightarrow> E e s' | Inr _ \<Rightarrow> I xs s')"
proof -
  have "I pre s \<Longrightarrow> xs = pre @ ys \<Longrightarrow>
      returns (forE ys f s) (\<lambda>r s'. case r of Inl e \<Rightarrow> E e s' | Inr _ \<Rightarrow> I xs s')" for pre ys s
  proof (induction ys arbitrary: pre s)
    case (Cons y ys)
    have "returns (f y s) (\<lambda>r s'. case r of Inl e \<Rightarrow> E e s' | Inr _ \<Rightarrow> I (pre @ [y]) s')"
      using assms(2) Cons.prems by blast
    moreover have "returns (forE ys f s') (\<lambda>r s'. case r of Inl e \<Rightarrow> E e s' | Inr _ \<Rightarrow> I xs s')"
      if "I (pre @ [y]) s'" for s'
      using Cons.IH [of "pre @ [y]" s'] Cons.prems(2) that by simp
    ultimately show ?case
      by (simp, elim returns_mono, case_tac r) simp_all
  qed simp
  then show ?thesis using assms(1) by simp
qed

subsection \<open>Association lists\<close>

lemma map_of_update [simp]: "map_of (AList.update k v xs) = (map_of xs)(k \<mapsto> v)"
  by (rule update_conv')

lemma distinct_keys_update [simp]:
  "distinct (map fst xs) \<Longrightarrow> distinct (map fst (AList.update k v xs))"
  by (rule distinct_update)

lemma map_of_eq_None_set: "map_of xs k = None \<longleftrightarrow> k \<notin> fst ` set xs"
  by (rule map_of_eq_None_iff)

lemma map_of_fold_update:
  "map_of (fold (\<lambda>k. AList.update k v) ks m) j = (if j \<in> set ks then Some v else map_of m j)"
  by (induction ks arbitrary: m) auto

lemma distinct_fold_update:
  "distinct (map fst m) \<Longrightarrow> distinct (map fst (fold (\<lambda>k. AList.update k v) ks m))"
  by (induction ks arbitrary: m) auto

lemma map_of_map_snd: "map_of (map (\<lambda>(k, v). (k, f v)) xs) k = map_option f (map_of xs k)"
  by (induction xs) auto

subsection \<open>Sorting\<close>

lemma mset_insert_by [simp]: "mset (insert_by lt x xs) = add_mset x (mset xs)"
  by (induction xs) auto

lemma mset_sort_by [simp]: "mset (sort_by lt xs) = mset xs"
  unfolding sort_by_def by (induction xs) auto

lemma set_sort_by [simp]: "set (sort_by lt xs) = set xs"
  by (metis mset_sort_by set_mset_mset)

lemma length_sort_by [simp]: "length (sort_by lt xs) = length xs"
  by (metis mset_sort_by size_mset)

lemma set_insert_by [simp]: "set (insert_by lt x xs) = insert x (set xs)"
  by (metis mset_insert_by set_mset_add_mset_insert set_mset_mset)

lemma sorted_insert_by:
  assumes asym: "\<And>a b. lt a b \<Longrightarrow> \<not> lt b a"
    and ntrans: "\<And>a b c. \<not> lt b a \<Longrightarrow> \<not> lt c b \<Longrightarrow> \<not> lt c a"
    and "sorted_wrt (\<lambda>a b. \<not> lt b a) xs"
  shows "sorted_wrt (\<lambda>a b. \<not> lt b a) (insert_by lt x xs)"
  using assms(3)
proof (induction xs)
  case (Cons y ys)
  show ?case
  proof (cases "lt y x")
    case True
    with Cons asym show ?thesis by simp
  next
    case False
    with Cons.prems ntrans show ?thesis by auto
  qed
qed simp

lemma sorted_sort_by:
  assumes "\<And>a b. lt a b \<Longrightarrow> \<not> lt b a"
    and "\<And>a b c. \<not> lt b a \<Longrightarrow> \<not> lt c b \<Longrightarrow> \<not> lt c a"
  shows "sorted_wrt (\<lambda>a b. \<not> lt b a) (sort_by lt xs)"
  unfolding sort_by_def
proof (induction xs)
  case (Cons x xs)
  then show ?case using sorted_insert_by [OF assms] by simp
qed simp

subsection \<open>Lists\<close>

lemma find_Some_distinct:
  assumes "distinct (map f xs)" "x \<in> set xs"
  shows "find (\<lambda>y. f y = f x) xs = Some x"
  using assms by (induction xs) (auto simp: rev_image_eqI)

lemma filter_neq_distinct_len:
  assumes "distinct (map f xs)" "x \<in> set xs"
  shows "Suc (length (filter (\<lambda>y. f y \<noteq> f x) xs)) = length xs"
  using assms
proof (induction xs)
  case (Cons a xs)
  show ?case
  proof (cases "a = x")
    case True
    with Cons.prems have "\<forall>y\<in>set xs. f y \<noteq> f x" by (auto simp: image_iff)
    then show ?thesis using True by (simp add: filter_True)
  next
    case False
    with Cons show ?thesis by auto
  qed
qed simp

lemma set_tl_subset: "set (tl xs) \<subseteq> set xs"
  by (cases xs) auto

lemma map_ext_Some:
  assumes "\<And>k v. f k = Some v \<longleftrightarrow> g k = Some v"
  shows "f = g"
proof
  fix k
  show "f k = g k"
  proof (cases "f k")
    case None
    then show ?thesis using assms [of k "the (g k)"] by (cases "g k") simp_all
  next
    case (Some v)
    then show ?thesis using assms [of k v] by simp
  qed
qed

end
