(* ===== verification/Signature.thy ===== *)
theory Signature
  imports Prelude
begin

text \<open>
  The text forms of hashes, keys and signatures: \<^verbatim>\<open>fmt.Sprintf("0x%X", b)\<close> and
  \<^verbatim>\<open>hex.DecodeString\<close> as the consensus code uses them, and the signature encoding of
  \<^verbatim>\<open>src/common/crypto/utils.go\<close>.  The curve arithmetic behind \<^verbatim>\<open>crypto/ecdsa\<close> and the digest
  behind \<^verbatim>\<open>crypto/sha256\<close> are parameters, collected in the record \<open>crypto\<close> of theory
  CometTypes; what is done around them is modelled here.
\<close>

section \<open>Hexadecimal text\<close>

definition hex_digit :: "nat \<Rightarrow> char" where
  "hex_digit d = (if d < 10 then char_of (48 + d) else char_of (55 + d))"

fun hexX :: "byte list \<Rightarrow> string" where
  "hexX [] = []"
| "hexX (b # bs) = hex_digit (unat b div 16) # hex_digit (unat b mod 16) # hexX bs"

definition Sprintf_0xX :: "byte list \<Rightarrow> string" where
  "Sprintf_0xX bs = ''0x'' @ hexX bs"

definition fromHexChar :: "char \<Rightarrow> nat option" where
  "fromHexChar c = (let n = of_char c :: nat in
     if 48 \<le> n \<and> n \<le> 57 then Some (n - 48)
     else if 97 \<le> n \<and> n \<le> 102 then Some (n - 87)
     else if 65 \<le> n \<and> n \<le> 70 then Some (n - 55)
     else None)"

text \<open>
  \<^verbatim>\<open>hex.DecodeString\<close>: the bytes decoded before the first fault, and whether there was none.
\<close>

fun hex_DecodeString :: "string \<Rightarrow> byte list \<times> bool" where
  "hex_DecodeString [] = ([], True)"
| "hex_DecodeString [c] = ([], False)"
| "hex_DecodeString (c # d # cs) = (case (fromHexChar c, fromHexChar d) of
     (Some a, Some b) \<Rightarrow>
       (let (bs, ok) = hex_DecodeString cs in (word_of_nat (16 * a + b) # bs, ok))
   | _ \<Rightarrow> ([], False))"

section \<open>Signatures as text\<close>

definition digit36 :: "nat \<Rightarrow> char" where
  "digit36 d = (if d < 10 then char_of (48 + d) else char_of (87 + d))"

fun text36 :: "nat \<Rightarrow> string" where
  "text36 n = (if n < 36 then [digit36 n] else text36 (n div 36) @ [digit36 (n mod 36)])"

declare text36.simps [simp del]

text \<open>\<^verbatim>\<open>(*big.Int).Text(36)\<close>\<close>

definition big_Text36 :: "int \<Rightarrow> string" where
  "big_Text36 i = (if i < 0 then CHR ''-'' # text36 (nat (- i)) else text36 (nat i))"

definition val36 :: "char \<Rightarrow> nat option" where
  "val36 c = (let n = of_char c :: nat in
     if 48 \<le> n \<and> n \<le> 57 then Some (n - 48)
     else if 97 \<le> n \<and> n \<le> 122 then Some (n - 87)
     else if 65 \<le> n \<and> n \<le> 90 then Some (n - 55)
     else None)"

fun scan :: "nat \<Rightarrow> nat \<Rightarrow> string \<Rightarrow> nat option" where
  "scan base acc [] = Some acc"
| "scan base acc (c # cs) = (case val36 c of
     None \<Rightarrow> None
   | Some d \<Rightarrow> if d < base then scan base (base * acc + d) cs else None)"

text \<open>\<^verbatim>\<open>new(big.Int).SetString(s, base)\<close>; a failure leaves the nil pointer, here None.\<close>

definition big_SetString :: "nat \<Rightarrow> string \<Rightarrow> int option" where
  "big_SetString base s =
     (let neg = (s \<noteq> [] \<and> hd s = CHR ''-'');
          ds = (if s \<noteq> [] \<and> (hd s = CHR ''-'' \<or> hd s = CHR ''+'') then tl s else s)
      in if ds = [] then None
         else map_option (\<lambda>n. if neg then - int n else int n) (scan base 0 ds))"

text \<open>\<^verbatim>\<open>strings.Split(s, "|")\<close>\<close>

fun split_bar :: "string \<Rightarrow> string list" where
  "split_bar [] = [[]]"
| "split_bar (c # cs) = (if c = CHR ''|'' then [] # split_bar cs
     else case split_bar cs of [] \<Rightarrow> [[c]] | w # ws \<Rightarrow> (c # w) # ws)"

definition EncodeSignature :: "int \<Rightarrow> int \<Rightarrow> string" where
  "EncodeSignature r s = big_Text36 r @ ''|'' @ big_Text36 s"

definition DecodeSignature :: "string \<Rightarrow> (string, int option \<times> int option) result" where
  "DecodeSignature sig =
     (let values = split_bar sig
      in if length values \<noteq> 2
         then Inl (''wrong number of values in signature: got '' @ utoa (length values) @ '', want 2'')
         else Inr (big_SetString 36 (values ! 0), big_SetString 36 (values ! 1)))"

section \<open>Lemmas\<close>

lemma fromHexChar_hex_digit: "n < 16 \<Longrightarrow> fromHexChar (hex_digit n) = Some n"
  by (simp add: fromHexChar_def hex_digit_def Let_def)

lemma unat_byte: "unat (b :: byte) < 256"
  using unsigned_less [of b, where ?'a = nat] by simp

lemma hex_roundtrip: "hex_DecodeString (hexX bs) = (bs, True)"
proof (induction bs)
  case (Cons b bs)
  have "unat b < 256" by (rule unat_byte)
  then have "unat b div 16 < 16" "unat b mod 16 < 16" by auto
  moreover have "16 * (unat b div 16) + unat b mod 16 = unat b" by simp
  ultimately show ?case
    using Cons by (simp add: fromHexChar_hex_digit)
qed simp

lemma inj_hexX: "hexX a = hexX b \<Longrightarrow> a = b"
  using hex_roundtrip by (metis prod.inject)

lemma Sprintf_0xX_inject [simp]: "Sprintf_0xX a = Sprintf_0xX b \<longleftrightarrow> a = b"
  by (auto simp: Sprintf_0xX_def dest: inj_hexX)

lemma Sprintf_0xX_nonempty [simp]: "Sprintf_0xX a \<noteq> []"
  by (simp add: Sprintf_0xX_def)

lemma val36_digit36: "n < 36 \<Longrightarrow> val36 (digit36 n) = Some n"
  by (simp add: val36_def digit36_def Let_def)

lemma digit36_range: "n < 36 \<Longrightarrow> digit36 n \<noteq> CHR ''|'' \<and> digit36 n \<noteq> CHR ''-'' \<and> digit36 n \<noteq> CHR ''+''"
proof -
  assume n: "n < 36"
  have "val36 CHR ''|'' = None" "val36 CHR ''-'' = None" "val36 CHR ''+'' = None"
    by (simp_all add: val36_def)
  then show ?thesis using val36_digit36 [OF n] by auto
qed

lemma scan_append:
  "scan base acc (a @ b) = (case scan base acc a of None \<Rightarrow> None | Some n \<Rightarrow> scan base n b)"
  by (induction a arbitrary: acc) (auto split: option.splits)

lemma scan_text36: "scan 36 0 (text36 n) = Some n"
proof (induction n rule: text36.induct)
  case (1 n)
  show ?case
  proof (cases "n < 36")
    case True
    then show ?thesis by (simp add: text36.simps [of n] val36_digit36)
  next
    case False
    with 1 show ?thesis
      by (simp add: text36.simps [of n] scan_append val36_digit36)
  qed
qed

lemma set_text36: "c \<in> set (text36 n) \<Longrightarrow> \<exists>d < 36. c = digit36 d"
proof (induction n rule: text36.induct)
  case (1 n)
  then show ?case
    by (cases "n < 36") (auto simp: text36.simps [of n] intro: exI [of _ "n mod 36"])
qed

lemma text36_nonempty [simp]: "text36 n \<noteq> []"
  by (simp add: text36.simps [of n])

lemma text36_hd: "hd (text36 n) \<noteq> CHR ''-'' \<and> hd (text36 n) \<noteq> CHR ''+''"
proof -
  obtain d where "d < 36" "hd (text36 n) = digit36 d"
    using set_text36 [of "hd (text36 n)" n] by auto
  then show ?thesis using digit36_range [of d] by simp
qed

lemma big_roundtrip: "big_SetString 36 (big_Text36 i) = Some i"
  by (auto simp: big_SetString_def big_Text36_def scan_text36 text36_hd Let_def)

lemma big_Text36_no_bar: "CHR ''|'' \<notin> set (big_Text36 i)"
proof -
  have "CHR ''|'' \<notin> set (text36 n)" for n
    using set_text36 [of "CHR ''|''" n] digit36_range by fastforce
  then show ?thesis by (simp add: big_Text36_def)
qed

lemma split_bar_nonempty [simp]: "split_bar s \<noteq> []"
  by (induction s) (auto split: list.splits)

lemma split_bar_none: "CHR ''|'' \<notin> set s \<Longrightarrow> split_bar s = [s]"
  by (induction s) auto

lemma split_bar_one: "CHR ''|'' \<notin> set a \<Longrightarrow> split_bar (a @ CHR ''|'' # b) = a # split_bar b"
  by (induction a) auto

section \<open>Properties\<close>

text \<open>
  Claim C20.  A signature written out by \<^verbatim>\<open>EncodeSignature\<close> is read back by \<^verbatim>\<open>DecodeSignature\<close>
  as the same pair of numbers, whatever their size and sign.
\<close>

theorem signature_roundtrip: "DecodeSignature (EncodeSignature r s) = Inr (Some r, Some s)"
  by (simp add: DecodeSignature_def EncodeSignature_def split_bar_one split_bar_none
      big_Text36_no_bar big_roundtrip)

end
