(* ===== verification/StoreErr.thy ===== *)
theory StoreErr
  imports Prelude
begin

text \<open>
  The store errors of \<^verbatim>\<open>src/errors/errors.go\<close>: the kinds of failure a store operation reports,
  the error value with its key, its message, and the test \<^verbatim>\<open>Is\<close> by which callers tell the
  kinds apart.
\<close>

datatype StoreErrType = KeyNotFound | TooLate | PassedIndex | SkippedIndex | NoRoot | UnknownParticipant

datatype StoreErr = StoreErr (errType: StoreErrType) (err_key: string)

definition NewStoreErr :: "StoreErrType \<Rightarrow> string \<Rightarrow> StoreErr" where
  "NewStoreErr t k = StoreErr t k"

definition StoreErr_Error :: "StoreErr \<Rightarrow> string" where
  "StoreErr_Error e = err_key e @ '', '' @ (case errType e of
      KeyNotFound \<Rightarrow> ''Not Found''
    | TooLate \<Rightarrow> ''Too Late''
    | PassedIndex \<Rightarrow> ''Passed Index''
    | SkippedIndex \<Rightarrow> ''Skipped Index''
    | NoRoot \<Rightarrow> ''No Root''
    | UnknownParticipant \<Rightarrow> ''Unknown Participant'')"

text \<open>\<^verbatim>\<open>errors.Is(err, t)\<close> for the error of a result; success is the nil error.\<close>

definition err_Is :: "StoreErr option \<Rightarrow> StoreErrType \<Rightarrow> bool" where
  "err_Is e t = (case e of None \<Rightarrow> False | Some se \<Rightarrow> errType se = t)"

lemma NewStoreErr_sel [simp]: "errType (NewStoreErr t k) = t" "err_key (NewStoreErr t k) = k"
  by (simp_all add: NewStoreErr_def)

lemma NewStoreErr_inject [simp]: "NewStoreErr t k = NewStoreErr t' k' \<longleftrightarrow> t = t' \<and> k = k'"
  by (simp add: NewStoreErr_def)

lemma err_Is_simps [simp]:
  "\<not> err_Is None t" "err_Is (Some e) t \<longleftrightarrow> errType e = t"
  by (simp_all add: err_Is_def)

end
