(* ===== verification/CometTypes.thy ===== *)
theory CometTypes
  imports Signature StoreErr
begin

unbundle bit_operations_syntax

text \<open>
  The data of the consensus layer: \<^verbatim>\<open>src/types/comet.go\<close>, \<^verbatim>\<open>block.go\<close>, \<^verbatim>\<open>round_info.go\<close>,
  \<^verbatim>\<open>root.go\<close> and \<^verbatim>\<open>frame.go\<close>.  A comet body has exported fields, which are hashed, signed and
  sent, and four unexported wire fields, which are not; the record of the body extends the
  record of its exported part, so that what \<^verbatim>\<open>encoding/json\<close> sees is the record's truncation.
  A slice whose nil value the code tells apart from an empty one is an optional list.  The
  memo fields \<^verbatim>\<open>creator\<close>, \<^verbatim>\<open>hash\<close> and \<^verbatim>\<open>hex\<close> of a comet hold functions of its body and are
  not part of the record.
\<close>

section \<open>Blocks\<close>

record BlockBody =
  bb_Index :: int
  bb_RoundReceived :: int
  StateHash :: "byte list"
  bb_Transactions :: "byte list list"

record BlockSignature =
  Validator :: "byte list"
  bs_Index :: int
  bs_Signature :: string

record WireBlockSignature =
  wbs_Index :: int
  wbs_Signature :: string

record Block =
  block_Body :: BlockBody
  Signatures :: "(string, string) gomap"

definition BlockSignature_ValidatorHex :: "BlockSignature \<Rightarrow> string" where
  "BlockSignature_ValidatorHex bs = Sprintf_0xX (Validator bs)"

definition BlockSignature_ToWire :: "BlockSignature \<Rightarrow> WireBlockSignature" where
  "BlockSignature_ToWire bs = \<lparr>wbs_Index = bs_Index bs, wbs_Signature = bs_Signature bs\<rparr>"

definition NewBlock :: "int \<Rightarrow> int \<Rightarrow> byte list list \<Rightarrow> Block" where
  "NewBlock blockIndex roundReceived transactions =
     \<lparr>block_Body = \<lparr>bb_Index = blockIndex, bb_RoundReceived = roundReceived, StateHash = [],
                    bb_Transactions = transactions\<rparr>,
      Signatures = []\<rparr>"

definition Block_Index :: "Block \<Rightarrow> int" where
  "Block_Index b = bb_Index (block_Body b)"

definition Block_GetSignature :: "Block \<Rightarrow> string \<Rightarrow> (string, BlockSignature) result option" where
  "Block_GetSignature b validator = (case map_of (Signatures b) validator of
     None \<Rightarrow> Some (Inl ''signature not found'')
   | Some sig \<Rightarrow>
       (if length validator < 2 then None
        else Some (Inr \<lparr>Validator = fst (hex_DecodeString (drop 2 validator)),
                        bs_Index = Block_Index b, bs_Signature = sig\<rparr>)))"

definition Block_AppendTransactions :: "Block \<Rightarrow> byte list list \<Rightarrow> Block" where
  "Block_AppendTransactions b txs =
     b\<lparr>block_Body := (block_Body b)\<lparr>bb_Transactions := bb_Transactions (block_Body b) @ txs\<rparr>\<rparr>"

definition Block_SetSignature :: "Block \<Rightarrow> BlockSignature \<Rightarrow> Block" where
  "Block_SetSignature b bs =
     b\<lparr>Signatures := AList.update (BlockSignature_ValidatorHex bs) (bs_Signature bs) (Signatures b)\<rparr>"

section \<open>Comets\<close>

record EventCoordinates =
  ec_Hash :: string
  ec_Index :: int

record CometBodyJSON =
  cb_Transactions :: "byte list list option"
  Parents :: "string list"
  cb_Creator :: "byte list"
  Timestamp :: int
  cb_Index :: int
  cb_BlockSignatures :: "BlockSignature list option"

record CometBody = CometBodyJSON +
  selfParentIndex :: int
  otherParentCreatorID :: int
  otherParentIndex :: int
  creatorID :: int

record Comet =
  Body :: CometBody
  cSignature :: string
  TopologicalIndex :: int
  RoundReceived :: "int option"
  ConsensusTimestamp :: int
  LastAncestors :: "EventCoordinates list"
  FirstDescendants :: "EventCoordinates list"

text \<open>
  The cryptographic primitives of the standard library: the SHA-256 digest of the JSON text of a
  comet body and of a block body, and the ECDSA verification of a digest under a public key.
\<close>

record crypto =
  sha_body :: "CometBodyJSON \<Rightarrow> byte list"
  sha_block :: "BlockBody \<Rightarrow> byte list"
  ecdsa_Verify :: "byte list \<Rightarrow> byte list \<Rightarrow> int \<Rightarrow> int \<Rightarrow> bool"

text \<open>
  \<^verbatim>\<open>crypto.Verify\<close> of a key from \<^verbatim>\<open>ToECDSAPub\<close> and numbers from \<^verbatim>\<open>DecodeSignature\<close>: no key
  bytes give a nil key and an unreadable number a nil number, and either one is dereferenced.
\<close>

definition crypto_Verify ::
    "crypto \<Rightarrow> byte list \<Rightarrow> byte list \<Rightarrow> int option \<Rightarrow> int option \<Rightarrow> bool option" where
  "crypto_Verify cr pub hash r s = (case (r, s) of
     (Some r', Some s') \<Rightarrow> if pub = [] then None else Some (ecdsa_Verify cr pub hash r' s')
   | _ \<Rightarrow> None)"

definition Block_Verify :: "crypto \<Rightarrow> Block \<Rightarrow> BlockSignature \<Rightarrow> (string, bool) result option" where
  "Block_Verify cr b sig =
     (let signBytes = sha_block cr (block_Body b)
      in case DecodeSignature (bs_Signature sig) of
           Inl err \<Rightarrow> Some (Inl err)
         | Inr (r, s) \<Rightarrow> map_option Inr (crypto_Verify cr (Validator sig) signBytes r s))"

definition CometBody_Marshal :: "CometBody \<Rightarrow> CometBodyJSON" where
  "CometBody_Marshal e = CometBodyJSON.truncate e"

definition CometBody_Hash :: "crypto \<Rightarrow> CometBody \<Rightarrow> byte list" where
  "CometBody_Hash cr e = sha_body cr (CometBody_Marshal e)"

text \<open>\<^verbatim>\<open>NewComet\<close> reads the clock; the reading is the argument \<open>now\<close>.\<close>

definition NewComet :: "int \<Rightarrow> byte list list option \<Rightarrow> BlockSignature list option \<Rightarrow> string list \<Rightarrow>
    byte list \<Rightarrow> int \<Rightarrow> Comet" where
  "NewComet now transactions blockSignatures parents creator index =
     \<lparr>Body = \<lparr>cb_Transactions = transactions, Parents = parents, cb_Creator = creator,
              Timestamp = now, cb_Index = index, cb_BlockSignatures = blockSignatures,
              selfParentIndex = 0, otherParentCreatorID = 0, otherParentIndex = 0, creatorID = 0\<rparr>,
      cSignature = [], TopologicalIndex = 0, RoundReceived = None, ConsensusTimestamp = 0,
      LastAncestors = [], FirstDescendants = []\<rparr>"

definition Comet_Creator :: "Comet \<Rightarrow> string" where
  "Comet_Creator e = Sprintf_0xX (cb_Creator (Body e))"

definition Comet_SelfParent :: "Comet \<Rightarrow> string" where
  "Comet_SelfParent e = Parents (Body e) ! 0"

definition Comet_OtherParent :: "Comet \<Rightarrow> string" where
  "Comet_OtherParent e = Parents (Body e) ! 1"

definition Comet_Transactions :: "Comet \<Rightarrow> byte list list" where
  "Comet_Transactions e = (case cb_Transactions (Body e) of None \<Rightarrow> [] | Some txs \<Rightarrow> txs)"

definition Comet_Index :: "Comet \<Rightarrow> int" where
  "Comet_Index e = cb_Index (Body e)"

definition Comet_BlockSignatures :: "Comet \<Rightarrow> BlockSignature list" where
  "Comet_BlockSignatures e = (case cb_BlockSignatures (Body e) of None \<Rightarrow> [] | Some bs \<Rightarrow> bs)"

definition Comet_IsLoaded :: "Comet \<Rightarrow> bool" where
  "Comet_IsLoaded e =
     (if cb_Index (Body e) = 0 then True
      else
        let hasTransactions = (case cb_Transactions (Body e) of
              None \<Rightarrow> False | Some txs \<Rightarrow> length txs > 0);
            hasBlockSignatures = (case cb_BlockSignatures (Body e) of
              None \<Rightarrow> False | Some bs \<Rightarrow> length bs > 0)
        in hasTransactions \<or> hasBlockSignatures)"

definition Comet_Verify :: "crypto \<Rightarrow> Comet \<Rightarrow> (string, bool) result option" where
  "Comet_Verify cr e =
     (let pubBytes = cb_Creator (Body e);
          signBytes = CometBody_Hash cr (Body e)
      in case DecodeSignature (cSignature e) of
           Inl err \<Rightarrow> Some (Inl err)
         | Inr (r, s) \<Rightarrow> map_option Inr (crypto_Verify cr pubBytes signBytes r s))"

definition Comet_Hash :: "crypto \<Rightarrow> Comet \<Rightarrow> byte list" where
  "Comet_Hash cr e = CometBody_Hash cr (Body e)"

definition Comet_Hex :: "crypto \<Rightarrow> Comet \<Rightarrow> string" where
  "Comet_Hex cr e = Sprintf_0xX (Comet_Hash cr e)"

definition Comet_SetRoundReceived :: "Comet \<Rightarrow> int \<Rightarrow> Comet" where
  "Comet_SetRoundReceived e rr = e\<lparr>RoundReceived := Some rr\<rparr>"

definition Comet_SetWireInfo :: "Comet \<Rightarrow> int \<Rightarrow> int \<Rightarrow> int \<Rightarrow> int \<Rightarrow> Comet" where
  "Comet_SetWireInfo e spi opc opi cid =
     e\<lparr>Body := (Body e)\<lparr>selfParentIndex := spi, otherParentCreatorID := opc,
                         otherParentIndex := opi, creatorID := cid\<rparr>\<rparr>"

section \<open>Wire events\<close>

record WireBody =
  w_Transactions :: "byte list list option"
  w_BlockSignatures :: "WireBlockSignature list option"
  w_SelfParentIndex :: int
  w_OtherParentCreatorID :: int
  w_OtherParentIndex :: int
  w_CreatorID :: int
  w_Timestamp :: int
  w_Index :: int

record WireEvent =
  w_Body :: WireBody
  w_Signature :: string

definition Comet_WireBlockSignatures :: "Comet \<Rightarrow> WireBlockSignature list option" where
  "Comet_WireBlockSignatures e = map_option (map BlockSignature_ToWire) (cb_BlockSignatures (Body e))"

definition Comet_ToWire :: "Comet \<Rightarrow> WireEvent" where
  "Comet_ToWire e =
     \<lparr>w_Body = \<lparr>w_Transactions = cb_Transactions (Body e),
                w_BlockSignatures = Comet_WireBlockSignatures e,
                w_SelfParentIndex = selfParentIndex (Body e),
                w_OtherParentCreatorID = otherParentCreatorID (Body e),
                w_OtherParentIndex = otherParentIndex (Body e),
                w_CreatorID = creatorID (Body e),
                w_Timestamp = Timestamp (Body e),
                w_Index = cb_Index (Body e)\<rparr>,
      w_Signature = cSignature e\<rparr>"

definition WireEvent_BlockSignatures :: "WireEvent \<Rightarrow> byte list \<Rightarrow> BlockSignature list option" where
  "WireEvent_BlockSignatures we validator =
     map_option (map (\<lambda>bs. \<lparr>Validator = validator, bs_Index = wbs_Index bs, bs_Signature = wbs_Signature bs\<rparr>))
       (w_BlockSignatures (w_Body we))"

text \<open>The two orders \<^verbatim>\<open>ByTimestamp\<close> and \<^verbatim>\<open>ByTopologicalOrder\<close>.\<close>

definition ByTimestamp_Less :: "Comet \<Rightarrow> Comet \<Rightarrow> bool" where
  "ByTimestamp_Less a b \<longleftrightarrow> Timestamp (Body a) < Timestamp (Body b)"

definition ByTopologicalOrder_Less :: "Comet \<Rightarrow> Comet \<Rightarrow> bool" where
  "ByTopologicalOrder_Less a b \<longleftrightarrow> TopologicalIndex a < TopologicalIndex b"

section \<open>Rounds, roots and frames\<close>

datatype Trilean = Undefined | TTrue | TFalse

record RoundEvent =
  re_Witness :: bool
  Famous :: Trilean

record RoundInfo =
  Events :: "(string, RoundEvent) gomap"
  Queued :: bool

definition NewRoundInfo :: RoundInfo where
  "NewRoundInfo = \<lparr>Events = [], Queued = False\<rparr>"

definition RoundInfo_AddEvent :: "RoundInfo \<Rightarrow> string \<Rightarrow> bool \<Rightarrow> RoundInfo" where
  "RoundInfo_AddEvent r x witness = (case map_of (Events r) x of
     None \<Rightarrow> r\<lparr>Events := AList.update x \<lparr>re_Witness = witness, Famous = Undefined\<rparr> (Events r)\<rparr>
   | Some _ \<Rightarrow> r)"

definition RoundInfo_SetFame :: "RoundInfo \<Rightarrow> string \<Rightarrow> bool \<Rightarrow> RoundInfo" where
  "RoundInfo_SetFame r x f =
     (let e = (case map_of (Events r) x of
                 None \<Rightarrow> \<lparr>re_Witness = True, Famous = Undefined\<rparr> | Some e \<Rightarrow> e)
      in r\<lparr>Events := AList.update x (e\<lparr>Famous := (if f then TTrue else TFalse)\<rparr>) (Events r)\<rparr>)"

definition RoundInfo_WitnessesDecided :: "RoundInfo \<Rightarrow> bool" where
  "RoundInfo_WitnessesDecided r =
     list_all (\<lambda>(x, e). \<not> (re_Witness e \<and> Famous e = Undefined)) (Events r)"

definition RoundInfo_Witnesses :: "RoundInfo \<Rightarrow> string list" where
  "RoundInfo_Witnesses r = map fst (filter (\<lambda>(x, e). re_Witness e) (Events r))"

definition RoundInfo_FamousWitnesses :: "RoundInfo \<Rightarrow> string list" where
  "RoundInfo_FamousWitnesses r = map fst (filter (\<lambda>(x, e). re_Witness e \<and> Famous e = TTrue) (Events r))"

definition RoundInfo_IsDecided :: "RoundInfo \<Rightarrow> string \<Rightarrow> bool" where
  "RoundInfo_IsDecided r witness = (case map_of (Events r) witness of
     None \<Rightarrow> False
   | Some w \<Rightarrow> re_Witness w \<and> Famous w \<noteq> Undefined)"

text \<open>The exclusive or of the famous witnesses' hashes; a hash that is not a hexadecimal number
  gives a nil operand, and the call panics.\<close>

definition RoundInfo_PseudoRandomNumber :: "RoundInfo \<Rightarrow> int option" where
  "RoundInfo_PseudoRandomNumber r =
     fold (\<lambda>x res. do { a \<leftarrow> res; b \<leftarrow> big_SetString 16 x; Some (a XOR b) })
       (RoundInfo_FamousWitnesses r) (Some 0)"

record Root =
  root_X :: string
  root_Y :: string
  root_Index :: int
  root_Round :: int
  Others :: "(string, string) gomap"

definition NewBaseRoot :: Root where
  "NewBaseRoot = \<lparr>root_X = [], root_Y = [], root_Index = -1, root_Round = -1, Others = []\<rparr>"

record Frame =
  Roots :: "(string, Root) gomap"
  Comets :: "Comet list"

section \<open>Lemmas\<close>

lemma Comet_Hex_nonempty [simp]: "Comet_Hex cr e \<noteq> []" "[] \<noteq> Comet_Hex cr e"
  by (simp_all add: Comet_Hex_def) (metis Sprintf_0xX_nonempty)

text \<open>The hash depends on the exported part of the body only.\<close>

lemma Comet_Hex_cong:
  "CometBody_Marshal (Body a) = CometBody_Marshal (Body b) \<Longrightarrow> Comet_Hex cr a = Comet_Hex cr b"
  by (simp add: Comet_Hex_def Comet_Hash_def CometBody_Hash_def)

lemma SetWireInfo_keeps [simp]:
  "Comet_Hex cr (Comet_SetWireInfo e a b c d) = Comet_Hex cr e"
  "Comet_Creator (Comet_SetWireInfo e a b c d) = Comet_Creator e"
  "Comet_SelfParent (Comet_SetWireInfo e a b c d) = Comet_SelfParent e"
  "Comet_OtherParent (Comet_SetWireInfo e a b c d) = Comet_OtherParent e"
  "Comet_Index (Comet_SetWireInfo e a b c d) = Comet_Index e"
  "LastAncestors (Comet_SetWireInfo e a b c d) = LastAncestors e"
  "FirstDescendants (Comet_SetWireInfo e a b c d) = FirstDescendants e"
  "Comet_BlockSignatures (Comet_SetWireInfo e a b c d) = Comet_BlockSignatures e"
  by (simp_all add: Comet_SetWireInfo_def Comet_BlockSignatures_def Comet_Creator_def Comet_SelfParent_def
      Comet_OtherParent_def Comet_Index_def Comet_Hex_def Comet_Hash_def CometBody_Hash_def
      CometBody_Marshal_def CometBodyJSON.truncate_def)

lemma Comet_accessors_cong [simp]:
  "Comet_Hex cr (e\<lparr>LastAncestors := la\<rparr>) = Comet_Hex cr e"
  "Comet_Hex cr (e\<lparr>FirstDescendants := fd\<rparr>) = Comet_Hex cr e"
  "Comet_Hex cr (e\<lparr>TopologicalIndex := t\<rparr>) = Comet_Hex cr e"
  "Comet_Creator (e\<lparr>LastAncestors := la\<rparr>) = Comet_Creator e"
  "Comet_Creator (e\<lparr>FirstDescendants := fd\<rparr>) = Comet_Creator e"
  "Comet_Creator (e\<lparr>TopologicalIndex := t\<rparr>) = Comet_Creator e"
  "Comet_Index (e\<lparr>LastAncestors := la\<rparr>) = Comet_Index e"
  "Comet_Index (e\<lparr>FirstDescendants := fd\<rparr>) = Comet_Index e"
  "Comet_Index (e\<lparr>TopologicalIndex := t\<rparr>) = Comet_Index e"
  "Comet_SelfParent (e\<lparr>LastAncestors := la\<rparr>) = Comet_SelfParent e"
  "Comet_SelfParent (e\<lparr>FirstDescendants := fd\<rparr>) = Comet_SelfParent e"
  "Comet_SelfParent (e\<lparr>TopologicalIndex := t\<rparr>) = Comet_SelfParent e"
  "Comet_OtherParent (e\<lparr>LastAncestors := la\<rparr>) = Comet_OtherParent e"
  "Comet_OtherParent (e\<lparr>FirstDescendants := fd\<rparr>) = Comet_OtherParent e"
  "Comet_OtherParent (e\<lparr>TopologicalIndex := t\<rparr>) = Comet_OtherParent e"
  "Comet_BlockSignatures (e\<lparr>TopologicalIndex := t\<rparr>) = Comet_BlockSignatures e"
  by (simp_all add: Comet_Creator_def Comet_SelfParent_def Comet_OtherParent_def Comet_Index_def
      Comet_Hex_def Comet_Hash_def Comet_BlockSignatures_def)

lemma Witnesses_iff:
  "distinct (map fst (Events r)) \<Longrightarrow>
     x \<in> set (RoundInfo_Witnesses r) \<longleftrightarrow> (\<exists>e. map_of (Events r) x = Some e \<and> re_Witness e)"
  by (force simp: RoundInfo_Witnesses_def image_iff)

lemma WitnessesDecided_iff:
  "distinct (map fst (Events r)) \<Longrightarrow>
     RoundInfo_WitnessesDecided r \<longleftrightarrow> (\<forall>x \<in> set (RoundInfo_Witnesses r). RoundInfo_IsDecided r x)"
proof -
  assume d: "distinct (map fst (Events r))"
  have m: "(x, e) \<in> set (Events r) \<longleftrightarrow> map_of (Events r) x = Some e" for x e
    using map_of_eq_Some_iff [OF d, of x e] by simp
  have "RoundInfo_WitnessesDecided r \<longleftrightarrow>
      (\<forall>x e. map_of (Events r) x = Some e \<longrightarrow> re_Witness e \<longrightarrow> Famous e \<noteq> Undefined)"
    by (auto simp: RoundInfo_WitnessesDecided_def list_all_iff m [symmetric])
  also have "\<dots> \<longleftrightarrow> (\<forall>x \<in> set (RoundInfo_Witnesses r). RoundInfo_IsDecided r x)"
    by (auto simp: Ball_def Witnesses_iff [OF d] RoundInfo_IsDecided_def)
  finally show ?thesis .
qed

lemma distinct_AddEvent [simp]:
  "distinct (map fst (Events r)) \<Longrightarrow> distinct (map fst (Events (RoundInfo_AddEvent r x w)))"
  by (simp add: RoundInfo_AddEvent_def split: option.split)

lemma distinct_SetFame [simp]:
  "distinct (map fst (Events r)) \<Longrightarrow> distinct (map fst (Events (RoundInfo_SetFame r x f)))"
  by (simp add: RoundInfo_SetFame_def Let_def)

section \<open>Properties\<close>

text \<open>
  Claim C27.  A round keeps its books: \<^verbatim>\<open>AddEvent\<close> never changes an event the round already has;
  \<^verbatim>\<open>SetFame\<close> decides exactly the given witness and leaves every other event as it was; and
  \<^verbatim>\<open>WitnessesDecided\<close> holds exactly when \<^verbatim>\<open>IsDecided\<close> does for each of \<^verbatim>\<open>Witnesses\<close>.
\<close>

theorem RoundInfo_bookkeeping:
  assumes "distinct (map fst (Events r))"
  shows "map_of (Events (RoundInfo_AddEvent r x w)) y =
      (if y = x \<and> map_of (Events r) x = None then Some \<lparr>re_Witness = w, Famous = Undefined\<rparr>
       else map_of (Events r) y) \<and>
    (x \<in> set (RoundInfo_Witnesses r) \<longrightarrow>
       RoundInfo_IsDecided (RoundInfo_SetFame r x f) x \<and>
       (x \<in> set (RoundInfo_FamousWitnesses (RoundInfo_SetFame r x f)) \<longleftrightarrow> f)) \<and>
    (y \<noteq> x \<longrightarrow> map_of (Events (RoundInfo_SetFame r x f)) y = map_of (Events r) y) \<and>
    (RoundInfo_WitnessesDecided r \<longleftrightarrow>
       (\<forall>z \<in> set (RoundInfo_Witnesses r). RoundInfo_IsDecided r z))"
proof -
  have fam: "x \<in> set (RoundInfo_FamousWitnesses q) \<longleftrightarrow>
      (\<exists>e. map_of (Events q) x = Some e \<and> re_Witness e \<and> Famous e = TTrue)"
    if "distinct (map fst (Events q))" for q
    using that by (force simp: RoundInfo_FamousWitnesses_def image_iff)
  have "x \<in> set (RoundInfo_Witnesses r) \<longrightarrow>
      RoundInfo_IsDecided (RoundInfo_SetFame r x f) x \<and>
      (x \<in> set (RoundInfo_FamousWitnesses (RoundInfo_SetFame r x f)) \<longleftrightarrow> f)"
    using assms fam [of "RoundInfo_SetFame r x f"]
    by (auto simp: Witnesses_iff RoundInfo_IsDecided_def RoundInfo_SetFame_def)
  then show ?thesis
    using WitnessesDecided_iff [OF assms]
    by (auto simp: RoundInfo_AddEvent_def RoundInfo_SetFame_def Let_def split: option.splits)
qed

theorem RoundInfo_bookkeeping_witness:
  "RoundInfo_IsDecided (RoundInfo_SetFame (RoundInfo_AddEvent NewRoundInfo ''w'' True) ''w'' False) ''w''"
  using RoundInfo_bookkeeping [of "RoundInfo_AddEvent NewRoundInfo ''w'' True" "''w''" True "''w''" False]
  by (simp add: RoundInfo_AddEvent_def NewRoundInfo_def RoundInfo_Witnesses_def)



text \<open>
  Claim C40.  The pseudo-random number of a round cannot be computed once the round has a famous
  witness recorded under its hash: the hash starts with 0x, which is no number in base 16, so
  the exclusive or gets a nil operand and panics.
\<close>

theorem PseudoRandomNumber_panics:
  assumes "Sprintf_0xX h \<in> set (RoundInfo_FamousWitnesses r)"
  shows "RoundInfo_PseudoRandomNumber r = None"
proof -
  have bad: "big_SetString 16 (Sprintf_0xX h) = None"
    by (simp add: big_SetString_def Sprintf_0xX_def val36_def)
  let ?step = "\<lambda>x res. do { a \<leftarrow> res; b \<leftarrow> big_SetString 16 x; Some (a XOR b) }"
  have none: "fold ?step xs None = None" for xs by (induction xs) auto
  have "Sprintf_0xX h \<in> set xs \<Longrightarrow> fold ?step xs acc = None" for xs acc
    by (induction xs arbitrary: acc) (auto simp: bad none bind_rzero)
  then show ?thesis using assms by (simp add: RoundInfo_PseudoRandomNumber_def)
qed

theorem PseudoRandomNumber_panics_witness:
  "RoundInfo_PseudoRandomNumber
     (RoundInfo_SetFame (RoundInfo_AddEvent NewRoundInfo (Sprintf_0xX []) True) (Sprintf_0xX []) True) = None"
  by (rule PseudoRandomNumber_panics [of "[]"])
    (simp add: RoundInfo_AddEvent_def RoundInfo_SetFame_def NewRoundInfo_def RoundInfo_FamousWitnesses_def)

end
