(* ===== verification/StoreIface.thy ===== *)
theory StoreIface
  imports CometTypes
begin

text \<open>
  The interface \<^verbatim>\<open>Store\<close> of \<^verbatim>\<open>src/storage/store.go\<close>.  A Go interface value is a record of
  operations over a type of store states; the consensus code is written once against the record
  and a store is an argument of it.  The abstract view of a store says which comets, last events,
  roots, rounds and blocks it holds, and the locale \<open>comet_store\<close> is the contract between a store
  and the consensus code: what each operation returns and what it does to the view.
\<close>

section \<open>The store interface\<close>

text \<open>The operations of the interface \<^verbatim>\<open>Store\<close> the consensus layer calls.\<close>

record 'st Store =
  st_CacheSize :: "'st \<Rightarrow> int"
  st_GetComet :: "string \<Rightarrow> 'st \<Rightarrow> (StoreErr, Comet) result \<times> 'st"
  st_SetComet :: "Comet \<Rightarrow> 'st \<Rightarrow> StoreErr option \<times> 'st"
  st_ParticipantEvents :: "string \<Rightarrow> int \<Rightarrow> 'st \<Rightarrow> (StoreErr, string list) result"
  st_ParticipantEvent :: "string \<Rightarrow> int \<Rightarrow> 'st \<Rightarrow> (StoreErr, string) result option"
  st_LastEventFrom :: "string \<Rightarrow> 'st \<Rightarrow> string \<times> bool \<times> StoreErr option"
  st_KnownEvents :: "'st \<Rightarrow> (int, int) gomap"
  st_ConsensusEvents :: "'st \<Rightarrow> string list"
  st_ConsensusEventsCount :: "'st \<Rightarrow> int"
  st_AddConsensusEvent :: "string \<Rightarrow> 'st \<Rightarrow> StoreErr option \<times> 'st"
  st_GetRound :: "int \<Rightarrow> 'st \<Rightarrow> (RoundInfo \<times> StoreErr option) \<times> 'st"
  st_SetRound :: "int \<Rightarrow> RoundInfo \<Rightarrow> 'st \<Rightarrow> StoreErr option \<times> 'st"
  st_LastRound :: "'st \<Rightarrow> int"
  st_RoundWitnesses :: "int \<Rightarrow> 'st \<Rightarrow> string list \<times> 'st"
  st_RoundEvents :: "int \<Rightarrow> 'st \<Rightarrow> int \<times> 'st"
  st_GetRoot :: "string \<Rightarrow> 'st \<Rightarrow> (StoreErr, Root) result"
  st_GetBlock :: "int \<Rightarrow> 'st \<Rightarrow> (StoreErr, Block) result \<times> 'st"
  st_SetBlock :: "Block \<Rightarrow> 'st \<Rightarrow> StoreErr option \<times> 'st"
  st_Reset :: "(string, Root) gomap \<Rightarrow> 'st \<Rightarrow> StoreErr option \<times> 'st"

section \<open>Specification\<close>

text \<open>
  A comet up to its wire fields, which \<^verbatim>\<open>encoding/json\<close> does not store: a comet read back from a
  database has them zero.
\<close>

definition core :: "Comet \<Rightarrow> Comet" where
  "core c = Comet_SetWireInfo c 0 0 0 0"

text \<open>
  What a store holds.  \<open>v_last\<close> is defined for the participants the store knows and gives the hash
  and the index of the participant's latest event; \<open>v_cap\<close> is the number of comets the store can
  hold, if it is bounded.
\<close>

record store_view =
  v_comets :: "string \<rightharpoonup> Comet"
  v_last :: "string \<rightharpoonup> (string \<times> int) option"
  v_roots :: "string \<rightharpoonup> Root"
  v_rounds :: "int \<rightharpoonup> RoundInfo"
  v_lastRound :: int
  v_blocks :: "int \<rightharpoonup> Block"
  v_cap :: "int option"

definition roomy :: "store_view \<Rightarrow> bool" where
  "roomy v = (case v_cap v of None \<Rightarrow> True | Some n \<Rightarrow> int (card (dom (v_comets v))) < n)"

definition spec_LastEventFrom :: "store_view \<Rightarrow> string \<Rightarrow> string \<times> bool \<times> StoreErr option" where
  "spec_LastEventFrom v p = (case v_last v p of
     None \<Rightarrow> ([], False, Some (NewStoreErr UnknownParticipant p))
   | Some None \<Rightarrow> (case v_roots v p of
        None \<Rightarrow> ([], False, Some (NewStoreErr NoRoot p))
      | Some r \<Rightarrow> (root_X r, True, None))
   | Some (Some (h, i)) \<Rightarrow> (h, False, None))"

text \<open>The comet is the next one of its creator: the first one, or one above the latest.\<close>

definition next_event :: "store_view \<Rightarrow> Comet \<Rightarrow> bool" where
  "next_event v c = (case v_last v (Comet_Creator c) of
     None \<Rightarrow> False
   | Some None \<Rightarrow> 0 \<le> Comet_Index c
   | Some (Some (h, i)) \<Rightarrow> 0 \<le> i \<and> Comet_Index c = i + 1)"

locale comet_store =
  fixes S :: "'st Store" and cr :: crypto
    and view :: "'st \<Rightarrow> store_view" and ok :: "'st \<Rightarrow> bool"
  assumes GetComet_law: "ok s \<Longrightarrow> st_GetComet S k s = (r, s') \<Longrightarrow>
      ok s' \<and> view s' = view s \<and>
      (case v_comets (view s) k of
         None \<Rightarrow> r = Inl (NewStoreErr KeyNotFound k)
       | Some c \<Rightarrow> \<exists>c'. r = Inr c' \<and> core c' = c)"
    and SetComet_old: "ok s \<Longrightarrow> st_SetComet S c s = (e, s') \<Longrightarrow>
      v_comets (view s) (Comet_Hex cr c) \<noteq> None \<Longrightarrow>
      e = None \<and> ok s' \<and>
      view s' = (view s)\<lparr>v_comets := (v_comets (view s))(Comet_Hex cr c \<mapsto> core c)\<rparr>"
    and SetComet_new: "ok s \<Longrightarrow> st_SetComet S c s = (e, s') \<Longrightarrow>
      v_comets (view s) (Comet_Hex cr c) = None \<Longrightarrow> next_event (view s) c \<Longrightarrow> roomy (view s) \<Longrightarrow>
      e = None \<and> ok s' \<and>
      view s' = (view s)\<lparr>v_comets := (v_comets (view s))(Comet_Hex cr c \<mapsto> core c),
        v_last := (v_last (view s))(Comet_Creator c \<mapsto> Some (Comet_Hex cr c, Comet_Index c))\<rparr>"
    and SetComet_gap: "ok s \<Longrightarrow> st_SetComet S c s = (e, s') \<Longrightarrow>
      v_comets (view s) (Comet_Hex cr c) = None \<Longrightarrow>
      v_last (view s) (Comet_Creator c) = Some (Some (h, i)) \<Longrightarrow> 0 \<le> i \<Longrightarrow> i + 1 < Comet_Index c \<Longrightarrow>
      e = Some (NewStoreErr SkippedIndex (itoa (Comet_Index c))) \<and> ok s' \<and> view s' = view s"
    and LastEventFrom_law: "ok s \<Longrightarrow> st_LastEventFrom S p s = spec_LastEventFrom (view s) p"
    and GetRoot_law: "ok s \<Longrightarrow> st_GetRoot S p s = (case v_roots (view s) p of
         None \<Rightarrow> Inl (NewStoreErr KeyNotFound p) | Some root \<Rightarrow> Inr root)"
    and GetBlock_law: "ok s \<Longrightarrow> st_GetBlock S i s = (b, s') \<Longrightarrow>
      ok s' \<and> view s' = view s \<and>
      b = (case v_blocks (view s) i of
         None \<Rightarrow> Inl (NewStoreErr KeyNotFound (itoa i)) | Some blk \<Rightarrow> Inr blk)"
    and SetBlock_law: "ok s \<Longrightarrow> st_SetBlock S blk s = (e, s') \<Longrightarrow>
      e = None \<and> ok s' \<and> v_blocks (view s') (Block_Index blk) = Some blk \<and>
      (\<exists>m. view s' = (view s)\<lparr>v_blocks := m\<rparr>)"

text \<open>
  The part of the contract the voting and ordering methods rely on: rounds are read as they are stored,
  storing a round invents no other round, and consensus events are counted without an error.
\<close>

locale consensus_store = comet_store S cr view ok
  for S :: "'st Store" and cr :: crypto and view :: "'st \<Rightarrow> store_view" and ok :: "'st \<Rightarrow> bool" +
  assumes GetRound_law: "ok s \<Longrightarrow> st_GetRound S i s = (r, s') \<Longrightarrow>
      ok s' \<and> view s' = view s \<and>
      r = (case v_rounds (view s) i of
         None \<Rightarrow> (NewRoundInfo, Some (NewStoreErr KeyNotFound (itoa i))) | Some ri \<Rightarrow> (ri, None))"
    and SetRound_law: "ok s \<Longrightarrow> st_SetRound S i ri s = (e, s') \<Longrightarrow>
      e = None \<and> ok s' \<and>
      (\<exists>m. m i = Some ri \<and> (\<forall>k u. m k = Some u \<longrightarrow> k = i \<or> v_rounds (view s) k = Some u) \<and>
         view s' = (view s)\<lparr>v_rounds := m, v_lastRound := max (v_lastRound (view s)) i\<rparr>)"
    and RoundWitnesses_law: "ok s \<Longrightarrow> st_RoundWitnesses S i s = (ws, s') \<Longrightarrow>
      ok s' \<and> view s' = view s \<and>
      ws = (case v_rounds (view s) i of None \<Rightarrow> [] | Some ri \<Rightarrow> RoundInfo_Witnesses ri)"
    and RoundEvents_law: "ok s \<Longrightarrow> st_RoundEvents S i s = (n, s') \<Longrightarrow>
      ok s' \<and> view s' = view s \<and>
      n = (case v_rounds (view s) i of None \<Rightarrow> 0 | Some ri \<Rightarrow> int (length (Events ri)))"
    and LastRound_law: "ok s \<Longrightarrow> st_LastRound S s = v_lastRound (view s)"
    and AddConsensusEvent_law: "ok s \<Longrightarrow> st_AddConsensusEvent S x s = (e, s') \<Longrightarrow>
      e = None \<and> ok s' \<and> view s' = view s"

lemma core_keeps [simp]:
  "Comet_Hex cr (core c) = Comet_Hex cr c"
  "Comet_Creator (core c) = Comet_Creator c"
  "Comet_SelfParent (core c) = Comet_SelfParent c"
  "Comet_OtherParent (core c) = Comet_OtherParent c"
  "Comet_Index (core c) = Comet_Index c"
  "LastAncestors (core c) = LastAncestors c"
  "FirstDescendants (core c) = FirstDescendants c"
  by (simp_all add: core_def)

lemma core_core [simp]: "core (core c) = core c"
  by (simp add: core_def Comet_SetWireInfo_def)

lemma core_SetWireInfo [simp]: "core (Comet_SetWireInfo c a b d e) = core c"
  by (simp add: core_def Comet_SetWireInfo_def)

lemma core_update [simp]:
  "core (c\<lparr>FirstDescendants := fd\<rparr>) = (core c)\<lparr>FirstDescendants := fd\<rparr>"
  "core (c\<lparr>LastAncestors := la\<rparr>) = (core c)\<lparr>LastAncestors := la\<rparr>"
  "core (c\<lparr>TopologicalIndex := t\<rparr>) = (core c)\<lparr>TopologicalIndex := t\<rparr>"
  by (simp_all add: core_def Comet_SetWireInfo_def)

end
