(* ===== verification/Lru.thy ===== *)
theory Lru
  imports Prelude
begin

text \<open>
  The fixed-size least-recently-used cache of \<^verbatim>\<open>src/common/lru.go\<close>.  The cache holds a doubly
  linked list of entries, newest first, and a map from keys to list elements.  A
  \<^verbatim>\<open>*list.Element\<close> is an address, a natural number drawn from the counter \<open>nextElem\<close>, so the
  agreement of the map with the list is an invariant to be proved and not a matter of
  representation.  Every \<^verbatim>\<open>NewLRU\<close> call of the program passes a nil \<^verbatim>\<open>onEvict\<close>, so no callback
  is modelled.

  The lemmas show that the invariant is kept, that the cache refines a list of entries in
  order of use, and the laws of the interface \<open>cache\<close>, through which the memoised
  functions of the consensus code are proved to return what they compute.
\<close>

section \<open>The cache\<close>

record ('k, 'v) LRU =
  lru_size :: int
  evictList :: "(nat \<times> 'k \<times> 'v) list"
  lru_items :: "'k \<rightharpoonup> nat"
  nextElem :: nat

definition NewLRU :: "int \<Rightarrow> ('k, 'v) LRU" where
  "NewLRU sz = \<lparr>lru_size = sz, evictList = [], lru_items = Map.empty, nextElem = 0\<rparr>"

definition LRU_Purge :: "('k, 'v) LRU \<Rightarrow> ('k, 'v) LRU" where
  "LRU_Purge c = c\<lparr>lru_items := Map.empty, evictList := []\<rparr>"

text \<open>The operations of \<^verbatim>\<open>container/list\<close> on elements addressed by \<open>p\<close>.\<close>

definition elem_at :: "nat \<Rightarrow> (nat \<times> 'k \<times> 'v) list \<Rightarrow> (nat \<times> 'k \<times> 'v) option" where
  "elem_at p l = find (\<lambda>e. fst e = p) l"

definition list_Remove :: "nat \<Rightarrow> (nat \<times> 'k \<times> 'v) list \<Rightarrow> (nat \<times> 'k \<times> 'v) list" where
  "list_Remove p l = filter (\<lambda>e. fst e \<noteq> p) l"

definition list_MoveToFront :: "nat \<Rightarrow> (nat \<times> 'k \<times> 'v) list \<Rightarrow> (nat \<times> 'k \<times> 'v) list" where
  "list_MoveToFront p l = (case elem_at p l of None \<Rightarrow> l | Some e \<Rightarrow> e # list_Remove p l)"

definition elem_setValue :: "nat \<Rightarrow> 'v \<Rightarrow> (nat \<times> 'k \<times> 'v) list \<Rightarrow> (nat \<times> 'k \<times> 'v) list" where
  "elem_setValue p v l = map (\<lambda>(q, k, u). if q = p then (q, k, v) else (q, k, u)) l"

definition list_Back :: "'a list \<Rightarrow> 'a option" where
  "list_Back l = (if l = [] then None else Some (last l))"

definition LRU_removeElement :: "('k, 'v) LRU \<Rightarrow> (nat \<times> 'k \<times> 'v) \<Rightarrow> ('k, 'v) LRU" where
  "LRU_removeElement c e = (case e of (p, k, v) \<Rightarrow>
     c\<lparr>evictList := list_Remove p (evictList c), lru_items := (lru_items c)(k := None)\<rparr>)"

definition LRU_removeOldest :: "('k, 'v) LRU \<Rightarrow> ('k, 'v) LRU" where
  "LRU_removeOldest c = (case list_Back (evictList c) of
     None \<Rightarrow> c
   | Some e \<Rightarrow> LRU_removeElement c e)"

definition LRU_Add :: "('k, 'v) LRU \<Rightarrow> 'k \<Rightarrow> 'v \<Rightarrow> bool \<times> ('k, 'v) LRU" where
  "LRU_Add c k v = (case lru_items c k of
     Some p \<Rightarrow> (False, c\<lparr>evictList := elem_setValue p v (list_MoveToFront p (evictList c))\<rparr>)
   | None \<Rightarrow>
       let p = nextElem c;
           c1 = c\<lparr>evictList := (p, k, v) # evictList c, lru_items := (lru_items c)(k \<mapsto> p),
                  nextElem := Suc p\<rparr>;
           evict = int (length (evictList c1)) > lru_size c1
       in (evict, if evict then LRU_removeOldest c1 else c1))"

definition LRU_Get :: "('k, 'v) LRU \<Rightarrow> 'k \<Rightarrow> 'v option \<times> ('k, 'v) LRU" where
  "LRU_Get c k = (case lru_items c k of
     Some p \<Rightarrow>
       let l = list_MoveToFront p (evictList c)
       in (map_option (snd \<circ> snd) (elem_at p l), c\<lparr>evictList := l\<rparr>)
   | None \<Rightarrow> (None, c))"

definition LRU_Contains :: "('k, 'v) LRU \<Rightarrow> 'k \<Rightarrow> bool" where
  "LRU_Contains c k = (lru_items c k \<noteq> None)"

definition LRU_Peek :: "('k, 'v) LRU \<Rightarrow> 'k \<Rightarrow> 'v option" where
  "LRU_Peek c k = (case lru_items c k of
     Some p \<Rightarrow> map_option (snd \<circ> snd) (elem_at p (evictList c))
   | None \<Rightarrow> None)"

definition LRU_Remove :: "('k, 'v) LRU \<Rightarrow> 'k \<Rightarrow> bool \<times> ('k, 'v) LRU" where
  "LRU_Remove c k = (case lru_items c k of
     Some p \<Rightarrow> (True, (case elem_at p (evictList c) of
                        None \<Rightarrow> c | Some e \<Rightarrow> LRU_removeElement c e))
   | None \<Rightarrow> (False, c))"

definition LRU_RemoveOldest :: "('k, 'v) LRU \<Rightarrow> ('k \<times> 'v) option \<times> ('k, 'v) LRU" where
  "LRU_RemoveOldest c = (case list_Back (evictList c) of
     None \<Rightarrow> (None, c)
   | Some e \<Rightarrow> (Some (snd e), LRU_removeElement c e))"

definition LRU_GetOldest :: "('k, 'v) LRU \<Rightarrow> ('k \<times> 'v) option" where
  "LRU_GetOldest c = map_option snd (list_Back (evictList c))"

definition LRU_Keys :: "('k, 'v) LRU \<Rightarrow> 'k list" where
  "LRU_Keys c = map (fst \<circ> snd) (rev (evictList c))"

definition LRU_Len :: "('k, 'v) LRU \<Rightarrow> int" where
  "LRU_Len c = int (length (evictList c))"

section \<open>Specification\<close>

text \<open>The representation invariant.\<close>

definition LRU_rep :: "('k, 'v) LRU \<Rightarrow> bool" where
  "LRU_rep c \<longleftrightarrow>
     distinct (map fst (evictList c)) \<and>
     distinct (map (fst \<circ> snd) (evictList c)) \<and>
     (\<forall>e \<in> set (evictList c). fst e < nextElem c) \<and>
     (\<forall>k p. lru_items c k = Some p \<longleftrightarrow> (\<exists>v. (p, k, v) \<in> set (evictList c)))"

definition LRU_inv :: "('k, 'v) LRU \<Rightarrow> bool" where
  "LRU_inv c \<longleftrightarrow> LRU_rep c \<and> LRU_Len c \<le> max 0 (lru_size c)"

text \<open>
  What a cache promises: the entries from the least to the most recently used one.  A use
  moves the entry to the end; an insertion appends and drops from the front what does not
  fit.
\<close>

type_synonym ('k, 'v) recency = "('k \<times> 'v) list"

definition recency :: "('k, 'v) LRU \<Rightarrow> ('k, 'v) recency" where
  "recency c = map snd (rev (evictList c))"

definition forget :: "'k \<Rightarrow> ('k, 'v) recency \<Rightarrow> ('k, 'v) recency" where
  "forget k l = filter (\<lambda>e. fst e \<noteq> k) l"

definition spec_Get :: "('k, 'v) recency \<Rightarrow> 'k \<Rightarrow> 'v option \<times> ('k, 'v) recency" where
  "spec_Get l k = (case map_of l k of
     None \<Rightarrow> (None, l)
   | Some v \<Rightarrow> (Some v, forget k l @ [(k, v)]))"

definition spec_Add :: "int \<Rightarrow> ('k, 'v) recency \<Rightarrow> 'k \<Rightarrow> 'v \<Rightarrow> bool \<times> ('k, 'v) recency" where
  "spec_Add sz l k v =
     (let l' = forget k l @ [(k, v)]
      in if k \<notin> fst ` set l \<and> int (length l') > sz then (True, tl l') else (False, l'))"

text \<open>
  The interface a memoising client relies on: a lookup reads the view and leaves it as it
  is, and an insertion shows the new entry and invents nothing else.
\<close>

locale cache =
  fixes lookup :: "'c \<Rightarrow> 'k \<Rightarrow> 'v option \<times> 'c"
    and insert :: "'c \<Rightarrow> 'k \<Rightarrow> 'v \<Rightarrow> bool \<times> 'c"
    and view :: "'c \<Rightarrow> 'k \<Rightarrow> 'v option"
    and ok :: "'c \<Rightarrow> bool"
  assumes lookup_view: "ok c \<Longrightarrow> fst (lookup c k) = view c k"
    and lookup_keeps: "ok c \<Longrightarrow> view (snd (lookup c k)) = view c"
    and lookup_ok: "ok c \<Longrightarrow> ok (snd (lookup c k))"
    and insert_ok: "ok c \<Longrightarrow> ok (snd (insert c k v))"
    and insert_view: "ok c \<Longrightarrow> view (snd (insert c k v)) j = Some u \<Longrightarrow>
                        (if j = k then u = v else view c j = Some u)"
begin

text \<open>A cache is coherent with a relation when it holds of every entry the cache shows.\<close>

definition coherent :: "('k \<Rightarrow> 'v \<Rightarrow> bool) \<Rightarrow> 'c \<Rightarrow> bool" where
  "coherent R c \<longleftrightarrow> ok c \<and> (\<forall>k v. view c k = Some v \<longrightarrow> R k v)"

lemma coherent_lookup:
  assumes "coherent R c"
  shows "coherent R (snd (lookup c k))" and "fst (lookup c k) = Some v \<Longrightarrow> R k v"
  using assms lookup_keeps lookup_view lookup_ok by (simp_all add: coherent_def)

lemma coherent_insert:
  assumes "coherent R c" "R k v"
  shows "coherent R (snd (insert c k v))"
proof -
  have ok: "ok c" using assms(1) by (simp add: coherent_def)
  have "R j u" if "view (snd (insert c k v)) j = Some u" for j u
    using insert_view [OF ok that] assms by (auto simp: coherent_def split: if_splits)
  then show ?thesis using insert_ok [OF ok] by (simp add: coherent_def)
qed

lemma coherent_mono:
  assumes "coherent R c" "\<And>k v. R k v \<Longrightarrow> R' k v"
  shows "coherent R' c"
  using assms by (auto simp: coherent_def)

end

section \<open>Lemmas\<close>

lemma elem_at_Some:
  assumes "distinct (map fst l)" "(p, k, v) \<in> set l"
  shows "elem_at p l = Some (p, k, v)"
  using find_Some_distinct [OF assms] by (simp add: elem_at_def)

lemma elem_at_SomeD: "elem_at p l = Some e \<Longrightarrow> e \<in> set l \<and> fst e = p"
  by (auto simp: elem_at_def find_Some_iff)

lemma set_list_Remove [simp]: "set (list_Remove p l) = {e \<in> set l. fst e \<noteq> p}"
  by (auto simp: list_Remove_def)

lemma list_Remove_by_key:
  assumes "distinct (map fst l)" "distinct (map (fst \<circ> snd) l)" "(p, k, v) \<in> set l"
  shows "list_Remove p l = filter (\<lambda>e. fst (snd e) \<noteq> k) l"
proof -
  have i: "inj_on fst (set l)" "inj_on (fst \<circ> snd) (set l)"
    using assms by (simp_all add: distinct_map)
  have "fst e = p \<longleftrightarrow> fst (snd e) = k" if "e \<in> set l" for e
    using inj_onD [OF i(1), of e "(p, k, v)"] inj_onD [OF i(2), of e "(p, k, v)"] that assms(3)
    by (cases e) auto
  then have "filter (\<lambda>e. fst e \<noteq> p) l = filter (\<lambda>e. fst (snd e) \<noteq> k) l"
    by (intro filter_cong) simp_all
  then show ?thesis by (simp add: list_Remove_def)
qed

lemma list_MoveToFront_eq:
  assumes "distinct (map fst l)" "(p, k, v) \<in> set l"
  shows "list_MoveToFront p l = (p, k, v) # list_Remove p l"
  using elem_at_Some [OF assms] by (simp add: list_MoveToFront_def)

lemma length_list_Remove:
  assumes "distinct (map fst l)" "(p, k, v) \<in> set l"
  shows "Suc (length (list_Remove p l)) = length l"
  using filter_neq_distinct_len [OF assms] by (simp add: list_Remove_def)

lemma elem_setValue_absent: "p \<notin> fst ` set l \<Longrightarrow> elem_setValue p v l = l"
  by (induction l) (auto simp: elem_setValue_def)

lemma elem_setValue_front:
  "elem_setValue p v ((p, k, u) # list_Remove p l) = (p, k, v) # list_Remove p l"
proof -
  have "elem_setValue p v (list_Remove p l) = list_Remove p l"
    by (rule elem_setValue_absent) auto
  then show ?thesis by (simp add: elem_setValue_def)
qed

lemma LRU_repD:
  assumes "LRU_rep c"
  shows "distinct (map fst (evictList c))" "distinct (map (fst \<circ> snd) (evictList c))"
    "lru_items c k = Some p \<longleftrightarrow> (\<exists>v. (p, k, v) \<in> set (evictList c))"
    "e \<in> set (evictList c) \<Longrightarrow> fst e < nextElem c"
  using assms by (auto simp: LRU_rep_def)

lemma LRU_item_None:
  assumes "LRU_rep c"
  shows "lru_items c k = None \<longleftrightarrow> k \<notin> (fst \<circ> snd) ` set (evictList c)"
proof -
  have "lru_items c k \<noteq> None \<longleftrightarrow> (\<exists>p v. (p, k, v) \<in> set (evictList c))"
    using LRU_repD(3) [OF assms, of k] by blast
  also have "\<dots> \<longleftrightarrow> k \<in> (fst \<circ> snd) ` set (evictList c)"
    by (auto simp: image_iff) force+
  finally show ?thesis by blast
qed

lemma LRU_rep_moved:
  assumes "LRU_rep c" "(p, k, u) \<in> set (evictList c)"
  shows "LRU_rep (c\<lparr>evictList := (p, k, v) # list_Remove p (evictList c)\<rparr>)"
proof -
  note d = LRU_repD [OF assms(1)]
  have r: "list_Remove p (evictList c) = filter (\<lambda>e. fst (snd e) \<noteq> k) (evictList c)"
    using list_Remove_by_key [OF d(1) d(2) assms(2)] .
  have items: "(\<exists>w. (q, j, w) \<in> set ((p, k, v) # list_Remove p (evictList c))) \<longleftrightarrow>
      lru_items c j = Some q" for q j
  proof (cases "j = k")
    case True
    then show ?thesis using d(3) [of k q] d(3) [of k p] assms(2) by (auto simp: r)
  next
    case False
    then show ?thesis using d(3) [of j q] by (simp add: r)
  qed
  have "distinct (map fst ((p, k, v) # list_Remove p (evictList c)))"
    using d(1) by (auto simp: list_Remove_def distinct_map_filter)
  moreover have "distinct (map (fst \<circ> snd) ((p, k, v) # list_Remove p (evictList c)))"
    using d(2) by (auto simp: r distinct_map_filter)
  moreover have "\<forall>e\<in>set ((p, k, v) # list_Remove p (evictList c)). fst e < nextElem c"
    using d(4) assms(2) by force
  ultimately show ?thesis
    using items by (simp add: LRU_rep_def)
qed

lemma LRU_rep_removed:
  assumes "LRU_rep c" "(p, k, u) \<in> set (evictList c)"
  shows "LRU_rep (LRU_removeElement c (p, k, u))"
proof -
  note d = LRU_repD [OF assms(1)]
  have r: "list_Remove p (evictList c) = filter (\<lambda>e. fst (snd e) \<noteq> k) (evictList c)"
    using list_Remove_by_key [OF d(1) d(2) assms(2)] .
  have "((lru_items c)(k := None)) j = Some q \<longleftrightarrow>
      (\<exists>w. (q, j, w) \<in> set (filter (\<lambda>e. fst (snd e) \<noteq> k) (evictList c)))" for j q
    using d(3) [of j q] by simp
  then show ?thesis
    using d(1,2,4) by (simp add: LRU_rep_def LRU_removeElement_def r distinct_map_filter)
qed

lemma NewLRU_inv [simp]: "LRU_inv (NewLRU sz)"
  by (simp add: LRU_inv_def LRU_rep_def NewLRU_def LRU_Len_def)

lemma LRU_Get_eq:
  assumes "LRU_rep c"
  shows "LRU_Get c k = (case lru_items c k of None \<Rightarrow> (None, c) | Some p \<Rightarrow>
           let v = the (LRU_Peek c k)
           in (Some v, c\<lparr>evictList := (p, k, v) # list_Remove p (evictList c)\<rparr>))"
proof (cases "lru_items c k")
  case (Some p)
  note d = LRU_repD [OF assms]
  from Some d(3) obtain v where v: "(p, k, v) \<in> set (evictList c)" by blast
  show ?thesis
    using Some v elem_at_Some [OF d(1) v] list_MoveToFront_eq [OF d(1) v]
    by (simp add: LRU_Get_def LRU_Peek_def elem_at_def)
qed (simp add: LRU_Get_def)

lemma LRU_Peek_iff:
  assumes "LRU_rep c"
  shows "LRU_Peek c k = Some v \<longleftrightarrow> (\<exists>p. (p, k, v) \<in> set (evictList c))"
proof
  assume "LRU_Peek c k = Some v"
  then obtain p e where p: "lru_items c k = Some p" "elem_at p (evictList c) = Some e" "snd (snd e) = v"
    by (auto simp: LRU_Peek_def split: option.splits)
  from p(1) obtain u where u: "(p, k, u) \<in> set (evictList c)"
    using LRU_repD(3) [OF assms] by blast
  have "e = (p, k, u)" using p(2) elem_at_Some [OF LRU_repD(1) [OF assms] u] by simp
  then show "\<exists>p. (p, k, v) \<in> set (evictList c)" using u p(3) by auto
next
  assume "\<exists>p. (p, k, v) \<in> set (evictList c)"
  then obtain p where p: "(p, k, v) \<in> set (evictList c)" ..
  then have "lru_items c k = Some p" using LRU_repD(3) [OF assms] by blast
  then show "LRU_Peek c k = Some v"
    using elem_at_Some [OF LRU_repD(1) [OF assms] p] by (simp add: LRU_Peek_def)
qed

lemma LRU_item_Peek:
  assumes "LRU_rep c" "lru_items c k = Some p"
  obtains v where "LRU_Peek c k = Some v" "(p, k, v) \<in> set (evictList c)"
  using LRU_repD(3) [OF assms(1)] LRU_Peek_iff [OF assms(1)] assms(2) by blast

lemma LRU_Get_rep: "LRU_rep c \<Longrightarrow> LRU_rep (snd (LRU_Get c k))"
proof (cases "lru_items c k")
  case (Some p)
  assume inv: "LRU_rep c"
  obtain v where "LRU_Peek c k = Some v" "(p, k, v) \<in> set (evictList c)"
    using LRU_item_Peek [OF inv Some] .
  then show ?thesis using Some inv LRU_rep_moved [OF inv] by (simp add: LRU_Get_eq)
qed (simp add: LRU_Get_def)

lemma LRU_Add_hit:
  assumes "LRU_rep c" "(p, k, u) \<in> set (evictList c)"
  shows "LRU_Add c k v = (False, c\<lparr>evictList := (p, k, v) # list_Remove p (evictList c)\<rparr>)"
proof -
  have "lru_items c k = Some p" using assms(2) LRU_repD(3) [OF assms(1)] by blast
  then show ?thesis
    using list_MoveToFront_eq [OF LRU_repD(1) [OF assms(1)] assms(2)]
    by (simp add: LRU_Add_def elem_setValue_front)
qed

text \<open>A miss pushes a fresh element in front and drops the last one when the list is full.\<close>

lemma LRU_Add_miss_evict:
  assumes "lru_items c k = None" "LRU_Len c \<ge> lru_size c"
  shows "LRU_Add c k v = (True, LRU_removeOldest
     (c\<lparr>evictList := (nextElem c, k, v) # evictList c, lru_items := (lru_items c)(k \<mapsto> nextElem c),
        nextElem := Suc (nextElem c)\<rparr>))"
  using assms by (simp add: LRU_Add_def LRU_Len_def Let_def)

lemma LRU_Add_miss_room:
  assumes "lru_items c k = None" "LRU_Len c < lru_size c"
  shows "LRU_Add c k v = (False,
     c\<lparr>evictList := (nextElem c, k, v) # evictList c, lru_items := (lru_items c)(k \<mapsto> nextElem c),
        nextElem := Suc (nextElem c)\<rparr>)"
  using assms by (simp add: LRU_Add_def LRU_Len_def Let_def)

lemma LRU_rep_pushed:
  assumes "LRU_rep c" "lru_items c k = None"
  shows "LRU_rep (c\<lparr>evictList := (nextElem c, k, v) # evictList c,
       lru_items := (lru_items c)(k \<mapsto> nextElem c), nextElem := Suc (nextElem c)\<rparr>)"
proof -
  note d = LRU_repD [OF assms(1)]
  have fresh: "nextElem c \<notin> fst ` set (evictList c)" using d(4) by fastforce
  have k: "k \<notin> (fst \<circ> snd) ` set (evictList c)" using LRU_item_None [OF assms(1), of k] assms(2) by simp
  have "((lru_items c)(k \<mapsto> nextElem c)) j = Some q \<longleftrightarrow>
      (\<exists>w. (q, j, w) \<in> set ((nextElem c, k, v) # evictList c))" for j q
  proof (cases "j = k")
    case True
    then show ?thesis using k by (auto simp: rev_image_eqI)
  next
    case False
    then show ?thesis using d(3) [of j q] by simp
  qed
  moreover have "\<forall>e\<in>set (evictList c). fst e < Suc (nextElem c)" using d(4) by fastforce
  ultimately show ?thesis
    using d(1,2) k fresh by (simp add: LRU_rep_def comp_def)
qed

lemma LRU_removeOldest_eq:
  "LRU_removeOldest c = (if evictList c = [] then c else LRU_removeElement c (last (evictList c)))"
  by (simp add: LRU_removeOldest_def list_Back_def)

text \<open>The list of uses after an element went to the front or left.\<close>

lemma recency_moved:
  assumes "LRU_rep c" "(p, k, u) \<in> set (evictList c)"
  shows "recency (c\<lparr>evictList := (p, k, v) # list_Remove p (evictList c)\<rparr>)
           = forget k (recency c) @ [(k, v)]"
proof -
  note d = LRU_repD [OF assms(1)]
  show ?thesis
    by (simp add: recency_def forget_def list_Remove_by_key [OF d(1) d(2) assms(2)]
        rev_filter filter_map comp_def)
qed

lemma map_of_recency:
  assumes "LRU_rep c"
  shows "map_of (recency c) = LRU_Peek c"
proof
  fix k
  have dist: "distinct (map fst (recency c))"
    using LRU_repD(2) [OF assms] by (simp add: recency_def rev_map [symmetric])
  have "map_of (recency c) k = Some v \<longleftrightarrow> LRU_Peek c k = Some v" for v
    using map_of_eq_Some_iff [OF dist, of k v] LRU_Peek_iff [OF assms, of k v]
    by (auto simp: recency_def image_iff Bex_def)
  then show "map_of (recency c) k = LRU_Peek c k"
    by (metis not_None_eq)
qed

lemma forget_absent: "k \<notin> fst ` set l \<Longrightarrow> forget k l = l"
  by (auto simp: forget_def filter_id_conv)

lemma recency_removeOldest:
  assumes "LRU_rep c"
  shows "recency (LRU_removeOldest c) = tl (recency c)"
proof (cases "evictList c" rule: rev_cases)
  case (snoc l e)
  obtain p k v where e: "e = (p, k, v)" by (cases e)
  have "distinct (map fst (l @ [e]))" using LRU_repD(1) [OF assms] snoc by simp
  then have "list_Remove p (l @ [e]) = l"
    by (auto simp: list_Remove_def e filter_id_conv)
  then show ?thesis by (simp add: LRU_removeOldest_eq LRU_removeElement_def snoc e recency_def)
qed (simp add: LRU_removeOldest_eq recency_def)

lemma LRU_removeOldest_rep: "LRU_rep c \<Longrightarrow> LRU_rep (LRU_removeOldest c)"
  using LRU_rep_removed [of c "fst (last (evictList c))"]
  by (auto simp: LRU_removeOldest_eq) (metis last_in_set prod.collapse)

lemma LRU_Get_Peek: "LRU_rep c \<Longrightarrow> fst (LRU_Get c k) = LRU_Peek c k"
proof (cases "lru_items c k")
  case (Some p)
  assume rep: "LRU_rep c"
  obtain v where "LRU_Peek c k = Some v" using LRU_item_Peek [OF rep Some] .
  then show ?thesis using Some rep by (simp add: LRU_Get_eq)
qed (simp add: LRU_Get_def LRU_Peek_def)

lemma recency_Get:
  assumes "LRU_rep c"
  shows "map_prod id recency (LRU_Get c k) = spec_Get (recency c) k"
proof (cases "lru_items c k")
  case None
  then have "map_of (recency c) k = None"
    by (simp add: map_of_recency [OF assms] LRU_Peek_def)
  then show ?thesis using None by (simp add: LRU_Get_def spec_Get_def)
next
  case (Some p)
  obtain v where v: "LRU_Peek c k = Some v" "(p, k, v) \<in> set (evictList c)"
    using LRU_item_Peek [OF assms Some] .
  show ?thesis
    using Some v recency_moved [OF assms v(2), of v]
    by (simp add: LRU_Get_eq [OF assms] spec_Get_def map_of_recency [OF assms])
qed

lemma length_recency: "int (length (recency c)) = LRU_Len c"
  by (simp add: recency_def LRU_Len_def)

lemma keys_recency: "fst ` set (recency c) = (fst \<circ> snd) ` set (evictList c)"
  by (simp add: recency_def image_image comp_def)

lemma recency_Add:
  assumes "LRU_rep c"
  shows "map_prod id recency (LRU_Add c k v) = spec_Add (lru_size c) (recency c) k v"
proof (cases "lru_items c k")
  case (Some p)
  obtain u where u: "(p, k, u) \<in> set (evictList c)"
    using LRU_item_Peek [OF assms Some] .
  have "k \<in> fst ` set (recency c)"
    using u by (force simp: keys_recency)
  then show ?thesis
    using LRU_Add_hit [OF assms u, of v] recency_moved [OF assms u, of v]
    by (simp add: spec_Add_def Let_def)
next
  case None
  have k: "k \<notin> fst ` set (recency c)"
    using None LRU_item_None [OF assms, of k] by (simp add: keys_recency)
  let ?c1 = "c\<lparr>evictList := (nextElem c, k, v) # evictList c,
      lru_items := (lru_items c)(k \<mapsto> nextElem c), nextElem := Suc (nextElem c)\<rparr>"
  have r1: "recency ?c1 = recency c @ [(k, v)]" by (simp add: recency_def)
  have r2: "recency (LRU_removeOldest ?c1) = tl (recency c @ [(k, v)])"
    using recency_removeOldest [OF LRU_rep_pushed [OF assms None]] r1 by simp
  show ?thesis
  proof (cases "LRU_Len c < lru_size c")
    case True
    then show ?thesis
      using LRU_Add_miss_room [OF None True, of v] r1 k forget_absent [OF k] length_recency [of c]
      by (simp add: spec_Add_def)
  next
    case False
    then show ?thesis
      using LRU_Add_miss_evict [OF None, of v] r2 k forget_absent [OF k] length_recency [of c]
      by (simp add: spec_Add_def Let_def)
  qed
qed

lemma recency_snd_Get:
  "LRU_rep c \<Longrightarrow> recency (snd (LRU_Get c k)) = snd (spec_Get (recency c) k)"
  using recency_Get [of c k] by (simp add: prod_eq_iff)

lemma recency_snd_Add:
  "LRU_rep c \<Longrightarrow> recency (snd (LRU_Add c k v)) = snd (spec_Add (lru_size c) (recency c) k v)"
  using recency_Add [of c k v] by (simp add: prod_eq_iff)

lemma LRU_Add_rep: "LRU_rep c \<Longrightarrow> LRU_rep (snd (LRU_Add c k v))"
proof (cases "lru_items c k")
  case (Some p)
  assume rep: "LRU_rep c"
  obtain u where "(p, k, u) \<in> set (evictList c)" using LRU_item_Peek [OF rep Some] .
  then show ?thesis using LRU_Add_hit [OF rep] LRU_rep_moved [OF rep] by simp
next
  case None
  assume rep: "LRU_rep c"
  show ?thesis
    using LRU_Add_miss_room [OF None, of v] LRU_Add_miss_evict [OF None, of v]
      LRU_rep_pushed [OF rep None, of v] LRU_removeOldest_rep [OF LRU_rep_pushed [OF rep None, of v]]
    by (cases "LRU_Len c < lru_size c") simp_all
qed

lemma lru_size_Get [simp]: "lru_size (snd (LRU_Get c k)) = lru_size c"
  by (simp add: LRU_Get_def Let_def split: option.split)

lemma lru_size_Add [simp]: "lru_size (snd (LRU_Add c k v)) = lru_size c"
  by (simp add: LRU_Add_def Let_def LRU_removeOldest_eq LRU_removeElement_def
      split: option.split prod.split)

lemma length_forget_le: "length (forget k l) \<le> length l"
  by (simp add: forget_def)

lemma length_forget_lt: "k \<in> fst ` set l \<Longrightarrow> length (forget k l) < length l"
  by (auto simp: forget_def intro!: length_filter_less)

lemma LRU_Get_inv:
  assumes "LRU_inv c"
  shows "LRU_inv (snd (LRU_Get c k))"
proof -
  have rep: "LRU_rep c" using assms by (simp add: LRU_inv_def)
  have "length (snd (spec_Get l j)) \<le> length l" for l :: "('a, 'b) recency" and j
    using length_forget_lt [of j l] map_of_eq_None_set [of l j]
    by (cases "map_of l j") (auto simp: spec_Get_def Suc_le_eq)
  then have "LRU_Len (snd (LRU_Get c k)) \<le> LRU_Len c"
    using length_recency [of c] length_recency [of "snd (LRU_Get c k)"]
    by (metis of_nat_le_iff recency_snd_Get [OF rep])
  then show ?thesis using assms LRU_Get_rep [OF rep, of k] by (simp add: LRU_inv_def)
qed

lemma LRU_Add_inv:
  assumes "LRU_inv c"
  shows "LRU_inv (snd (LRU_Add c k v))"
proof -
  have rep: "LRU_rep c" using assms by (simp add: LRU_inv_def)
  have "int (length (snd (spec_Add (lru_size c) (recency c) k v))) \<le> max 0 (lru_size c)"
    using assms length_recency [of c] length_forget_lt [of k "recency c"]
      length_forget_le [of k "recency c"]
    by (cases "k \<in> fst ` set (recency c)") (auto simp: spec_Add_def Let_def LRU_inv_def)
  then have "LRU_Len (snd (LRU_Add c k v)) \<le> max 0 (lru_size c)"
    using length_recency [of "snd (LRU_Add c k v)"] by (simp add: recency_snd_Add [OF rep])
  then show ?thesis using LRU_Add_rep [OF rep, of k v] by (simp add: LRU_inv_def)
qed

lemma LRU_inv_rep: "LRU_inv c \<Longrightarrow> LRU_rep c"
  by (simp add: LRU_inv_def)

lemma map_of_forget: "map_of (forget k l) = (map_of l)(k := None)"
  by (induction l) (auto simp: forget_def)

lemma map_of_spec_Get: "map_of (snd (spec_Get l k)) = map_of l"
  by (auto simp: spec_Get_def map_of_forget map_add_def split: option.split)

lemma LRU_Get_view:
  assumes "LRU_inv c"
  shows "LRU_Peek (snd (LRU_Get c k)) = LRU_Peek c"
proof -
  have rep: "LRU_rep c" using assms by (rule LRU_inv_rep)
  show ?thesis
    using map_of_recency [OF LRU_Get_rep [OF rep, of k]] map_of_recency [OF rep]
    by (simp add: recency_snd_Get [OF rep] map_of_spec_Get)
qed

lemma LRU_Peek_recency:
  assumes "LRU_rep c"
  shows "LRU_Peek c k = Some v \<longleftrightarrow> (k, v) \<in> set (recency c)"
  using LRU_Peek_iff [OF assms, of k v] by (force simp: recency_def)

lemma spec_Add_member:
  "e \<in> set (snd (spec_Add sz l k v)) \<Longrightarrow> e = (k, v) \<or> (fst e \<noteq> k \<and> e \<in> set l)"
proof -
  have "set (snd (spec_Add sz l k v)) \<subseteq> set (forget k l @ [(k, v)])"
    using set_tl_subset [of "forget k l @ [(k, v)]"] by (auto simp: spec_Add_def Let_def)
  then show "e \<in> set (snd (spec_Add sz l k v)) \<Longrightarrow> e = (k, v) \<or> (fst e \<noteq> k \<and> e \<in> set l)"
    by (auto simp: forget_def)
qed

lemma LRU_Add_view:
  assumes "LRU_inv c" "LRU_Peek (snd (LRU_Add c k v)) j = Some u"
  shows "if j = k then u = v else LRU_Peek c j = Some u"
proof -
  have rep: "LRU_rep c" using assms(1) by (rule LRU_inv_rep)
  have "(j, u) \<in> set (snd (spec_Add (lru_size c) (recency c) k v))"
    using assms(2) LRU_Peek_recency [OF LRU_Add_rep [OF rep, of k v], of j u]
    by (simp add: recency_snd_Add [OF rep])
  then show ?thesis
    using spec_Add_member [of "(j, u)"] LRU_Peek_recency [OF rep, of j u] by fastforce
qed

text \<open>No entry is lost while the cache has room.\<close>

lemma LRU_Add_room:
  assumes "LRU_inv c" "LRU_Peek c k \<noteq> None \<or> LRU_Len c < lru_size c"
  shows "LRU_Peek (snd (LRU_Add c k v)) = (LRU_Peek c)(k \<mapsto> v)"
proof -
  have rep: "LRU_rep c" using assms(1) by (rule LRU_inv_rep)
  have "snd (spec_Add (lru_size c) (recency c) k v) = forget k (recency c) @ [(k, v)]"
  proof (cases "LRU_Peek c k")
    case None
    then have "k \<notin> fst ` set (recency c)"
      using map_of_recency [OF rep] map_of_eq_None_set [of "recency c" k] by simp
    then show ?thesis
      using None assms(2) length_recency [of c] forget_absent [of k "recency c"]
      by (simp add: spec_Add_def Let_def)
  next
    case (Some u)
    then have "k \<in> fst ` set (recency c)"
      using LRU_Peek_recency [OF rep] by force
    then show ?thesis by (simp add: spec_Add_def Let_def)
  qed
  then have r: "recency (snd (LRU_Add c k v)) = forget k (recency c) @ [(k, v)]"
    by (simp add: recency_snd_Add [OF rep])
  have "LRU_Peek (snd (LRU_Add c k v)) j = Some u \<longleftrightarrow> ((LRU_Peek c)(k \<mapsto> v)) j = Some u" for j u
    using LRU_Peek_recency [OF LRU_Add_rep [OF rep, of k v], of j u] LRU_Peek_recency [OF rep, of j u]
    by (auto simp: r forget_def)
  then show ?thesis by (rule map_ext_Some)
qed

lemma LRU_Len_Add: "LRU_rep c \<Longrightarrow> LRU_Len (snd (LRU_Add c k v)) \<le> LRU_Len c + 1"
  using length_recency [of c] length_recency [of "snd (LRU_Add c k v)"]
    length_forget_le [of k "recency c"]
  by (simp add: recency_snd_Add spec_Add_def Let_def split: if_splits)

lemma dom_Peek: "LRU_rep c \<Longrightarrow> dom (LRU_Peek c) = set (LRU_Keys c)"
  using map_of_recency [of c] dom_map_of_conv_image_fst [of "recency c"]
  by (simp add: keys_recency LRU_Keys_def comp_def)

lemma LRU_Len_card: "LRU_rep c \<Longrightarrow> LRU_Len c = int (card (dom (LRU_Peek c)))"
  using LRU_repD(2) [of c] distinct_card [of "LRU_Keys c"]
  by (simp add: dom_Peek LRU_Keys_def LRU_Len_def rev_map [symmetric])

interpretation lru: cache LRU_Get LRU_Add LRU_Peek LRU_inv
proof
  fix c :: "('a, 'b) LRU" and k j v u
  show "LRU_inv c \<Longrightarrow> fst (LRU_Get c k) = LRU_Peek c k"
    by (rule LRU_Get_Peek [OF LRU_inv_rep])
  show "LRU_inv c \<Longrightarrow> LRU_Peek (snd (LRU_Get c k)) = LRU_Peek c" by (rule LRU_Get_view)
  show "LRU_inv c \<Longrightarrow> LRU_inv (snd (LRU_Get c k))" by (rule LRU_Get_inv)
  show "LRU_inv c \<Longrightarrow> LRU_inv (snd (LRU_Add c k v))" by (rule LRU_Add_inv)
  show "LRU_inv c \<Longrightarrow> LRU_Peek (snd (LRU_Add c k v)) j = Some u \<Longrightarrow>
      (if j = k then u = v else LRU_Peek c j = Some u)"
    by (rule LRU_Add_view)
qed

section \<open>Properties\<close>

text \<open>
  Claim C17.  The cache refines the list of its entries in order of use: a hit of \<^verbatim>\<open>Get\<close> moves
  the entry to the most recent end and returns its value, \<^verbatim>\<open>Add\<close> replaces or appends the entry
  and, exactly when the key is new and the cache full, drops the least recently used one and
  says so; both keep the representation invariant, so never more than \<^verbatim>\<open>size\<close> entries are held.
\<close>

theorem LRU_refines_recency:
  assumes "LRU_inv c"
  shows "map_prod id recency (LRU_Get c k) = spec_Get (recency c) k \<and>
    map_prod id recency (LRU_Add c k v) = spec_Add (lru_size c) (recency c) k v \<and>
    LRU_inv (snd (LRU_Get c k)) \<and> LRU_inv (snd (LRU_Add c k v))"
  using assms by (simp add: recency_Get recency_Add LRU_Get_inv LRU_Add_inv LRU_inv_rep)

theorem LRU_refines_recency_witness:
  "recency (snd (LRU_Add (snd (LRU_Get (snd (LRU_Add (snd (LRU_Add (NewLRU 2) (1::nat) ''a'')) 2 ''b'')) 1))
     3 ''c'')) = [(1, ''a''), (3, ''c'')]"
proof -
  define c where "c = snd (LRU_Add (snd (LRU_Add (NewLRU 2) (1::nat) ''a'')) 2 ''b'')"
  define d where "d = snd (LRU_Get c 1)"
  have "LRU_inv c" by (simp add: c_def LRU_Add_inv)
  moreover have "recency c = [(1, ''a''), (2, ''b'')]" "lru_size c = 2"
    by (simp_all add: c_def LRU_Add_def NewLRU_def recency_def)
  ultimately have d: "LRU_inv d" "recency d = [(2, ''b''), (1, ''a'')]" "lru_size d = 2"
    using LRU_refines_recency [of c 1] by (auto simp: d_def spec_Get_def forget_def prod_eq_iff)
  then have "recency (snd (LRU_Add d 3 ''c'')) = snd (spec_Add 2 [(2, ''b''), (1, ''a'')] 3 ''c'')"
    using LRU_refines_recency [of d 3 "''c''"] by (simp add: prod_eq_iff)
  then show ?thesis by (simp add: spec_Add_def forget_def c_def d_def)
qed

end
