(* ===== verification/CometGraph.thy ===== *)
theory CometGraph
  imports StoreIface Lru
begin

text \<open>
  The comet graph of \<^verbatim>\<open>src/core/sequentia/sequentia.go\<close>: its state, the ancestry relations and
  rounds with their memo caches, and the insertion of a comet with its checks, its coordinates
  and its wire form.  The store is the argument \<open>S\<close>, a table of the interface \<^verbatim>\<open>Store\<close>, and the
  cryptographic primitives are the argument \<open>cr\<close>.

  Two loops of the code follow data in the store and take fuel: the walk of
  \<^verbatim>\<open>UpdateAncestorFirstDescendant\<close> along self-parents, and the recursion of \<^verbatim>\<open>Round\<close> along
  parents.  Running out of fuel is the value None, as is a panic.  Maps and slices that the code
  shares between a comet or round in the store and a local variable are written back to the store
  by the code before anybody else reads them, so they are values here.
\<close>

section \<open>State\<close>

type_synonym key = "string \<times> string"

datatype ParentRoundInfo = ParentRoundInfo (pri_Round: int) (pri_IsRoot: bool)

definition NewBaseParentRoundInfo :: ParentRoundInfo where
  "NewBaseParentRoundInfo = ParentRoundInfo (-1) False"

text \<open>Blocks sent on \<^verbatim>\<open>commitCh\<close> are collected in sending order; a nil channel is None.\<close>

record 'st CometGraph =
  Participants :: "(string, int) gomap"
  ReverseParticipants :: "(int, string) gomap"
  cgStore :: 'st
  UndeterminedEvents :: "string list"
  UndecidedRounds :: "int list"
  LastConsensusRound :: "int option"
  LastBlockIndex :: int
  LastCommitedRoundEvents :: int
  ConsensusTransactions :: int
  PendingLoadedEvents :: int
  topologicalIndex :: int
  mostPlurality :: int
  commitCh :: "Block list option"
  ancestorCache :: "(key, bool) LRU"
  selfAncestorCache :: "(key, bool) LRU"
  oldestSelfAncestorCache :: "(key, string) LRU"
  stronglySeeCache :: "(key, bool) LRU"
  parentRoundCache :: "(string, ParentRoundInfo) LRU"
  cg_roundCache :: "(string, int) LRU"

text \<open>Errors of the graph: a store error passed on, or a message built by \<^verbatim>\<open>fmt.Errorf\<close>.\<close>

datatype error = SErr StoreErr | Errorf string

fun error_text :: "error \<Rightarrow> string" where
  "error_text (SErr e) = StoreErr_Error e"
| "error_text (Errorf m) = m"

definition MaxInt32 :: int where
  "MaxInt32 = 2147483647"

definition fresh_graph :: "'st Store \<Rightarrow> (string, int) gomap \<Rightarrow> 'st \<Rightarrow> bool \<Rightarrow> 'st CometGraph" where
  "fresh_graph S ps st ch =
     (let sz = st_CacheSize S st
      in \<lparr>Participants = ps,
          ReverseParticipants = fold (\<lambda>(pk, pid). AList.update pid pk) ps [],
          cgStore = st, UndeterminedEvents = [], UndecidedRounds = [0], LastConsensusRound = None,
          LastBlockIndex = -1, LastCommitedRoundEvents = 0, ConsensusTransactions = 0,
          PendingLoadedEvents = 0, topologicalIndex = 0,
          mostPlurality = 2 * int (length ps) div 3 + 1,
          commitCh = (if ch then Some [] else None),
          ancestorCache = NewLRU sz, selfAncestorCache = NewLRU sz,
          oldestSelfAncestorCache = NewLRU sz, stronglySeeCache = NewLRU sz,
          parentRoundCache = NewLRU sz, cg_roundCache = NewLRU sz\<rparr>)"

text \<open>
  \<^verbatim>\<open>BuildCometGraph\<close> with the process-wide \<^verbatim>\<open>Instance\<close> as its state: the first call stores the graph
  itself, a later call asserts the stored value to be a pointer to a graph, which it is not.
\<close>

definition BuildCometGraph ::
    "'st Store \<Rightarrow> (string, int) gomap \<Rightarrow> 'st \<Rightarrow> bool \<Rightarrow> ('st CometGraph option, 'st CometGraph) op" where
  "BuildCometGraph S ps st ch inst = (case inst of
     Some stored \<Rightarrow> None
   | None \<Rightarrow> (let g = fresh_graph S ps st ch in Some (g, Some g)))"

section \<open>Store calls\<close>

definition sGetComet :: "'st Store \<Rightarrow> string \<Rightarrow> ('st CometGraph, (StoreErr, Comet) result) op" where
  "sGetComet S x g = (let (r, st) = st_GetComet S x (cgStore g) in Some (r, g\<lparr>cgStore := st\<rparr>))"

definition sSetComet :: "'st Store \<Rightarrow> Comet \<Rightarrow> ('st CometGraph, StoreErr option) op" where
  "sSetComet S c g = (let (e, st) = st_SetComet S c (cgStore g) in Some (e, g\<lparr>cgStore := st\<rparr>))"

definition sRoundWitnesses :: "'st Store \<Rightarrow> int \<Rightarrow> ('st CometGraph, string list) op" where
  "sRoundWitnesses S r g =
     (let (ws, st) = st_RoundWitnesses S r (cgStore g) in Some (ws, g\<lparr>cgStore := st\<rparr>))"

text \<open>Collecting the elements that pass a test which may use the caches.\<close>

fun filterM :: "('a \<Rightarrow> ('s, bool) op) \<Rightarrow> 'a list \<Rightarrow> ('s, 'a list) op" where
  "filterM p [] s = Some ([], s)"
| "filterM p (x # xs) s = do {
     (b, s) \<leftarrow> p x s;
     (ys, s) \<leftarrow> filterM p xs s;
     Some (if b then x # ys else ys, s)
   }"

section \<open>Ancestry\<close>

definition ancestor :: "'st Store \<Rightarrow> string \<Rightarrow> string \<Rightarrow> ('st CometGraph, bool) op" where
  "ancestor S x y g =
     (if x = y then Some (True, g)
      else do {
        (rx, g) \<leftarrow> sGetComet S x g;
        (case rx of Inl _ \<Rightarrow> Some (False, g) | Inr ex \<Rightarrow> do {
          (ry, g) \<leftarrow> sGetComet S y g;
          (case ry of Inl _ \<Rightarrow> Some (False, g) | Inr ey \<Rightarrow> do {
            la \<leftarrow> slice_at (LastAncestors ex) (lookup0 (Participants g) (Comet_Creator ey));
            Some (ec_Index la \<ge> Comet_Index ey, g)
          })
        })
      })"

definition AncestorOf :: "'st Store \<Rightarrow> string \<Rightarrow> string \<Rightarrow> ('st CometGraph, bool) op" where
  "AncestorOf S cx cy g =
     (let (hit, c) = LRU_Get (ancestorCache g) (cx, cy); g = g\<lparr>ancestorCache := c\<rparr>
      in case hit of
           Some b \<Rightarrow> Some (b, g)
         | None \<Rightarrow> do {
             (a, g) \<leftarrow> ancestor S cx cy g;
             Some (a, g\<lparr>ancestorCache := snd (LRU_Add (ancestorCache g) (cx, cy) a)\<rparr>)
           })"

definition selfAncestor :: "'st Store \<Rightarrow> string \<Rightarrow> string \<Rightarrow> ('st CometGraph, bool) op" where
  "selfAncestor S x y g =
     (if x = y then Some (True, g)
      else do {
        (rx, g) \<leftarrow> sGetComet S x g;
        (case rx of Inl _ \<Rightarrow> Some (False, g) | Inr ex \<Rightarrow> do {
          (ry, g) \<leftarrow> sGetComet S y g;
          (case ry of Inl _ \<Rightarrow> Some (False, g) | Inr ey \<Rightarrow>
             Some (lookup0 (Participants g) (Comet_Creator ex) = lookup0 (Participants g) (Comet_Creator ey)
                   \<and> Comet_Index ex \<ge> Comet_Index ey, g))
        })
      })"

definition SelfAncestor :: "'st Store \<Rightarrow> string \<Rightarrow> string \<Rightarrow> ('st CometGraph, bool) op" where
  "SelfAncestor S x y g =
     (let (hit, c) = LRU_Get (selfAncestorCache g) (x, y); g = g\<lparr>selfAncestorCache := c\<rparr>
      in case hit of
           Some b \<Rightarrow> Some (b, g)
         | None \<Rightarrow> do {
             (a, g) \<leftarrow> selfAncestor S x y g;
             Some (a, g\<lparr>selfAncestorCache := snd (LRU_Add (selfAncestorCache g) (x, y) a)\<rparr>)
           })"

definition See :: "'st Store \<Rightarrow> string \<Rightarrow> string \<Rightarrow> ('st CometGraph, bool) op" where
  "See S x y g = AncestorOf S x y g"

definition oldestSelfAncestorToSee :: "'st Store \<Rightarrow> string \<Rightarrow> string \<Rightarrow> ('st CometGraph, string) op" where
  "oldestSelfAncestorToSee S x y g = do {
     (rx, g) \<leftarrow> sGetComet S x g;
     (case rx of Inl _ \<Rightarrow> Some ([], g) | Inr ex \<Rightarrow> do {
       (ry, g) \<leftarrow> sGetComet S y g;
       (case ry of Inl _ \<Rightarrow> Some ([], g) | Inr ey \<Rightarrow> do {
         a \<leftarrow> slice_at (FirstDescendants ey) (lookup0 (Participants g) (Comet_Creator ex));
         Some (if ec_Index a \<le> Comet_Index ex then ec_Hash a else [], g)
       })
     })
   }"

definition OldestSelfAncestorToSee :: "'st Store \<Rightarrow> string \<Rightarrow> string \<Rightarrow> ('st CometGraph, string) op" where
  "OldestSelfAncestorToSee S x y g =
     (let (hit, c) = LRU_Get (oldestSelfAncestorCache g) (x, y); g = g\<lparr>oldestSelfAncestorCache := c\<rparr>
      in case hit of
           Some b \<Rightarrow> Some (b, g)
         | None \<Rightarrow> do {
             (res, g) \<leftarrow> oldestSelfAncestorToSee S x y g;
             Some (res, g\<lparr>oldestSelfAncestorCache := snd (LRU_Add (oldestSelfAncestorCache g) (x, y) res)\<rparr>)
           })"

text \<open>The counting loop of \<^verbatim>\<open>stronglySee\<close>; a shorter list of first descendants is an index panic.\<close>

fun count_seen :: "EventCoordinates list \<Rightarrow> EventCoordinates list \<Rightarrow> int option" where
  "count_seen [] fds = Some 0"
| "count_seen (la # las) [] = None"
| "count_seen (la # las) (fd # fds) = do {
     c \<leftarrow> count_seen las fds;
     Some (if ec_Index la \<ge> ec_Index fd then c + 1 else c)
   }"

definition stronglySee :: "'st Store \<Rightarrow> string \<Rightarrow> string \<Rightarrow> ('st CometGraph, bool) op" where
  "stronglySee S x y g = do {
     (rx, g) \<leftarrow> sGetComet S x g;
     (case rx of Inl _ \<Rightarrow> Some (False, g) | Inr ex \<Rightarrow> do {
       (ry, g) \<leftarrow> sGetComet S y g;
       (case ry of Inl _ \<Rightarrow> Some (False, g) | Inr ey \<Rightarrow> do {
         c \<leftarrow> count_seen (LastAncestors ex) (FirstDescendants ey);
         Some (c \<ge> mostPlurality g, g)
       })
     })
   }"

definition StronglySee :: "'st Store \<Rightarrow> string \<Rightarrow> string \<Rightarrow> ('st CometGraph, bool) op" where
  "StronglySee S x y g =
     (let (hit, c) = LRU_Get (stronglySeeCache g) (x, y); g = g\<lparr>stronglySeeCache := c\<rparr>
      in case hit of
           Some b \<Rightarrow> Some (b, g)
         | None \<Rightarrow> do {
             (ss, g) \<leftarrow> stronglySee S x y g;
             Some (ss, g\<lparr>stronglySeeCache := snd (LRU_Add (stronglySeeCache g) (x, y) ss)\<rparr>)
           })"

section \<open>Rounds\<close>

text \<open>
  \<^verbatim>\<open>Round\<close>, \<^verbatim>\<open>ParentRound\<close> and \<^verbatim>\<open>RoundInc\<close> call each other.  The functions with the suffix
  \<open>_with\<close> are their bodies with the recursive call of \<^verbatim>\<open>Round\<close> as the argument \<open>rnd\<close>; \<open>Round\<close> ties
  the knot with one unit of fuel per level of parents.
\<close>

definition parentRound_with ::
    "(string \<Rightarrow> ('st CometGraph, int) op) \<Rightarrow> 'st Store \<Rightarrow> string \<Rightarrow> ('st CometGraph, ParentRoundInfo) op" where
  "parentRound_with rnd S x g = do {
     (rx, g) \<leftarrow> sGetComet S x g;
     (case rx of Inl _ \<Rightarrow> Some (NewBaseParentRoundInfo, g) | Inr ex \<Rightarrow>
       (case st_GetRoot S (Comet_Creator ex) (cgStore g) of
          Inl _ \<Rightarrow> Some (NewBaseParentRoundInfo, g)
        | Inr root \<Rightarrow> do {
            ((spRound, spRoot), g) \<leftarrow>
              (if Comet_SelfParent ex = root_X root then Some ((root_Round root, True), g)
               else do { (r, g) \<leftarrow> rnd (Comet_SelfParent ex) g; Some ((r, False), g) });
            (ro, g) \<leftarrow> sGetComet S (Comet_OtherParent ex) g;
            ((opRound, opRoot), g) \<leftarrow>
              (case ro of
                 Inr _ \<Rightarrow> do { (r, g) \<leftarrow> rnd (Comet_OtherParent ex) g; Some ((r, False), g) }
               | Inl _ \<Rightarrow>
                   if Comet_OtherParent ex = root_Y root then Some ((root_Round root, True), g)
                   else if map_of (Others root) x = Some (Comet_OtherParent ex)
                   then Some ((root_Round root, False), g)
                   else Some ((-1, False), g));
            Some (if spRound < opRound then ParentRoundInfo opRound opRoot
                  else ParentRoundInfo spRound spRoot, g)
          }))
   }"

definition ParentRound_with ::
    "(string \<Rightarrow> ('st CometGraph, int) op) \<Rightarrow> 'st Store \<Rightarrow> string \<Rightarrow> ('st CometGraph, ParentRoundInfo) op" where
  "ParentRound_with rnd S x g =
     (let (hit, c) = LRU_Get (parentRoundCache g) x; g = g\<lparr>parentRoundCache := c\<rparr>
      in case hit of
           Some b \<Rightarrow> Some (b, g)
         | None \<Rightarrow> do {
             (pr, g) \<leftarrow> parentRound_with rnd S x g;
             Some (pr, g\<lparr>parentRoundCache := snd (LRU_Add (parentRoundCache g) x pr)\<rparr>)
           })"

definition RoundInc_with ::
    "(string \<Rightarrow> ('st CometGraph, int) op) \<Rightarrow> 'st Store \<Rightarrow> string \<Rightarrow> ('st CometGraph, bool) op" where
  "RoundInc_with rnd S x g = do {
     (pr, g) \<leftarrow> ParentRound_with rnd S x g;
     if pri_IsRoot pr then Some (True, g)
     else do {
       (ws, g) \<leftarrow> sRoundWitnesses S (pri_Round pr) g;
       (seen, g) \<leftarrow> filterM (\<lambda>w. StronglySee S x w) ws g;
       Some (int (length seen) \<ge> mostPlurality g, g)
     }
   }"

definition round_with ::
    "(string \<Rightarrow> ('st CometGraph, int) op) \<Rightarrow> 'st Store \<Rightarrow> string \<Rightarrow> ('st CometGraph, int) op" where
  "round_with rnd S x g = do {
     (pr, g) \<leftarrow> ParentRound_with rnd S x g;
     (inc, g) \<leftarrow> RoundInc_with rnd S x g;
     Some (if inc then pri_Round pr + 1 else pri_Round pr, g)
   }"

fun Round :: "'st Store \<Rightarrow> nat \<Rightarrow> string \<Rightarrow> ('st CometGraph, int) op" where
  "Round S 0 x g = None"
| "Round S (Suc n) x g =
     (let (hit, c) = LRU_Get (cg_roundCache g) x; g = g\<lparr>cg_roundCache := c\<rparr>
      in case hit of
           Some b \<Rightarrow> Some (b, g)
         | None \<Rightarrow> do {
             (r, g) \<leftarrow> round_with (Round S n) S x g;
             Some (r, g\<lparr>cg_roundCache := snd (LRU_Add (cg_roundCache g) x r)\<rparr>)
           })"

definition ParentRound :: "'st Store \<Rightarrow> nat \<Rightarrow> string \<Rightarrow> ('st CometGraph, ParentRoundInfo) op" where
  "ParentRound S n = ParentRound_with (Round S n) S"

definition RoundInc :: "'st Store \<Rightarrow> nat \<Rightarrow> string \<Rightarrow> ('st CometGraph, bool) op" where
  "RoundInc S n = RoundInc_with (Round S n) S"

definition Witness :: "'st Store \<Rightarrow> nat \<Rightarrow> string \<Rightarrow> ('st CometGraph, bool) op" where
  "Witness S n x g = do {
     (rx, g) \<leftarrow> sGetComet S x g;
     (case rx of Inl _ \<Rightarrow> Some (False, g) | Inr ex \<Rightarrow>
       (case st_GetRoot S (Comet_Creator ex) (cgStore g) of
          Inl _ \<Rightarrow> Some (False, g)
        | Inr root \<Rightarrow>
            if Comet_SelfParent ex = root_X root \<and> Comet_OtherParent ex = root_Y root
            then Some (True, g)
            else do {
              (a, g) \<leftarrow> Round S n x g;
              (b, g) \<leftarrow> Round S n (Comet_SelfParent ex) g;
              Some (a > b, g)
            }))
   }"

definition cg_RoundReceived :: "'st Store \<Rightarrow> string \<Rightarrow> ('st CometGraph, int) op" where
  "cg_RoundReceived S x g = do {
     (rx, g) \<leftarrow> sGetComet S x g;
     (case rx of Inl _ \<Rightarrow> Some (-1, g)
      | Inr ex \<Rightarrow> Some (case RoundReceived ex of None \<Rightarrow> -1 | Some r \<Rightarrow> r, g))
   }"

definition MinInt32 :: int where
  "MinInt32 = -2147483648"

definition RoundDiff :: "'st Store \<Rightarrow> nat \<Rightarrow> string \<Rightarrow> string \<Rightarrow> ('st CometGraph, int \<times> error option) op" where
  "RoundDiff S n x y g = do {
     (xRound, g) \<leftarrow> Round S n x g;
     if xRound < 0 then Some ((MinInt32, Some (Errorf (''event '' @ x @ '' has negative round''))), g)
     else do {
       (yRound, g) \<leftarrow> Round S n y g;
       if yRound < 0 then Some ((MinInt32, Some (Errorf (''event '' @ y @ '' has negative round''))), g)
       else Some ((xRound - yRound, None), g)
     }
   }"

section \<open>Inserting comets\<close>

text \<open>A comet with fewer than two parents makes \<^verbatim>\<open>SelfParent\<close> or \<^verbatim>\<open>OtherParent\<close> panic here.\<close>

definition CheckSelfParent :: "'st Store \<Rightarrow> Comet \<Rightarrow> ('st CometGraph, (error, unit) result) op" where
  "CheckSelfParent S comet g =
     (if Parents (Body comet) = [] then None
      else let (creatorLastKnown, isRoot, err) = st_LastEventFrom S (Comet_Creator comet) (cgStore g)
           in case err of
                Some e \<Rightarrow> Some (Inl (SErr e), g)
              | None \<Rightarrow>
                  if Comet_SelfParent comet = creatorLastKnown then Some (Inr (), g)
                  else Some (Inl (Errorf ''Self-parent not last known event by creator''), g))"

definition CheckOtherParent :: "crypto \<Rightarrow> 'st Store \<Rightarrow> Comet \<Rightarrow> ('st CometGraph, (error, unit) result) op" where
  "CheckOtherParent cr S comet g =
     (if length (Parents (Body comet)) < 2 then None
      else let otherParent = Comet_OtherParent comet
           in if otherParent = [] then Some (Inr (), g)
              else do {
                (r, g) \<leftarrow> sGetComet S otherParent g;
                (case r of Inr _ \<Rightarrow> Some (Inr (), g)
                 | Inl _ \<Rightarrow>
                     (case st_GetRoot S (Comet_Creator comet) (cgStore g) of
                        Inl e \<Rightarrow> Some (Inl (SErr e), g)
                      | Inr root \<Rightarrow>
                          if root_X root = Comet_SelfParent comet \<and> root_Y root = otherParent
                          then Some (Inr (), g)
                          else if map_of (Others root) (Comet_Hex cr comet) = Some otherParent
                          then Some (Inr (), g)
                          else Some (Inl (Errorf ''Other-parent not known''), g)))
              })"

text \<open>\<^verbatim>\<open>copy\<close> into a new slice of \<open>n\<close> zero coordinates.\<close>

definition copy_coords :: "nat \<Rightarrow> EventCoordinates list \<Rightarrow> EventCoordinates list" where
  "copy_coords n src = take n src @ replicate (n - length src) \<lparr>ec_Hash = [], ec_Index = 0\<rparr>"

fun max_coords :: "EventCoordinates list \<Rightarrow> EventCoordinates list \<Rightarrow> EventCoordinates list option" where
  "max_coords [] others = Some []"
| "max_coords (la # las) [] = None"
| "max_coords (la # las) (oa # oas) = do {
     rest \<leftarrow> max_coords las oas;
     Some ((if ec_Index la < ec_Index oa then la\<lparr>ec_Index := ec_Index oa, ec_Hash := ec_Hash oa\<rparr> else la) # rest)
   }"

definition InitEventCoordinates ::
    "crypto \<Rightarrow> 'st Store \<Rightarrow> Comet \<Rightarrow> ('st CometGraph, (error, Comet) result) op" where
  "InitEventCoordinates cr S comet g = do {
     let members = length (Participants g);
     let fd = replicate members \<lparr>ec_Hash = [], ec_Index = MaxInt32\<rparr>;
     (selfParent, g) \<leftarrow> sGetComet S (Comet_SelfParent comet) g;
     (otherParent, g) \<leftarrow> sGetComet S (Comet_OtherParent comet) g;
     la \<leftarrow> (case (selfParent, otherParent) of
         (Inl _, Inl _) \<Rightarrow> Some (replicate members \<lparr>ec_Hash = [], ec_Index = -1\<rparr>)
       | (Inl _, Inr op) \<Rightarrow> Some (copy_coords members (LastAncestors op))
       | (Inr sp, Inl _) \<Rightarrow> Some (copy_coords members (LastAncestors sp))
       | (Inr sp, Inr op) \<Rightarrow> max_coords (copy_coords members (LastAncestors sp)) (LastAncestors op));
     (case map_of (Participants g) (Comet_Creator comet) of
        None \<Rightarrow> Some (Inl (Errorf (''Could not find creator id ('' @ Comet_Creator comet @ '')'')), g)
      | Some cid \<Rightarrow>
          if 0 \<le> cid \<and> cid < int members then
            (let coord = \<lparr>ec_Hash = Comet_Hex cr comet, ec_Index = Comet_Index comet\<rparr>
             in Some (Inr (comet\<lparr>FirstDescendants := fd[nat cid := coord],
                                  LastAncestors := la[nat cid := coord]\<rparr>), g))
          else None)
   }"

text \<open>The inner loop of \<^verbatim>\<open>UpdateAncestorFirstDescendant\<close>, from the ancestor \<open>ah\<close> down its self-parents.\<close>

fun update_walk ::
    "'st Store \<Rightarrow> nat \<Rightarrow> int \<Rightarrow> EventCoordinates \<Rightarrow> string \<Rightarrow> ('st CometGraph, (error, unit) result) op" where
  "update_walk S 0 cid coord ah g = None"
| "update_walk S (Suc n) cid coord ah g =
     (if ah = [] then Some (Inr (), g)
      else do {
        (r, g) \<leftarrow> sGetComet S ah g;
        (case r of Inl _ \<Rightarrow> Some (Inr (), g)
         | Inr a \<Rightarrow> do {
             fd \<leftarrow> slice_at (FirstDescendants a) cid;
             if ec_Index fd = MaxInt32 then do {
               (e, g) \<leftarrow> sSetComet S (a\<lparr>FirstDescendants := (FirstDescendants a)[nat cid := coord]\<rparr>) g;
               (case e of Some err \<Rightarrow> Some (Inl (SErr err), g)
                | None \<Rightarrow> update_walk S n cid coord (Comet_SelfParent a) g)
             } else Some (Inr (), g)
           })
      })"

definition UpdateAncestorFirstDescendant ::
    "crypto \<Rightarrow> 'st Store \<Rightarrow> nat \<Rightarrow> Comet \<Rightarrow> ('st CometGraph, (error, unit) result) op" where
  "UpdateAncestorFirstDescendant cr S fuel comet g =
     (case map_of (Participants g) (Comet_Creator comet) of
        None \<Rightarrow> Some (Inl (Errorf (''Could not find creator id ('' @ Comet_Creator comet @ '')'')), g)
      | Some cid \<Rightarrow>
          let coord = \<lparr>ec_Hash = Comet_Hex cr comet, ec_Index = Comet_Index comet\<rparr>
          in forE (LastAncestors comet) (\<lambda>la. update_walk S fuel cid coord (ec_Hash la)) g)"

definition SetWireInfo :: "'st Store \<Rightarrow> Comet \<Rightarrow> ('st CometGraph, (error, Comet) result) op" where
  "SetWireInfo S comet g = do {
     let (lf, isRoot, err) = st_LastEventFrom S (Comet_Creator comet) (cgStore g);
     (rsp, g) \<leftarrow>
       (if isRoot \<and> lf = Comet_SelfParent comet then
          Some (case st_GetRoot S (Comet_Creator comet) (cgStore g) of
                  Inl e \<Rightarrow> Inl e | Inr root \<Rightarrow> Inr (root_Index root), g)
        else do {
          (r, g) \<leftarrow> sGetComet S (Comet_SelfParent comet) g;
          Some (case r of Inl e \<Rightarrow> Inl e | Inr sp \<Rightarrow> Inr (Comet_Index sp), g)
        });
     (case rsp of
        Inl e \<Rightarrow> Some (Inl (SErr e), g)
      | Inr spIndex \<Rightarrow> do {
          (rop, g) \<leftarrow>
            (if Comet_OtherParent comet \<noteq> [] then do {
               (r, g) \<leftarrow> sGetComet S (Comet_OtherParent comet) g;
               Some (case r of Inl e \<Rightarrow> Inl e
                     | Inr op \<Rightarrow> Inr (lookup0 (Participants g) (Comet_Creator op), Comet_Index op), g)
             } else Some (Inr (-1, -1), g));
          (case rop of
             Inl e \<Rightarrow> Some (Inl (SErr e), g)
           | Inr (opCreatorID, opIndex) \<Rightarrow>
               Some (Inr (Comet_SetWireInfo comet spIndex opCreatorID opIndex
                       (lookup0 (Participants g) (Comet_Creator comet))), g))
        })
   }"

text \<open>Recording a block signature skips, with a warning in the log, whatever is wrong with it.\<close>

definition recordBlockSignature :: "crypto \<Rightarrow> 'st Store \<Rightarrow> BlockSignature \<Rightarrow> ('st CometGraph, unit) op" where
  "recordBlockSignature cr S bs g =
     (if map_of (Participants g) (Sprintf_0xX (Validator bs)) = None then Some ((), g)
      else
        let (rb, st) = st_GetBlock S (bs_Index bs) (cgStore g); g = g\<lparr>cgStore := st\<rparr>
        in case rb of
             Inl _ \<Rightarrow> Some ((), g)
           | Inr block \<Rightarrow> do {
               valid \<leftarrow> Block_Verify cr block bs;
               (case valid of
                  Inl _ \<Rightarrow> Some ((), g)
                | Inr False \<Rightarrow> Some ((), g)
                | Inr True \<Rightarrow>
                    let (e, st) = st_SetBlock S (Block_SetSignature block bs) (cgStore g)
                    in Some ((), g\<lparr>cgStore := st\<rparr>))
             })"

fun recordBlockSignatures :: "crypto \<Rightarrow> 'st Store \<Rightarrow> BlockSignature list \<Rightarrow> ('st CometGraph, unit) op" where
  "recordBlockSignatures cr S [] g = Some ((), g)"
| "recordBlockSignatures cr S (bs # bss) g = do {
     (_, g) \<leftarrow> recordBlockSignature cr S bs g;
     recordBlockSignatures cr S bss g
   }"

text \<open>The steps of \<^verbatim>\<open>InsertComet\<close> after the checks, from the assignment of the topological index on.\<close>

definition store_comet ::
    "crypto \<Rightarrow> 'st Store \<Rightarrow> nat \<Rightarrow> Comet \<Rightarrow> ('st CometGraph, (error, unit) result) op" where
  "store_comet cr S fuel comet g = do {
     (r, g) \<leftarrow> InitEventCoordinates cr S comet g;
     (case r of Inl e \<Rightarrow> Some (Inl (Errorf (''InitEventCoordinates: '' @ error_text e)), g)
      | Inr comet \<Rightarrow> do {
          (e, g) \<leftarrow> sSetComet S comet g;
          (case e of Some err \<Rightarrow> Some (Inl (Errorf (''SetEvent: '' @ StoreErr_Error err)), g)
           | None \<Rightarrow> do {
               (r, g) \<leftarrow> UpdateAncestorFirstDescendant cr S fuel comet g;
               (case r of
                  Inl e \<Rightarrow> Some (Inl (Errorf (''UpdateAncestorFirstDescendant: '' @ error_text e)), g)
                | Inr _ \<Rightarrow> do {
                    let g = g\<lparr>UndeterminedEvents := UndeterminedEvents g @ [Comet_Hex cr comet],
                               PendingLoadedEvents := (if Comet_IsLoaded comet
                                 then PendingLoadedEvents g + 1 else PendingLoadedEvents g)\<rparr>;
                    (_, g) \<leftarrow> recordBlockSignatures cr S (Comet_BlockSignatures comet) g;
                    Some (Inr (), g)
                  })
             })
        })
   }"

definition InsertComet ::
    "crypto \<Rightarrow> 'st Store \<Rightarrow> nat \<Rightarrow> Comet \<Rightarrow> bool \<Rightarrow> ('st CometGraph, (error, unit) result) op" where
  "InsertComet cr S fuel comet setWireInfo g = do {
     v \<leftarrow> Comet_Verify cr comet;
     (case v of
        Inl err \<Rightarrow> Some (Inl (Errorf err), g)
      | Inr False \<Rightarrow> Some (Inl (Errorf ''Invalid Event signature''), g)
      | Inr True \<Rightarrow> do {
          (r, g) \<leftarrow> CheckSelfParent S comet g;
          (case r of Inl e \<Rightarrow> Some (Inl (Errorf (''CheckSelfParent: '' @ error_text e)), g)
           | Inr _ \<Rightarrow> do {
               (r, g) \<leftarrow> CheckOtherParent cr S comet g;
               (case r of Inl e \<Rightarrow> Some (Inl (Errorf (''CheckOtherParent: '' @ error_text e)), g)
                | Inr _ \<Rightarrow> do {
                    let comet = comet\<lparr>TopologicalIndex := topologicalIndex g\<rparr>;
                    let g = g\<lparr>topologicalIndex := topologicalIndex g + 1\<rparr>;
                    if setWireInfo then do {
                      (r, g) \<leftarrow> SetWireInfo S comet g;
                      (case r of Inl e \<Rightarrow> Some (Inl (Errorf (''SetWireInfo: '' @ error_text e)), g)
                       | Inr comet \<Rightarrow> store_comet cr S fuel comet g)
                    } else store_comet cr S fuel comet g
                  })
             })
        })
   }"

text \<open>
  The inverse of \<^verbatim>\<open>ToWire\<close>.  An unknown creator id reads as the empty string, whose slice from 2
  panics; an unknown other-parent creator reads as the empty string and fails the lookup.
\<close>

definition ReadWireInfo :: "'st Store \<Rightarrow> WireEvent \<Rightarrow> 'st CometGraph \<Rightarrow> (error, Comet) result option" where
  "ReadWireInfo S wevent g = do {
     let wb = w_Body wevent;
     let creator = (case map_of (ReverseParticipants g) (w_CreatorID wb) of None \<Rightarrow> [] | Some c \<Rightarrow> c);
     (if length creator < 2 then None
      else
        let (creatorBytes, okHex) = hex_DecodeString (drop 2 creator)
        in if \<not> okHex then Some (Inl (Errorf ''encoding/hex''))
           else do {
             sp \<leftarrow> (if w_SelfParentIndex wb \<ge> 0
                    then st_ParticipantEvent S creator (w_SelfParentIndex wb) (cgStore g)
                    else Some (Inr []));
             (case sp of Inl e \<Rightarrow> Some (Inl (SErr e)) | Inr selfParent \<Rightarrow> do {
               op \<leftarrow> (if w_OtherParentIndex wb \<ge> 0
                      then st_ParticipantEvent S
                             (case map_of (ReverseParticipants g) (w_OtherParentCreatorID wb) of
                                None \<Rightarrow> [] | Some c \<Rightarrow> c)
                             (w_OtherParentIndex wb) (cgStore g)
                      else Some (Inr []));
               (case op of Inl e \<Rightarrow> Some (Inl (SErr e)) | Inr otherParent \<Rightarrow>
                 Some (Inr \<lparr>Body = \<lparr>cb_Transactions = w_Transactions wb,
                                    Parents = [selfParent, otherParent],
                                    cb_Creator = creatorBytes,
                                    Timestamp = w_Timestamp wb,
                                    cb_Index = w_Index wb,
                                    cb_BlockSignatures = WireEvent_BlockSignatures wevent creatorBytes,
                                    selfParentIndex = w_SelfParentIndex wb,
                                    otherParentCreatorID = w_OtherParentCreatorID wb,
                                    otherParentIndex = w_OtherParentIndex wb,
                                    creatorID = w_CreatorID wb\<rparr>,
                             cSignature = w_Signature wevent,
                             TopologicalIndex = 0, RoundReceived = None, ConsensusTimestamp = 0,
                             LastAncestors = [], FirstDescendants = []\<rparr>))
             })
           })
   }"

end
