(* ===== verification/GraphSpec.thy ===== *)
theory GraphSpec
  imports CometGraph
begin

text \<open>
  What the coordinates of a comet mean.  The comets of a store form a directed graph along their
  parents; \<open>anc C x y\<close> is reachability in it.  The comets of one creator form a chain of
  self-parents.  \<open>la_spec\<close> says that a last-ancestor entry names the highest comet of a chain that is
  an ancestor, and \<open>fd_spec\<close> that a first-descendant entry names the lowest comet of a chain that
  is a descendant, or none.  The lemmas show that a graph with correct coordinates stays one when a
  comet is added with the coordinates the code gives it.
\<close>

section \<open>Ancestry as reachability\<close>

type_synonym comets = "string \<rightharpoonup> Comet"
type_synonym chains = "string \<Rightarrow> string list"

definition par :: "comets \<Rightarrow> (string \<times> string) set" where
  "par C = {(x, y). y \<in> dom C \<and>
     (\<exists>c. C x = Some c \<and> (y = Comet_SelfParent c \<or> y = Comet_OtherParent c))}"

definition anc :: "comets \<Rightarrow> string \<Rightarrow> string \<Rightarrow> bool" where
  "anc C x y \<longleftrightarrow> x \<in> dom C \<and> (x, y) \<in> (par C)\<^sup>*"

text \<open>Participants have distinct ids below their number.\<close>

definition members_ok :: "(string, int) gomap \<Rightarrow> bool" where
  "members_ok ps \<longleftrightarrow> distinct (map fst ps) \<and> distinct (map snd ps) \<and>
     (\<forall>i \<in> snd ` set ps. 0 \<le> i \<and> i < int (length ps))"

text \<open>
  \<open>ch p\<close> lists the comets of \<open>p\<close> by index: every comet stands in its creator's chain, each link is the
  self-parent of the next, and other-parents are known.
\<close>

definition in_chain :: "(string, int) gomap \<Rightarrow> chains \<Rightarrow> string \<Rightarrow> Comet \<Rightarrow> bool" where
  "in_chain ps ch k c \<longleftrightarrow> map_of ps (Comet_Creator c) \<noteq> None \<and> 0 \<le> Comet_Index c \<and>
     Comet_Index c < int (length (ch (Comet_Creator c))) \<and> ch (Comet_Creator c) ! nat (Comet_Index c) = k"

definition link_ok :: "comets \<Rightarrow> string \<Rightarrow> string list \<Rightarrow> nat \<Rightarrow> bool" where
  "link_ok C p cs j \<longleftrightarrow> (\<exists>c. C (cs ! j) = Some c \<and> Comet_Creator c = p \<and> Comet_Index c = int j \<and>
     Comet_SelfParent c = (if j = 0 then [] else cs ! (j - 1)))"

definition chains_ok :: "(string, int) gomap \<Rightarrow> comets \<Rightarrow> chains \<Rightarrow> bool" where
  "chains_ok ps C ch \<longleftrightarrow>
     (\<forall>k c. C k = Some c \<longrightarrow> in_chain ps ch k c) \<and>
     (\<forall>p j. j < length (ch p) \<longrightarrow> link_ok C p (ch p) j) \<and>
     (\<forall>p. int (length (ch p)) \<le> MaxInt32) \<and>
     (\<forall>k c. C k = Some c \<longrightarrow> Comet_OtherParent c = [] \<or> Comet_OtherParent c \<in> dom C) \<and>
     C [] = None"

text \<open>The entry names the highest link of a chain that satisfies a downward closed predicate.\<close>

definition la_pred :: "(string \<Rightarrow> bool) \<Rightarrow> string list \<Rightarrow> EventCoordinates \<Rightarrow> bool" where
  "la_pred A cs e \<longleftrightarrow> -1 \<le> ec_Index e \<and> ec_Index e < int (length cs) \<and>
     ec_Hash e = (if ec_Index e < 0 then [] else cs ! nat (ec_Index e)) \<and>
     (\<forall>j < length cs. A (cs ! j) \<longleftrightarrow> int j \<le> ec_Index e)"

definition la_spec :: "comets \<Rightarrow> string list \<Rightarrow> string \<Rightarrow> EventCoordinates \<Rightarrow> bool" where
  "la_spec C cs k = la_pred (anc C k) cs"

definition fd_spec :: "comets \<Rightarrow> string list \<Rightarrow> string \<Rightarrow> EventCoordinates \<Rightarrow> bool" where
  "fd_spec C cs k e \<longleftrightarrow>
     (if ec_Index e = MaxInt32 then \<forall>j < length cs. \<not> anc C (cs ! j) k
      else 0 \<le> ec_Index e \<and> ec_Index e < int (length cs) \<and> ec_Hash e = cs ! nat (ec_Index e) \<and>
           (\<forall>j < length cs. anc C (cs ! j) k \<longleftrightarrow> ec_Index e \<le> int j))"

definition coords_ok :: "(string, int) gomap \<Rightarrow> comets \<Rightarrow> chains \<Rightarrow> bool" where
  "coords_ok ps C ch \<longleftrightarrow> (\<forall>k c. C k = Some c \<longrightarrow>
     length (LastAncestors c) = length ps \<and> length (FirstDescendants c) = length ps \<and>
     (\<forall>p i. map_of ps p = Some i \<longrightarrow>
        la_spec C (ch p) k (LastAncestors c ! nat i) \<and> fd_spec C (ch p) k (FirstDescendants c ! nat i)))"

definition graph_ok :: "(string, int) gomap \<Rightarrow> comets \<Rightarrow> chains \<Rightarrow> bool" where
  "graph_ok ps C ch \<longleftrightarrow> members_ok ps \<and> chains_ok ps C ch \<and> coords_ok ps C ch"

text \<open>Setting the first-descendant entry of id \<open>cid\<close> in a set of comets.\<close>

definition upd :: "int \<Rightarrow> EventCoordinates \<Rightarrow> string set \<Rightarrow> comets \<Rightarrow> comets" where
  "upd cid coord T C = (\<lambda>k. map_option (\<lambda>c. if k \<in> T
      then c\<lparr>FirstDescendants := (FirstDescendants c)[nat cid := coord]\<rparr> else c) (C k))"

text \<open>The hash \<open>x\<close> is new to the graph, and neither a known comet nor the comet itself has it as a parent.\<close>

definition fresh_for :: "comets \<Rightarrow> string \<Rightarrow> Comet \<Rightarrow> bool" where
  "fresh_for C x c \<longleftrightarrow> C x = None \<and>
     (\<forall>k d. C k = Some d \<longrightarrow> Comet_SelfParent d \<noteq> x \<and> Comet_OtherParent d \<noteq> x) \<and>
     Comet_SelfParent c \<noteq> x \<and> Comet_OtherParent c \<noteq> x"

section \<open>Lemmas on reachability\<close>

lemma dom_upd [simp]: "dom (upd cid coord T C) = dom C"
  by (auto simp: upd_def)

lemma upd_Some:
  "upd cid coord T C k = Some d \<longleftrightarrow> (\<exists>c. C k = Some c \<and> d = (if k \<in> T
     then c\<lparr>FirstDescendants := (FirstDescendants c)[nat cid := coord]\<rparr> else c))"
  by (auto simp: upd_def)

lemma par_upd [simp]: "par (upd cid coord T C) = par C"
  unfolding par_def by (auto simp: upd_Some) (metis Comet_accessors_cong)+

lemma anc_upd [simp]: "anc (upd cid coord T C) = anc C"
  by (intro ext) (simp add: anc_def)

lemma anc_refl: "x \<in> dom C \<Longrightarrow> anc C x x"
  by (simp add: anc_def)

lemma anc_dom: "anc C x y \<Longrightarrow> x \<in> dom C \<and> y \<in> dom C"
  unfolding anc_def by (auto elim: rtrancl.cases simp: par_def)

lemma anc_trans: "anc C x y \<Longrightarrow> anc C y z \<Longrightarrow> anc C x z"
  by (auto simp: anc_def)

lemma anc_step: "(x, y) \<in> par C \<Longrightarrow> anc C x y"
  by (auto simp: anc_def par_def)

lemma par_insert:
  assumes "fresh_for C x c"
  shows "par (C(x \<mapsto> c)) = par C \<union> {x} \<times> ({Comet_SelfParent c, Comet_OtherParent c} \<inter> dom C)"
proof (rule set_eqI, clarify)
  fix a b
  show "(a, b) \<in> par (C(x \<mapsto> c)) \<longleftrightarrow>
      (a, b) \<in> par C \<union> {x} \<times> ({Comet_SelfParent c, Comet_OtherParent c} \<inter> dom C)"
  proof (cases "a = x")
    case True
    then show ?thesis using assms by (auto simp: par_def fresh_for_def)
  next
    case False
    have "C a = Some d \<Longrightarrow> b = Comet_SelfParent d \<or> b = Comet_OtherParent d \<Longrightarrow> b \<noteq> x" for d
      using assms by (auto simp: fresh_for_def)
    then show ?thesis using False by (auto simp: par_def)
  qed
qed

text \<open>Adding a comet that is no parent of a known one changes no ancestry among the known ones.\<close>

lemma anc_insert:
  assumes "fresh_for C x c"
  shows "a \<in> dom C \<Longrightarrow> anc (C(x \<mapsto> c)) a b \<longleftrightarrow> anc C a b"
    and "anc (C(x \<mapsto> c)) x b \<longleftrightarrow>
      b = x \<or> anc C (Comet_SelfParent c) b \<or> anc C (Comet_OtherParent c) b"
proof -
  let ?P = "{Comet_SelfParent c, Comet_OtherParent c} \<inter> dom C"
  note p = par_insert [OF assms]
  have x: "C x = None" using assms by (simp add: fresh_for_def)
  have old: "(a, b) \<in> (par (C(x \<mapsto> c)))\<^sup>* \<longleftrightarrow> (a, b) \<in> (par C)\<^sup>*" if a: "a \<in> dom C" for a b
  proof
    assume "(a, b) \<in> (par (C(x \<mapsto> c)))\<^sup>*"
    then have "(a, b) \<in> (par C)\<^sup>* \<and> b \<in> dom C"
    proof induction
      case (step y z)
      then have "(y, z) \<in> par C" using x unfolding p by auto
      then show ?case using step.IH by (auto simp: par_def intro: rtrancl_into_rtrancl)
    qed (use a in simp)
    then show "(a, b) \<in> (par C)\<^sup>*" ..
  next
    assume "(a, b) \<in> (par C)\<^sup>*"
    then show "(a, b) \<in> (par (C(x \<mapsto> c)))\<^sup>*"
      unfolding p by (rule rev_subsetD) (rule rtrancl_mono, blast)
  qed
  show "a \<in> dom C \<Longrightarrow> anc (C(x \<mapsto> c)) a b \<longleftrightarrow> anc C a b"
    using old by (auto simp: anc_def)
  have "(x, b) \<in> (par (C(x \<mapsto> c)))\<^sup>* \<longleftrightarrow> b = x \<or> (\<exists>y \<in> ?P. (y, b) \<in> (par (C(x \<mapsto> c)))\<^sup>*)"
  proof
    assume "(x, b) \<in> (par (C(x \<mapsto> c)))\<^sup>*"
    then show "b = x \<or> (\<exists>y \<in> ?P. (y, b) \<in> (par (C(x \<mapsto> c)))\<^sup>*)"
    proof (cases rule: converse_rtranclE)
      case (step y)
      then have "y \<in> ?P" using x unfolding p by (auto simp: par_def)
      then show ?thesis using step by blast
    qed simp
  next
    assume "b = x \<or> (\<exists>y \<in> ?P. (y, b) \<in> (par (C(x \<mapsto> c)))\<^sup>*)"
    moreover have "(x, y) \<in> par (C(x \<mapsto> c))" if "y \<in> ?P" for y using that unfolding p by blast
    ultimately show "(x, b) \<in> (par (C(x \<mapsto> c)))\<^sup>*" by (auto intro: converse_rtrancl_into_rtrancl)
  qed
  then show "anc (C(x \<mapsto> c)) x b \<longleftrightarrow>
      b = x \<or> anc C (Comet_SelfParent c) b \<or> anc C (Comet_OtherParent c) b"
    using old by (auto simp: anc_def)
qed

section \<open>Lemmas on chains\<close>

lemma chains_okD:
  assumes "chains_ok ps C ch"
  shows "C k = Some c \<Longrightarrow> in_chain ps ch k c"
    and "j < length (ch p) \<Longrightarrow> link_ok C p (ch p) j"
    and "int (length (ch p)) \<le> MaxInt32"
    and "C k = Some c \<Longrightarrow> Comet_OtherParent c = [] \<or> Comet_OtherParent c \<in> dom C"
    and "C [] = None"
  using assms by (auto simp: chains_ok_def)

lemma chain_dom: "chains_ok ps C ch \<Longrightarrow> j < length (ch p) \<Longrightarrow> ch p ! j \<in> dom C"
  using chains_okD(2) [of ps C ch j p] by (auto simp: link_ok_def)

text \<open>A link of a chain is an ancestor of every later one.\<close>

lemma chain_anc:
  assumes "chains_ok ps C ch" "i \<le> j" "j < length (ch p)"
  shows "anc C (ch p ! j) (ch p ! i)"
  using assms(2,3)
proof (induction j rule: dec_induct)
  case base
  then show ?case using chain_dom [OF assms(1)] by (simp add: anc_refl)
next
  case (step n)
  have "(ch p ! Suc n, ch p ! n) \<in> par C"
    using chains_okD(2) [OF assms(1) step.prems] chain_dom [OF assms(1), of n p] step.prems
    by (auto simp: link_ok_def par_def)
  then show ?case using step anc_step anc_trans by fastforce
qed

lemma chain_unique:
  assumes "chains_ok ps C ch" "i < length (ch p)" "j < length (ch q)" "ch p ! i = ch q ! j"
  shows "p = q \<and> i = j"
  using chains_okD(2) [OF assms(1,2)] chains_okD(2) [OF assms(1,3)] assms(4)
  by (auto simp: link_ok_def)

lemma dom_in_chain:
  assumes "chains_ok ps C ch" "C k = Some c"
  obtains j i where "map_of ps (Comet_Creator c) = Some i" "j < length (ch (Comet_Creator c))"
    "Comet_Index c = int j" "ch (Comet_Creator c) ! j = k"
proof -
  have "in_chain ps ch k c" using chains_okD(1) [OF assms] .
  then show ?thesis
    using that [of _ "nat (Comet_Index c)"] by (auto simp: in_chain_def)
qed

section \<open>Lemmas on coordinates\<close>

definition max_coord :: "EventCoordinates \<Rightarrow> EventCoordinates \<Rightarrow> EventCoordinates" where
  "max_coord a b = (if ec_Index a < ec_Index b then b else a)"

lemma copy_coords_id [simp]: "length la = n \<Longrightarrow> copy_coords n la = la"
  by (simp add: copy_coords_def)

lemma max_coords_eq:
  "length las \<le> length oas \<Longrightarrow> max_coords las oas = Some (map2 max_coord las oas)"
  by (induction las oas rule: max_coords.induct) (auto simp: max_coord_def)

lemma la_pred_none: "la_pred (\<lambda>_. False) cs \<lparr>ec_Hash = [], ec_Index = -1\<rparr>"
  by (simp add: la_pred_def)

lemma la_pred_max:
  "la_pred A cs a \<Longrightarrow> la_pred B cs b \<Longrightarrow> la_pred (\<lambda>z. A z \<or> B z) cs (max_coord a b)"
  by (auto simp: la_pred_def max_coord_def)

lemma la_pred_cong:
  "(\<And>j. j < length cs \<Longrightarrow> A (cs ! j) = B (cs ! j)) \<Longrightarrow> la_pred A cs e = la_pred B cs e"
  by (auto simp: la_pred_def)

lemma fd_spec_cong:
  "(\<And>j. j < length cs \<Longrightarrow> anc C (cs ! j) k = anc D (cs ! j) k) \<Longrightarrow> fd_spec C cs k e = fd_spec D cs k e"
  by (auto simp: fd_spec_def)

text \<open>A chain that grows by a comet which is no ancestor of \<open>k\<close>.\<close>

lemma la_pred_snoc:
  "la_pred A cs e \<Longrightarrow> \<not> A x \<Longrightarrow> la_pred A (cs @ [x]) e"
  by (auto simp: la_pred_def nth_append less_Suc_eq)

lemma la_pred_own:
  assumes "\<And>z. z \<in> set cs \<Longrightarrow> A z" "A x"
  shows "la_pred A (cs @ [x]) \<lparr>ec_Hash = x, ec_Index = int (length cs)\<rparr>"
  using assms by (auto simp: la_pred_def nth_append less_Suc_eq)

lemma la_spec_upd: "la_spec (upd a b T C) = la_spec C"
  by (intro ext) (simp add: la_spec_def)

lemma fd_spec_upd: "fd_spec (upd a b T C) = fd_spec C"
  by (intro ext) (simp add: fd_spec_def)

lemma coords_okD:
  assumes "coords_ok ps C ch" "C k = Some c"
  shows "length (LastAncestors c) = length ps" "length (FirstDescendants c) = length ps"
    and "map_of ps p = Some i \<Longrightarrow> la_pred (anc C k) (ch p) (LastAncestors c ! nat i)"
    and "map_of ps p = Some i \<Longrightarrow> fd_spec C (ch p) k (FirstDescendants c ! nat i)"
  using assms by (auto simp: coords_ok_def la_spec_def)

lemma members_ok_id:
  assumes "members_ok ps" "map_of ps p = Some i"
  shows "0 \<le> i" "nat i < length ps"
proof -
  have "0 \<le> i \<and> i < int (length ps)"
    using map_of_SomeD [OF assms(2)] assms(1) by (force simp: members_ok_def)
  then show "0 \<le> i" "nat i < length ps" by auto
qed

lemma members_ok_inj:
  assumes "members_ok ps" "map_of ps p = Some i" "map_of ps q = Some j"
  shows "nat i = nat j \<longleftrightarrow> p = q"
proof -
  have d: "inj_on snd (set ps)" using assms(1) by (simp add: members_ok_def distinct_map)
  have "i = j \<Longrightarrow> p = q"
    using inj_onD [OF d, of "(p, i)" "(q, j)"] map_of_SomeD [OF assms(2)] map_of_SomeD [OF assms(3)]
    by simp
  moreover have "nat i = nat j \<Longrightarrow> i = j"
    using members_ok_id(1) [OF assms(1,2)] members_ok_id(1) [OF assms(1,3)] by simp
  ultimately show ?thesis using assms(2,3) by auto
qed

section \<open>Adding a comet\<close>

text \<open>The comet \<open>c\<close> with hash \<open>x\<close> is the next one of its creator and its other-parent is known.\<close>

definition insert_ok :: "(string, int) gomap \<Rightarrow> comets \<Rightarrow> chains \<Rightarrow> string \<Rightarrow> Comet \<Rightarrow> bool" where
  "insert_ok ps C ch x c \<longleftrightarrow> C x = None \<and> x \<noteq> [] \<and> map_of ps (Comet_Creator c) \<noteq> None \<and>
     Comet_Index c = int (length (ch (Comet_Creator c))) \<and> Comet_Index c < MaxInt32 \<and>
     Comet_SelfParent c = (if ch (Comet_Creator c) = [] then [] else last (ch (Comet_Creator c))) \<and>
     (Comet_OtherParent c = [] \<or> Comet_OtherParent c \<in> dom C)"

definition init_la :: "(string, int) gomap \<Rightarrow> comets \<Rightarrow> Comet \<Rightarrow> EventCoordinates list" where
  "init_la ps C c = (case (C (Comet_SelfParent c), C (Comet_OtherParent c)) of
     (None, None) \<Rightarrow> replicate (length ps) \<lparr>ec_Hash = [], ec_Index = -1\<rparr>
   | (None, Some oc) \<Rightarrow> LastAncestors oc
   | (Some sc, None) \<Rightarrow> LastAncestors sc
   | (Some sc, Some oc) \<Rightarrow> map2 max_coord (LastAncestors sc) (LastAncestors oc))"

definition placed :: "(string, int) gomap \<Rightarrow> comets \<Rightarrow> int \<Rightarrow> EventCoordinates \<Rightarrow> Comet \<Rightarrow> Comet" where
  "placed ps C cid coord c =
     c\<lparr>FirstDescendants := (replicate (length ps) \<lparr>ec_Hash = [], ec_Index = MaxInt32\<rparr>)[nat cid := coord],
       LastAncestors := (init_la ps C c)[nat cid := coord]\<rparr>"

text \<open>The known ancestors of the new comet that have no first descendant by its creator yet.\<close>

definition touched :: "comets \<Rightarrow> int \<Rightarrow> Comet \<Rightarrow> string set" where
  "touched C cid c = {k. (anc C (Comet_SelfParent c) k \<or> anc C (Comet_OtherParent c) k) \<and>
     (\<exists>d. C k = Some d \<and> ec_Index (FirstDescendants d ! nat cid) = MaxInt32)}"

lemma placed_keeps [simp]:
  "Comet_Creator (placed ps C cid coord c) = Comet_Creator c"
  "Comet_Index (placed ps C cid coord c) = Comet_Index c"
  "Comet_SelfParent (placed ps C cid coord c) = Comet_SelfParent c"
  "Comet_OtherParent (placed ps C cid coord c) = Comet_OtherParent c"
  "Comet_Hex cr (placed ps C cid coord c) = Comet_Hex cr c"
  by (simp_all add: placed_def)

lemma insert_ok_fresh:
  assumes "chains_ok ps C ch" "insert_ok ps C ch x c"
  shows "fresh_for C x c"
proof -
  have x: "C x = None" "x \<noteq> []" using assms(2) by (auto simp: insert_ok_def)
  have "Comet_SelfParent d \<noteq> x \<and> Comet_OtherParent d \<noteq> x" if d: "C k = Some d" for k d
  proof -
    obtain j i where j: "j < length (ch (Comet_Creator d))" "ch (Comet_Creator d) ! j = k"
      using dom_in_chain [OF assms(1) d] by metis
    have "Comet_SelfParent d = [] \<or> Comet_SelfParent d \<in> dom C"
      using chains_okD(2) [OF assms(1) j(1)] chain_dom [OF assms(1), of "j - 1" "Comet_Creator d"] j d
      by (auto simp: link_ok_def)
    then show ?thesis using chains_okD(4) [OF assms(1) d] x by auto
  qed
  moreover have "Comet_SelfParent c \<noteq> x"
    using assms x chain_dom [OF assms(1), of "length (ch (Comet_Creator c)) - 1" "Comet_Creator c"]
    by (auto simp: insert_ok_def last_conv_nth)
  moreover have "Comet_OtherParent c \<noteq> x" using assms(2) x by (auto simp: insert_ok_def)
  ultimately show ?thesis using x by (auto simp: fresh_for_def)
qed

lemma length_init_la:
  assumes "coords_ok ps C ch"
  shows "length (init_la ps C c) = length ps"
  using coords_okD(1) [OF assms] by (auto simp: init_la_def split: option.split)

lemma anc_None: "C x = None \<Longrightarrow> \<not> anc C x y"
  by (auto simp: anc_def)

lemma init_la_spec:
  assumes "members_ok ps" "coords_ok ps C ch" "map_of ps q = Some i"
  shows "la_pred (\<lambda>z. anc C (Comet_SelfParent c) z \<or> anc C (Comet_OtherParent c) z) (ch q)
    (init_la ps C c ! nat i)"
proof -
  note i = members_ok_id [OF assms(1,3)]
  note l = coords_okD(1,3) [OF assms(2)]
  show ?thesis
    using i l(1) l(2) [OF _ assms(3)] la_pred_none [of "ch q"]
      la_pred_max [OF l(2) [OF _ assms(3)] l(2) [OF _ assms(3)]]
    by (auto simp: init_la_def anc_None split: option.split)
qed

lemma chains_insert:
  assumes "chains_ok ps C ch" "insert_ok ps C ch x c"
    and "Comet_Creator d = Comet_Creator c" "Comet_Index d = Comet_Index c"
    and "Comet_SelfParent d = Comet_SelfParent c" "Comet_OtherParent d = Comet_OtherParent c"
  shows "chains_ok ps (C(x \<mapsto> d)) (ch(Comet_Creator c := ch (Comet_Creator c) @ [x]))"
proof -
  let ?p = "Comet_Creator c"
  let ?ch = "ch(?p := ch ?p @ [x])"
  have x: "C x = None" "x \<noteq> []" using assms(2) by (auto simp: insert_ok_def)
  have 1: "in_chain ps ?ch k e" if "(C(x \<mapsto> d)) k = Some e" for k e
    using that assms(2-4) chains_okD(1) [OF assms(1), of k e] x
    by (auto simp: in_chain_def insert_ok_def nth_append split: if_splits)
  have 2: "link_ok (C(x \<mapsto> d)) q (?ch q) j" if j: "j < length (?ch q)" for q j
  proof (cases "q = ?p \<and> j = length (ch ?p)")
    case True
    then show ?thesis
      using assms(2-6) by (auto simp: link_ok_def insert_ok_def nth_append last_conv_nth)
  next
    case False
    then have j': "j < length (ch q)" using j by (auto split: if_splits)
    have "ch q ! j \<noteq> x" using chain_dom [OF assms(1) j'] x by auto
    moreover have "?ch q ! i = ch q ! i" if "i < length (ch q)" for i
      using that by (auto simp: nth_append)
    ultimately show ?thesis
      using chains_okD(2) [OF assms(1) j'] j' by (auto simp: link_ok_def)
  qed
  have 3: "int (length (?ch q)) \<le> MaxInt32" for q
    using chains_okD(3) [OF assms(1), of q] assms(2) by (auto simp: insert_ok_def)
  have 4: "Comet_OtherParent e = [] \<or> Comet_OtherParent e \<in> dom (C(x \<mapsto> d))"
    if "(C(x \<mapsto> d)) k = Some e" for k e
    using that assms(2,6) chains_okD(4) [OF assms(1), of k e]
    by (auto simp: insert_ok_def split: if_splits)
  show ?thesis
    unfolding chains_ok_def using 1 2 3 4 x chains_okD(5) [OF assms(1)] by auto
qed

lemma upd_all:
  assumes "\<And>k c fd. P k (c\<lparr>FirstDescendants := fd\<rparr>) = P k c"
  shows "(\<forall>k c. upd cid coord T C k = Some c \<longrightarrow> P k c) \<longleftrightarrow> (\<forall>k c. C k = Some c \<longrightarrow> P k c)"
proof -
  have "(\<forall>c. upd cid coord T C k = Some c \<longrightarrow> P k c) \<longleftrightarrow> (\<forall>c. C k = Some c \<longrightarrow> P k c)" for k
    using assms by (cases "C k") (simp_all add: upd_def)
  then show ?thesis by blast
qed

lemma chains_ok_upd [simp]: "chains_ok ps (upd cid coord T C) ch = chains_ok ps C ch"
proof -
  have "in_chain ps ch k (c\<lparr>FirstDescendants := fd\<rparr>) = in_chain ps ch k c" for k c fd
    by (simp add: in_chain_def)
  moreover have "link_ok (upd cid coord T C) p cs j = link_ok C p cs j" for p cs j
    by (cases "C (cs ! j)") (simp_all add: link_ok_def upd_def)
  moreover have "upd cid coord T C [] = None \<longleftrightarrow> C [] = None" by (simp add: upd_def)
  ultimately show ?thesis
    unfolding chains_ok_def by (simp add: upd_all)
qed

text \<open>The last ancestors of known comets are untouched, those of the new one are as computed.\<close>

lemma la_insert:
  assumes g: "graph_ok ps C ch" and ins: "insert_ok ps C ch x c"
    and cid: "map_of ps (Comet_Creator c) = Some cid" and q: "map_of ps q = Some i"
    and coord: "coord = \<lparr>ec_Hash = x, ec_Index = Comet_Index c\<rparr>"
    and c': "c' = placed ps C cid coord c"
    and ch': "ch' = ch(Comet_Creator c := ch (Comet_Creator c) @ [x])"
  shows "C k = Some d \<Longrightarrow> la_pred (anc (C(x \<mapsto> c')) k) (ch' q) (LastAncestors d ! nat i)"
    and "la_pred (anc (C(x \<mapsto> c')) x) (ch' q) (LastAncestors c' ! nat i)"
proof -
  have m: "members_ok ps" and chs: "chains_ok ps C ch" and co: "coords_ok ps C ch"
    using g by (simp_all add: graph_ok_def)
  have f: "fresh_for C x c'"
    using insert_ok_fresh [OF chs ins] by (simp add: fresh_for_def c')
  have x: "C x = None" using ins by (simp add: insert_ok_def)
  note old = anc_insert(1) [OF f] and new = anc_insert(2) [OF f]
  have nochain: "z \<noteq> x" if "z \<in> set (ch q)" for z
    using that chain_dom [OF chs, of _ q] x by (auto simp: in_set_conv_nth)
  show "C k = Some d \<Longrightarrow> la_pred (anc (C(x \<mapsto> c')) k) (ch' q) (LastAncestors d ! nat i)"
  proof -
    assume d: "C k = Some d"
    have "la_pred (anc C k) (ch q) (LastAncestors d ! nat i)" using coords_okD(3) [OF co d q] .
    moreover have "\<not> anc C k x" using x anc_dom [of C k x] by auto
    ultimately have "la_pred (anc C k) (ch' q) (LastAncestors d ! nat i)"
      by (auto simp: ch' intro: la_pred_snoc)
    moreover have "anc (C(x \<mapsto> c')) k = anc C k" using old d by (auto simp: fun_eq_iff)
    ultimately show ?thesis by simp
  qed
  show "la_pred (anc (C(x \<mapsto> c')) x) (ch' q) (LastAncestors c' ! nat i)"
  proof (cases "q = Comet_Creator c")
    case True
    have "i = cid" using True q cid by simp
    have len: "nat cid < length (init_la ps C c)"
      using members_ok_id [OF m cid] length_init_la [OF co] by simp
    have "anc (C(x \<mapsto> c')) x z" if z: "z \<in> set (ch q)" for z
    proof -
      obtain j where j: "j < length (ch q)" "z = ch q ! j" using z by (auto simp: in_set_conv_nth)
      have "Comet_SelfParent c = ch q ! (length (ch q) - 1)"
        using ins True z by (auto simp: insert_ok_def last_conv_nth)
      then have "anc C (Comet_SelfParent c) z"
        using chain_anc [OF chs, of j "length (ch q) - 1" q] j by simp
      then show ?thesis using new by (simp add: c')
    qed
    moreover have "anc (C(x \<mapsto> c')) x x" using new by simp
    ultimately have "la_pred (anc (C(x \<mapsto> c')) x) (ch q @ [x]) \<lparr>ec_Hash = x, ec_Index = int (length (ch q))\<rparr>"
      by (rule la_pred_own)
    moreover have "LastAncestors c' ! nat i = \<lparr>ec_Hash = x, ec_Index = int (length (ch q))\<rparr>"
      using len True \<open>i = cid\<close> ins by (simp add: c' placed_def coord insert_ok_def)
    ultimately show ?thesis using True by (simp add: ch')
  next
    case False
    have "nat i \<noteq> nat cid" using members_ok_inj [OF m q cid] False by simp
    then have "LastAncestors c' ! nat i = init_la ps C c ! nat i" by (simp add: c' placed_def)
    moreover have "anc (C(x \<mapsto> c')) x (ch q ! j) \<longleftrightarrow>
        anc C (Comet_SelfParent c) (ch q ! j) \<or> anc C (Comet_OtherParent c) (ch q ! j)"
      if "j < length (ch q)" for j
      using new [of "ch q ! j"] nochain [of "ch q ! j"] that by (simp add: c')
    ultimately show ?thesis
      using init_la_spec [OF m co q, of c] False
      by (simp add: ch' la_pred_cong [where A = "anc (C(x \<mapsto> c')) x"])
  qed
qed

text \<open>
  The first descendants after the ancestors in \<open>touched\<close> got the new comet as their first descendant
  by its creator.
\<close>

lemma fd_insert:
  assumes g: "graph_ok ps C ch" and ins: "insert_ok ps C ch x c"
    and cid: "map_of ps (Comet_Creator c) = Some cid" and q: "map_of ps q = Some i"
    and coord: "coord = \<lparr>ec_Hash = x, ec_Index = Comet_Index c\<rparr>"
    and c': "c' = placed ps C cid coord c"
    and ch': "ch' = ch(Comet_Creator c := ch (Comet_Creator c) @ [x])"
    and d: "C k = Some d"
    and d': "d' = (if k \<in> touched C cid c then d\<lparr>FirstDescendants := (FirstDescendants d)[nat cid := coord]\<rparr> else d)"
  shows "fd_spec (C(x \<mapsto> c')) (ch' q) k (FirstDescendants d' ! nat i)"
proof -
  have m: "members_ok ps" and chs: "chains_ok ps C ch" and co: "coords_ok ps C ch"
    using g by (simp_all add: graph_ok_def)
  have f: "fresh_for C x c'"
    using insert_ok_fresh [OF chs ins] by (simp add: fresh_for_def c')
  have x: "C x = None" and idx: "Comet_Index c = int (length (ch (Comet_Creator c)))" "Comet_Index c \<noteq> MaxInt32"
    using ins by (auto simp: insert_ok_def)
  have old: "anc (C(x \<mapsto> c')) (ch q ! j) k = anc C (ch q ! j) k" if "j < length (ch q)" for j
    using anc_insert(1) [OF f chain_dom [OF chs that]] .
  have kx: "k \<noteq> x" using d x by auto
  have new: "anc (C(x \<mapsto> c')) x k \<longleftrightarrow> anc C (Comet_SelfParent c) k \<or> anc C (Comet_OtherParent c) k"
    using anc_insert(2) [OF f, of k] kx by (simp add: c')
  let ?e = "FirstDescendants d ! nat i"
  have e: "fd_spec C (ch q) k ?e" using coords_okD(4) [OF co d q] .
  have len: "nat i < length (FirstDescendants d)"
    using members_ok_id [OF m q] coords_okD(2) [OF co d] by simp
  show ?thesis
  proof (cases "q = Comet_Creator c")
    case False
    have "nat i \<noteq> nat cid" using members_ok_inj [OF m q cid] False by simp
    then have "FirstDescendants d' ! nat i = ?e" by (simp add: d')
    moreover have "fd_spec (C(x \<mapsto> c')) (ch q) k ?e = fd_spec C (ch q) k ?e"
      by (rule fd_spec_cong) (rule old)
    ultimately show ?thesis using e False by (simp add: ch')
  next
    case True
    then have i: "i = cid" using q cid by simp
    show ?thesis
    proof (cases "ec_Index ?e = MaxInt32")
      case unset: True
      have no: "\<not> anc C (ch q ! j) k" if "j < length (ch q)" for j
        using e unset that by (simp add: fd_spec_def)
      have t: "k \<in> touched C cid c \<longleftrightarrow> anc (C(x \<mapsto> c')) x k"
        using d unset i by (auto simp: touched_def new)
      show ?thesis
      proof (cases "anc (C(x \<mapsto> c')) x k")
        case yes: True
        then have "FirstDescendants d' ! nat i = coord" using t i len by (simp add: d')
        then show ?thesis
          using True yes no old idx by (auto simp: ch' fd_spec_def coord nth_append less_Suc_eq)
      next
        case False
        then have "FirstDescendants d' ! nat i = ?e" using t by (simp add: d')
        then show ?thesis
          using True False unset no old by (auto simp: ch' fd_spec_def nth_append less_Suc_eq)
      qed
    next
      case set: False
      then have fe: "0 \<le> ec_Index ?e" "ec_Index ?e < int (length (ch q))" "ec_Hash ?e = ch q ! nat (ec_Index ?e)"
        "\<And>j. j < length (ch q) \<Longrightarrow> anc C (ch q ! j) k \<longleftrightarrow> ec_Index ?e \<le> int j"
        using e by (auto simp: fd_spec_def)
      have "k \<notin> touched C cid c" using set d i by (auto simp: touched_def)
      then have e': "FirstDescendants d' ! nat i = ?e" by (simp add: d')
      have "ch q \<noteq> []" using fe by auto
      then have sp: "Comet_SelfParent c = ch q ! (length (ch q) - 1)"
        using ins True by (simp add: insert_ok_def last_conv_nth)
      have "anc C (Comet_SelfParent c) k"
        using fe(4) [of "length (ch q) - 1"] fe(2) \<open>ch q \<noteq> []\<close> unfolding sp by auto
      then have "anc (C(x \<mapsto> c')) x k" by (simp add: new)
      then show ?thesis
        using True fe old e' set by (auto simp: ch' fd_spec_def nth_append less_Suc_eq)
    qed
  qed
qed

lemma fd_new:
  assumes g: "graph_ok ps C ch" and ins: "insert_ok ps C ch x c"
    and cid: "map_of ps (Comet_Creator c) = Some cid" and q: "map_of ps q = Some i"
    and coord: "coord = \<lparr>ec_Hash = x, ec_Index = Comet_Index c\<rparr>"
    and c': "c' = placed ps C cid coord c"
    and ch': "ch' = ch(Comet_Creator c := ch (Comet_Creator c) @ [x])"
  shows "fd_spec (C(x \<mapsto> c')) (ch' q) x (FirstDescendants c' ! nat i)"
proof -
  have m: "members_ok ps" and chs: "chains_ok ps C ch" using g by (simp_all add: graph_ok_def)
  have f: "fresh_for C x c'"
    using insert_ok_fresh [OF chs ins] by (simp add: fresh_for_def c')
  have x: "C x = None" and idx: "Comet_Index c = int (length (ch (Comet_Creator c)))" "Comet_Index c \<noteq> MaxInt32"
    using ins by (auto simp: insert_ok_def)
  have no: "\<not> anc (C(x \<mapsto> c')) (ch q ! j) x" if "j < length (ch q)" for j
    using anc_insert(1) [OF f chain_dom [OF chs that]] anc_dom [of C _ x] x by auto
  have yes: "anc (C(x \<mapsto> c')) x x" by (simp add: anc_refl)
  note len = members_ok_id [OF m q] members_ok_id [OF m cid]
  show ?thesis
  proof (cases "q = Comet_Creator c")
    case True
    then have "FirstDescendants c' ! nat i = coord" using q cid len by (simp add: c' placed_def)
    then show ?thesis
      using True no yes idx by (auto simp: ch' fd_spec_def coord nth_append less_Suc_eq)
  next
    case False
    have "nat i \<noteq> nat cid" using members_ok_inj [OF m q cid] False by simp
    then have "FirstDescendants c' ! nat i = \<lparr>ec_Hash = [], ec_Index = MaxInt32\<rparr>"
      using len by (simp add: c' placed_def)
    then show ?thesis using False no by (simp add: ch' fd_spec_def)
  qed
qed

lemma graph_ok_insert:
  assumes g: "graph_ok ps C ch" and ins: "insert_ok ps C ch x c"
    and cid: "map_of ps (Comet_Creator c) = Some cid"
    and coord: "coord = \<lparr>ec_Hash = x, ec_Index = Comet_Index c\<rparr>"
  shows "graph_ok ps (upd cid coord (touched C cid c) (C(x \<mapsto> placed ps C cid coord c)))
    (ch(Comet_Creator c := ch (Comet_Creator c) @ [x]))"
proof -
  let ?c' = "placed ps C cid coord c" and ?ch' = "ch(Comet_Creator c := ch (Comet_Creator c) @ [x])"
  let ?C1 = "C(x \<mapsto> ?c')" and ?T = "touched C cid c"
  have m: "members_ok ps" and chs: "chains_ok ps C ch" and co: "coords_ok ps C ch"
    using g by (simp_all add: graph_ok_def)
  have chs': "chains_ok ps ?C1 ?ch'" by (rule chains_insert [OF chs ins]) simp_all
  have xT: "x \<notin> ?T" using ins by (auto simp: touched_def insert_ok_def)
  have len: "length (LastAncestors ?c') = length ps" "length (FirstDescendants ?c') = length ps"
    using length_init_la [OF co] by (simp_all add: placed_def)
  have "length (LastAncestors e) = length ps \<and> length (FirstDescendants e) = length ps \<and>
      (\<forall>q i. map_of ps q = Some i \<longrightarrow> la_spec ?C1 (?ch' q) k (LastAncestors e ! nat i) \<and>
         fd_spec ?C1 (?ch' q) k (FirstDescendants e ! nat i))"
    if e: "upd cid coord ?T ?C1 k = Some e" for k e
  proof (cases "k = x")
    case True
    then have "e = ?c'" using e xT by (auto simp: upd_Some)
    then show ?thesis
      using True len la_insert(2) [OF g ins cid _ coord refl refl] fd_new [OF g ins cid _ coord refl refl]
      by (simp add: la_spec_def)
  next
    case False
    then obtain d where d: "C k = Some d"
      and e': "e = (if k \<in> ?T then d\<lparr>FirstDescendants := (FirstDescendants d)[nat cid := coord]\<rparr> else d)"
      using e by (auto simp: upd_Some)
    have "LastAncestors e = LastAncestors d" "length (FirstDescendants e) = length (FirstDescendants d)"
      by (simp_all add: e')
    then show ?thesis
      using coords_okD(1,2) [OF co d] la_insert(1) [OF g ins cid _ coord refl refl d]
        fd_insert [OF g ins cid _ coord refl refl d e']
      by (simp add: la_spec_def)
  qed
  then have "coords_ok ps (upd cid coord ?T ?C1) ?ch'"
    unfolding coords_ok_def la_spec_upd fd_spec_upd by blast
  then show ?thesis using m chs' by (simp add: graph_ok_def)
qed

end
