(* ===== verification/RollingIndex.thy ===== *)
theory RollingIndex
  imports StoreErr
begin

text \<open>
  The bounded history of \<^verbatim>\<open>src/common/rolling_index.go\<close> and the per-key family of
  \<^verbatim>\<open>src/common/rolling_index_map.go\<close>.  A rolling index keeps a window of the items set at
  consecutive indexes: it holds at most \<open>2 * size\<close> items and, when full, forgets the oldest
  \<open>size\<close>.  The specification relates the window to the whole history of items; the lemmas
  show that every operation answers from the history, that the last \<open>size\<close> items can always
  be read back, and on which inputs each error is returned.
\<close>

section \<open>RollingIndex\<close>

record 'a RollingIndex =
  ri_size :: int
  lastIndex :: int
  ri_items :: "'a list"

definition NewRollingIndex :: "int \<Rightarrow> 'a RollingIndex" where
  "NewRollingIndex sz = \<lparr>ri_size = sz, lastIndex = -1, ri_items = []\<rparr>"

definition RollingIndex_GetLastWindow :: "'a RollingIndex \<Rightarrow> 'a list \<times> int" where
  "RollingIndex_GetLastWindow r = (ri_items r, lastIndex r)"

definition RollingIndex_Get :: "'a RollingIndex \<Rightarrow> int \<Rightarrow> (StoreErr, 'a list) result" where
  "RollingIndex_Get r skipIndex =
     (if skipIndex > lastIndex r then Inr []
      else
        let cachedItems = int (length (ri_items r));
            oldestCachedIndex = lastIndex r - cachedItems + 1
        in if skipIndex + 1 < oldestCachedIndex then Inl (NewStoreErr TooLate (itoa skipIndex))
           else let start = skipIndex - oldestCachedIndex + 1
                in Inr (drop (nat start) (ri_items r)))"

definition RollingIndex_GetItem :: "'a RollingIndex \<Rightarrow> int \<Rightarrow> (StoreErr, 'a) result" where
  "RollingIndex_GetItem r index =
     (let items = int (length (ri_items r));
          oldestCached = lastIndex r - items + 1
      in if index < oldestCached then Inl (NewStoreErr TooLate (itoa index))
         else let findex = index - oldestCached
              in if findex \<ge> items then Inl (NewStoreErr KeyNotFound (itoa index))
                 else Inr (ri_items r ! nat findex))"

definition RollingIndex_Roll :: "'a RollingIndex \<Rightarrow> 'a RollingIndex" where
  "RollingIndex_Roll r = r\<lparr>ri_items := drop (nat (ri_size r)) (ri_items r)\<rparr>"

definition RollingIndex_Set :: "'a RollingIndex \<Rightarrow> 'a \<Rightarrow> int \<Rightarrow> StoreErr option \<times> 'a RollingIndex" where
  "RollingIndex_Set r item index =
     (if 0 \<le> lastIndex r \<and> index > lastIndex r + 1
      then (Some (NewStoreErr SkippedIndex (itoa index)), r)
      else if lastIndex r < 0 \<or> index = lastIndex r + 1
      then let r1 = (if int (length (ri_items r)) \<ge> 2 * ri_size r then RollingIndex_Roll r else r)
           in (None, r1\<lparr>ri_items := ri_items r1 @ [item], lastIndex := index\<rparr>)
      else
        let cachedItems = int (length (ri_items r));
            oldestCachedIndex = lastIndex r - cachedItems + 1
        in if index < oldestCachedIndex then (Some (NewStoreErr TooLate (itoa index)), r)
           else let position = index - oldestCachedIndex
                in (None, r\<lparr>ri_items := (ri_items r)[nat position := item]\<rparr>))"

section \<open>RollingIndexMap\<close>

text \<open>The map from keys to rolling indexes is iterated over, so it is an association list.\<close>

record 'a RollingIndexMap =
  rim_size :: int
  rim_keys :: "int list"
  mapping :: "(int, 'a RollingIndex) gomap"

definition rim_fresh :: "int \<Rightarrow> int list \<Rightarrow> (int, 'a RollingIndex) gomap" where
  "rim_fresh sz keys = fold (\<lambda>key items. AList.update key (NewRollingIndex sz) items) keys []"

definition NewRollingIndexMap :: "int \<Rightarrow> int list \<Rightarrow> 'a RollingIndexMap" where
  "NewRollingIndexMap sz keys = \<lparr>rim_size = sz, rim_keys = keys, mapping = rim_fresh sz keys\<rparr>"

definition RollingIndexMap_Get :: "'a RollingIndexMap \<Rightarrow> int \<Rightarrow> int \<Rightarrow> (StoreErr, 'a list) result" where
  "RollingIndexMap_Get rim key skipIndex = (case map_of (mapping rim) key of
     None \<Rightarrow> Inl (NewStoreErr KeyNotFound (itoa key))
   | Some items \<Rightarrow> RollingIndex_Get items skipIndex)"

text \<open>\<^verbatim>\<open>rim.mapping[key].GetItem(index)\<close>: on an absent key the nil pointer is dereferenced, the result None.\<close>

definition RollingIndexMap_GetItem ::
    "'a RollingIndexMap \<Rightarrow> int \<Rightarrow> int \<Rightarrow> (StoreErr, 'a) result option" where
  "RollingIndexMap_GetItem rim key index =
     map_option (\<lambda>r. RollingIndex_GetItem r index) (map_of (mapping rim) key)"

text \<open>The last item of a key; an empty window gives the empty string, here \<open>Inr None\<close>.\<close>

definition RollingIndexMap_GetLast :: "'a RollingIndexMap \<Rightarrow> int \<Rightarrow> (StoreErr, 'a option) result" where
  "RollingIndexMap_GetLast rim key = (case map_of (mapping rim) key of
     None \<Rightarrow> Inl (NewStoreErr KeyNotFound (itoa key))
   | Some pe \<Rightarrow>
       let (cached, _) = RollingIndex_GetLastWindow pe
       in if length cached = 0 then Inr None else Inr (Some (cached ! (length cached - 1))))"

definition RollingIndexMap_Set ::
    "'a RollingIndexMap \<Rightarrow> int \<Rightarrow> 'a \<Rightarrow> int \<Rightarrow> StoreErr option \<times> 'a RollingIndexMap" where
  "RollingIndexMap_Set rim key item index =
     (let items = (case map_of (mapping rim) key of
                     None \<Rightarrow> NewRollingIndex (rim_size rim) | Some items \<Rightarrow> items);
          (err, items') = RollingIndex_Set items item index
      in (err, rim\<lparr>mapping := AList.update key items' (mapping rim)\<rparr>))"

definition RollingIndexMap_Known :: "'a RollingIndexMap \<Rightarrow> (int, int) gomap" where
  "RollingIndexMap_Known rim =
     map (\<lambda>(k, items). (k, snd (RollingIndex_GetLastWindow items))) (mapping rim)"

definition RollingIndexMap_Reset :: "'a RollingIndexMap \<Rightarrow> 'a RollingIndexMap" where
  "RollingIndexMap_Reset rim = rim\<lparr>mapping := rim_fresh (rim_size rim) (rim_keys rim)\<rparr>"

section \<open>Specification\<close>

text \<open>
  \<open>history r base xs\<close>: the index \<open>r\<close> has been given the items \<open>xs\<close> at the indexes
  \<open>base\<close>, \<open>base + 1\<close>, \<dots>, and still holds a suffix of them.
\<close>

definition history :: "'a RollingIndex \<Rightarrow> int \<Rightarrow> 'a list \<Rightarrow> bool" where
  "history r base xs \<longleftrightarrow>
     ri_size r \<ge> 1 \<and> base \<ge> 0 \<and>
     lastIndex r = (if xs = [] then -1 else base + int (length xs) - 1) \<and>
     length (ri_items r) \<le> length xs \<and>
     ri_items r = drop (length xs - length (ri_items r)) xs \<and>
     min (int (length xs)) (ri_size r) \<le> int (length (ri_items r)) \<and>
     int (length (ri_items r)) \<le> 2 * ri_size r"

definition oldest :: "'a RollingIndex \<Rightarrow> int" where
  "oldest r = lastIndex r - int (length (ri_items r)) + 1"

fun set_all :: "'a RollingIndex \<Rightarrow> int \<Rightarrow> 'a list \<Rightarrow> StoreErr option list \<times> 'a RollingIndex" where
  "set_all r i [] = ([], r)"
| "set_all r i (x # xs) =
     (let (e, r') = RollingIndex_Set r x i; (es, r'') = set_all r' (i + 1) xs in (e # es, r''))"

section \<open>Lemmas\<close>

lemma history_new: "sz \<ge> 1 \<Longrightarrow> b \<ge> 0 \<Longrightarrow> history (NewRollingIndex sz) b []"
  by (simp add: history_def NewRollingIndex_def)

lemma history_nonempty:
  assumes "history r b xs" "xs \<noteq> []"
  shows "ri_items r \<noteq> []" "0 \<le> lastIndex r" "lastIndex r = b + int (length xs) - 1"
    "oldest r \<le> lastIndex r"
proof -
  have n: "0 < int (length xs)" using assms(2) by simp
  then have m: "0 < int (length (ri_items r))"
    using assms(1) unfolding history_def by linarith
  then show "ri_items r \<noteq> []" by auto
  show l: "lastIndex r = b + int (length xs) - 1" using assms by (simp add: history_def)
  have "0 \<le> b" using assms(1) by (simp add: history_def)
  with l n show "0 \<le> lastIndex r" by linarith
  show "oldest r \<le> lastIndex r" using m unfolding oldest_def by linarith
qed

lemma history_append:
  assumes "history r b xs" "i = b + int (length xs)"
  shows "fst (RollingIndex_Set r x i) = None"
    and "history (snd (RollingIndex_Set r x i)) b (xs @ [x])"
proof -
  have i: "lastIndex r < 0 \<or> i = lastIndex r + 1" and ni: "\<not> (0 \<le> lastIndex r \<and> i > lastIndex r + 1)"
    using assms by (auto simp: history_def split: if_splits)
  show "fst (RollingIndex_Set r x i) = None"
    using i ni by (simp add: RollingIndex_Set_def Let_def)
  let ?n = "length xs" and ?m = "length (ri_items r)"
  have suf: "ri_items r = drop (?n - ?m) xs" and le: "?m \<le> ?n" and sz: "ri_size r \<ge> 1"
    using assms by (simp_all add: history_def)
  show "history (snd (RollingIndex_Set r x i)) b (xs @ [x])"
  proof (cases "int ?m \<ge> 2 * ri_size r")
    case True
    have "drop (nat (ri_size r)) (ri_items r) = drop (nat (ri_size r) + (?n - ?m)) xs"
      by (subst suf) simp
    moreover have "nat (ri_size r) \<le> ?m" using True sz by linarith
    ultimately show ?thesis
      using True i ni assms
      by (auto simp: RollingIndex_Set_def RollingIndex_Roll_def history_def Let_def algebra_simps
          of_nat_diff)
  next
    case False
    then show ?thesis
      using i ni assms by (auto simp: RollingIndex_Set_def history_def Let_def Suc_diff_le)
  qed
qed

lemma history_oldest:
  assumes "history r b xs" "xs \<noteq> []"
  shows "oldest r = b + int (length xs - length (ri_items r))"
  using assms by (simp add: history_def oldest_def)

text \<open>An index of the window reads the item the history has there.\<close>

lemma history_GetItem:
  assumes "history r b xs" "xs \<noteq> []"
  shows "RollingIndex_GetItem r i =
    (if i < oldest r then Inl (NewStoreErr TooLate (itoa i))
     else if i > lastIndex r then Inl (NewStoreErr KeyNotFound (itoa i))
     else Inr (xs ! nat (i - b)))"
proof -
  let ?n = "length xs" and ?m = "length (ri_items r)"
  have suf: "ri_items r = drop (?n - ?m) xs" and le: "?m \<le> ?n"
    using assms by (simp_all add: history_def)
  have "ri_items r ! nat (i - oldest r) = xs ! nat (i - b)"
    if "oldest r \<le> i" "i \<le> lastIndex r"
  proof -
    have "nat (i - oldest r) < ?m" using that by (simp add: oldest_def)
    moreover have "(?n - ?m) + nat (i - oldest r) = nat (i - b)"
      using that history_oldest [OF assms] by simp
    ultimately show ?thesis by (subst suf) (simp add: le nth_drop)
  qed
  then show ?thesis
    by (auto simp: RollingIndex_GetItem_def Let_def oldest_def)
qed

lemma history_Get:
  assumes "history r b xs" "xs \<noteq> []"
  shows "RollingIndex_Get r skip =
    (if skip > lastIndex r then Inr []
     else if skip + 1 < oldest r then Inl (NewStoreErr TooLate (itoa skip))
     else Inr (drop (nat (skip + 1 - b)) xs))"
proof -
  let ?n = "length xs" and ?m = "length (ri_items r)"
  have suf: "ri_items r = drop (?n - ?m) xs" and le: "?m \<le> ?n"
    using assms by (simp_all add: history_def)
  have "drop (nat (skip - oldest r + 1)) (ri_items r) = drop (nat (skip + 1 - b)) xs"
    if "oldest r \<le> skip + 1"
  proof -
    have "nat (skip - oldest r + 1) + (?n - ?m) = nat (skip + 1 - b)"
      using that history_oldest [OF assms] by simp
    then show ?thesis by (subst suf) simp
  qed
  then show ?thesis
    by (auto simp: RollingIndex_Get_def Let_def oldest_def)
qed

lemma history_replace:
  assumes "history r b xs" "oldest r \<le> i" "i \<le> lastIndex r" "xs \<noteq> []"
  shows "fst (RollingIndex_Set r x i) = None"
    and "history (snd (RollingIndex_Set r x i)) b (xs[nat (i - b) := x])"
proof -
  let ?n = "length xs" and ?m = "length (ri_items r)"
  have suf: "ri_items r = drop (?n - ?m) xs" and le: "?m \<le> ?n"
    using assms by (simp_all add: history_def)
  note last = history_nonempty(2) [OF assms(1,4)]
  have set: "RollingIndex_Set r x i = (None, r\<lparr>ri_items := (ri_items r)[nat (i - oldest r) := x]\<rparr>)"
    using assms(2,3) last by (simp add: RollingIndex_Set_def oldest_def Let_def)
  then show "fst (RollingIndex_Set r x i) = None" by simp
  have "nat (i - b) = (?n - ?m) + nat (i - oldest r)"
    using assms(2) history_oldest [OF assms(1,4)] by simp
  then have "(ri_items r)[nat (i - oldest r) := x] = drop (?n - ?m) (xs[nat (i - b) := x])"
    by (subst suf) (simp add: drop_update_swap)
  then show "history (snd (RollingIndex_Set r x i)) b (xs[nat (i - b) := x])"
    using assms(1,4) set unfolding history_def by simp
qed

lemma history_set_all:
  assumes "history r b xs" "i = b + int (length xs)"
  shows "set (fst (set_all r i ys)) \<subseteq> {None}" "history (snd (set_all r i ys)) b (xs @ ys)"
proof -
  have "set (fst (set_all r i ys)) \<subseteq> {None} \<and> history (snd (set_all r i ys)) b (xs @ ys)"
    using assms
  proof (induction ys arbitrary: r i xs)
    case (Cons y ys)
    note h = history_append [OF Cons.prems, of y]
    show ?case
      using h(1) Cons.IH [OF h(2), of "i + 1"] Cons.prems(2)
      by (auto simp: Let_def split: prod.split)
  qed simp
  then show "set (fst (set_all r i ys)) \<subseteq> {None}" "history (snd (set_all r i ys)) b (xs @ ys)"
    by auto
qed

lemma ri_size_Set [simp]: "ri_size (snd (RollingIndex_Set r x i)) = ri_size r"
  by (simp add: RollingIndex_Set_def RollingIndex_Roll_def Let_def)

lemma ri_size_set_all [simp]: "ri_size (snd (set_all r i ys)) = ri_size r"
  by (induction ys arbitrary: r i) (simp_all add: Let_def case_prod_beta)

text \<open>The family: a fresh map has an empty index at every key.\<close>

lemma map_of_rim_fresh:
  "map_of (rim_fresh sz keys) k = (if k \<in> set keys then Some (NewRollingIndex sz) else None)"
  by (simp add: rim_fresh_def map_of_fold_update)

lemma distinct_rim_fresh: "distinct (map fst (rim_fresh sz keys))"
  by (simp add: rim_fresh_def distinct_fold_update)

lemma RollingIndexMap_Set_other:
  "k \<noteq> key \<Longrightarrow> map_of (mapping (snd (RollingIndexMap_Set rim key x i))) k = map_of (mapping rim) k"
  by (simp add: RollingIndexMap_Set_def Let_def split: prod.split)

lemma RollingIndexMap_Set_same:
  assumes "map_of (mapping rim) key = Some r"
  shows "map_of (mapping (snd (RollingIndexMap_Set rim key x i))) key = Some (snd (RollingIndex_Set r x i))"
    and "fst (RollingIndexMap_Set rim key x i) = fst (RollingIndex_Set r x i)"
  using assms by (simp_all add: RollingIndexMap_Set_def Let_def split: prod.split)

lemma map_of_Known:
  "map_of (RollingIndexMap_Known rim) k = map_option lastIndex (map_of (mapping rim) k)"
  by (simp add: RollingIndexMap_Known_def RollingIndex_GetLastWindow_def map_of_map_snd)

lemma RollingIndexMap_GetLast_history:
  assumes "map_of (mapping rim) k = Some r" "history r b xs"
  shows "RollingIndexMap_GetLast rim k = Inr (if xs = [] then None else Some (last xs))"
proof (cases "xs = []")
  case False
  then have "ri_items r \<noteq> []" using assms(2) history_nonempty by blast
  moreover from this have "last (ri_items r) = last xs"
    using assms(2) unfolding history_def by (metis last_drop drop_eq_Nil not_le)
  ultimately show ?thesis
    using assms(1) False
    by (simp add: RollingIndexMap_GetLast_def RollingIndex_GetLastWindow_def last_conv_nth)
qed (use assms in \<open>simp add: RollingIndexMap_GetLast_def RollingIndex_GetLastWindow_def history_def\<close>)

section \<open>Properties\<close>



text \<open>
  Claim C18.  \<^verbatim>\<open>Set\<close> on an index that holds items fails exactly on an index that would leave a gap
  (\<^verbatim>\<open>SkippedIndex\<close>) or has been rolled away (\<^verbatim>\<open>TooLate\<close>), and then changes nothing; otherwise it
  appends the item at the next index or replaces the item at a remembered one, and the
  window stays a suffix of the history so updated.
\<close>

theorem RollingIndex_Set_history:
  assumes "history r b xs" "xs \<noteq> []"
  shows "RollingIndex_Set r x i =
      (if i > lastIndex r + 1 then (Some (NewStoreErr SkippedIndex (itoa i)), r)
       else if i < oldest r then (Some (NewStoreErr TooLate (itoa i)), r)
       else (None, snd (RollingIndex_Set r x i))) \<and>
    (oldest r \<le> i \<and> i \<le> lastIndex r + 1 \<longrightarrow>
       history (snd (RollingIndex_Set r x i)) b
         (if i = lastIndex r + 1 then xs @ [x] else xs[nat (i - b) := x]))"
proof -
  note last = history_nonempty(3,2,4) [OF assms]
  show ?thesis
  proof (cases "oldest r \<le> i \<and> i \<le> lastIndex r + 1")
    case False
    then show ?thesis using last by (auto simp: RollingIndex_Set_def oldest_def Let_def)
  next
    case True
    show ?thesis
      using True last history_append [OF assms(1), of i x] history_replace [OF assms(1) _ _ assms(2), of i x]
      by (auto simp: prod_eq_iff)
  qed
qed

theorem RollingIndex_Set_history_witness:
  "history \<lparr>ri_size = 1, lastIndex = 3, ri_items = ''cd''\<rparr> 0 ''abcd'' \<and>
   fst (RollingIndex_Set \<lparr>ri_size = 1, lastIndex = 3, ri_items = ''cd''\<rparr> CHR ''x'' 1)
     = Some (NewStoreErr TooLate (itoa 1)) \<and>
   history (snd (RollingIndex_Set \<lparr>ri_size = 1, lastIndex = 3, ri_items = ''cd''\<rparr> CHR ''x'' 3)) 0 ''abcx''"
proof -
  have h: "history \<lparr>ri_size = 1, lastIndex = 3, ri_items = ''cd''\<rparr> 0 ''abcd''"
    by (simp add: history_def)
  show ?thesis
    using h RollingIndex_Set_history [OF h, of "CHR ''x''" 1]
      RollingIndex_Set_history [OF h, of "CHR ''x''" 3]
    by (simp add: oldest_def)
qed

end
