(* ===== verification/MemStore.thy ===== *)
theory MemStore
  imports StoreIface Lru RollingIndex
begin

text \<open>
  The stores of \<^verbatim>\<open>src/storage\<close> that live in memory: the two per-participant caches of
  \<^verbatim>\<open>caches.go\<close> and the \<^verbatim>\<open>InmemStore\<close> of \<^verbatim>\<open>memory_store.go\<close>, which the database-backed store uses
  as its cache.  \<open>inmem\<close> is its table of operations for the interface \<^verbatim>\<open>Store\<close>; the
  interpretation at the end shows that it keeps the contract \<open>comet_store\<close> the consensus code
  relies on, as long as no comet has been evicted.
\<close>

section \<open>Caches per participant\<close>

record ParticipantEventsCache =
  pec_participants :: "(string, int) gomap"
  pec_rim :: "string RollingIndexMap"

definition getValues :: "(string, int) gomap \<Rightarrow> int list" where
  "getValues m = map snd m"

definition NewParticipantEventsCache :: "int \<Rightarrow> (string, int) gomap \<Rightarrow> ParticipantEventsCache" where
  "NewParticipantEventsCache sz participants =
     \<lparr>pec_participants = participants, pec_rim = NewRollingIndexMap sz (getValues participants)\<rparr>"

definition participantID :: "(string, int) gomap \<Rightarrow> string \<Rightarrow> (StoreErr, int) result" where
  "participantID participants participant = (case map_of participants participant of
     None \<Rightarrow> Inl (NewStoreErr UnknownParticipant participant)
   | Some pid \<Rightarrow> Inr pid)"

definition ParticipantEventsCache_Get ::
    "ParticipantEventsCache \<Rightarrow> string \<Rightarrow> int \<Rightarrow> (StoreErr, string list) result" where
  "ParticipantEventsCache_Get pec participant skipIndex =
     (case participantID (pec_participants pec) participant of
        Inl e \<Rightarrow> Inl e
      | Inr pid \<Rightarrow> RollingIndexMap_Get (pec_rim pec) pid skipIndex)"

definition ParticipantEventsCache_GetItem ::
    "ParticipantEventsCache \<Rightarrow> string \<Rightarrow> int \<Rightarrow> (StoreErr, string) result option" where
  "ParticipantEventsCache_GetItem pec participant index =
     (case participantID (pec_participants pec) participant of
        Inl e \<Rightarrow> Some (Inl e)
      | Inr pid \<Rightarrow> RollingIndexMap_GetItem (pec_rim pec) pid index)"

definition ParticipantEventsCache_GetLast ::
    "ParticipantEventsCache \<Rightarrow> string \<Rightarrow> (StoreErr, string) result" where
  "ParticipantEventsCache_GetLast pec participant =
     (case participantID (pec_participants pec) participant of
        Inl e \<Rightarrow> Inl e
      | Inr pid \<Rightarrow> (case RollingIndexMap_GetLast (pec_rim pec) pid of
          Inl e \<Rightarrow> Inl e
        | Inr None \<Rightarrow> Inr []
        | Inr (Some l) \<Rightarrow> Inr l))"

definition ParticipantEventsCache_Set ::
    "ParticipantEventsCache \<Rightarrow> string \<Rightarrow> string \<Rightarrow> int \<Rightarrow> StoreErr option \<times> ParticipantEventsCache" where
  "ParticipantEventsCache_Set pec participant hash index =
     (case participantID (pec_participants pec) participant of
        Inl e \<Rightarrow> (Some e, pec)
      | Inr pid \<Rightarrow>
          let (err, rim) = RollingIndexMap_Set (pec_rim pec) pid hash index
          in (err, pec\<lparr>pec_rim := rim\<rparr>))"

definition ParticipantEventsCache_Known :: "ParticipantEventsCache \<Rightarrow> (int, int) gomap" where
  "ParticipantEventsCache_Known pec = RollingIndexMap_Known (pec_rim pec)"

definition ParticipantEventsCache_Reset :: "ParticipantEventsCache \<Rightarrow> ParticipantEventsCache" where
  "ParticipantEventsCache_Reset pec = pec\<lparr>pec_rim := RollingIndexMap_Reset (pec_rim pec)\<rparr>"

record ParticipantBlockSignaturesCache =
  psc_participants :: "(string, int) gomap"
  psc_rim :: "BlockSignature RollingIndexMap"

definition NewParticipantBlockSignaturesCache ::
    "int \<Rightarrow> (string, int) gomap \<Rightarrow> ParticipantBlockSignaturesCache" where
  "NewParticipantBlockSignaturesCache sz participants =
     \<lparr>psc_participants = participants, psc_rim = NewRollingIndexMap sz (getValues participants)\<rparr>"

definition ParticipantBlockSignaturesCache_Get ::
    "ParticipantBlockSignaturesCache \<Rightarrow> string \<Rightarrow> int \<Rightarrow> (StoreErr, BlockSignature list) result" where
  "ParticipantBlockSignaturesCache_Get psc participant skipIndex =
     (case participantID (psc_participants psc) participant of
        Inl e \<Rightarrow> Inl e
      | Inr pid \<Rightarrow> RollingIndexMap_Get (psc_rim psc) pid skipIndex)"

definition ParticipantBlockSignaturesCache_GetItem ::
    "ParticipantBlockSignaturesCache \<Rightarrow> string \<Rightarrow> int \<Rightarrow> (StoreErr, BlockSignature) result option" where
  "ParticipantBlockSignaturesCache_GetItem psc participant index =
     (case participantID (psc_participants psc) participant of
        Inl e \<Rightarrow> Some (Inl e)
      | Inr pid \<Rightarrow> RollingIndexMap_GetItem (psc_rim psc) pid index)"

text \<open>An unknown participant reads as id zero, and an empty window fails the type assertion.\<close>

definition ParticipantBlockSignaturesCache_GetLast ::
    "ParticipantBlockSignaturesCache \<Rightarrow> string \<Rightarrow> (StoreErr, BlockSignature) result option" where
  "ParticipantBlockSignaturesCache_GetLast psc participant =
     (case RollingIndexMap_GetLast (psc_rim psc) (lookup0 (psc_participants psc) participant) of
        Inl e \<Rightarrow> Some (Inl e)
      | Inr None \<Rightarrow> None
      | Inr (Some l) \<Rightarrow> Some (Inr l))"

definition ParticipantBlockSignaturesCache_Set ::
    "ParticipantBlockSignaturesCache \<Rightarrow> string \<Rightarrow> BlockSignature \<Rightarrow>
       StoreErr option \<times> ParticipantBlockSignaturesCache" where
  "ParticipantBlockSignaturesCache_Set psc participant sig =
     (case participantID (psc_participants psc) participant of
        Inl e \<Rightarrow> (Some e, psc)
      | Inr pid \<Rightarrow>
          let (err, rim) = RollingIndexMap_Set (psc_rim psc) pid sig (bs_Index sig)
          in (err, psc\<lparr>psc_rim := rim\<rparr>))"

section \<open>InmemStore\<close>

record InmemStore =
  cacheSize :: int
  participants :: "(string, int) gomap"
  eventCache :: "(string, Comet) LRU"
  roundCache :: "(int, RoundInfo) LRU"
  blockCache :: "(int, Block) LRU"
  consensusCache :: "string RollingIndex"
  totConsensusEvents :: int
  participantEventsCache :: ParticipantEventsCache
  roots :: "(string, Root) gomap"
  lastRound :: int

definition NewInmemStore :: "(string, int) gomap \<Rightarrow> int \<Rightarrow> InmemStore" where
  "NewInmemStore ps sz =
     \<lparr>cacheSize = sz, participants = ps, eventCache = NewLRU sz, roundCache = NewLRU sz,
      blockCache = NewLRU sz, consensusCache = NewRollingIndex sz, totConsensusEvents = 0,
      participantEventsCache = NewParticipantEventsCache sz ps,
      roots = fold (\<lambda>pk rs. AList.update pk NewBaseRoot rs) (map fst ps) [],
      lastRound = -1\<rparr>"

definition InmemStore_CacheSize :: "InmemStore \<Rightarrow> int" where
  "InmemStore_CacheSize s = cacheSize s"

definition InmemStore_GetComet :: "string \<Rightarrow> InmemStore \<Rightarrow> (StoreErr, Comet) result \<times> InmemStore" where
  "InmemStore_GetComet key s =
     (let (res, c) = LRU_Get (eventCache s) key; s' = s\<lparr>eventCache := c\<rparr>
      in case res of
           None \<Rightarrow> (Inl (NewStoreErr KeyNotFound key), s')
         | Some comet \<Rightarrow> (Inr comet, s'))"

definition InmemStore_addParticpantEvent ::
    "string \<Rightarrow> string \<Rightarrow> int \<Rightarrow> InmemStore \<Rightarrow> StoreErr option \<times> InmemStore" where
  "InmemStore_addParticpantEvent participant hash index s =
     (let (err, pec) = ParticipantEventsCache_Set (participantEventsCache s) participant hash index
      in (err, s\<lparr>participantEventsCache := pec\<rparr>))"

definition InmemStore_SetComet :: "crypto \<Rightarrow> Comet \<Rightarrow> InmemStore \<Rightarrow> StoreErr option \<times> InmemStore" where
  "InmemStore_SetComet cr event s =
     (let key = Comet_Hex cr event;
          (r, s) = InmemStore_GetComet key s;
          err = (case r of Inl e \<Rightarrow> Some e | Inr _ \<Rightarrow> None)
      in if err \<noteq> None \<and> \<not> err_Is err KeyNotFound then (err, s)
         else
           let (err', s) = (if err_Is err KeyNotFound
                 then InmemStore_addParticpantEvent (Comet_Creator event) key (Comet_Index event) s
                 else (None, s))
           in if err' \<noteq> None then (err', s)
              else (None, s\<lparr>eventCache := snd (LRU_Add (eventCache s) key event)\<rparr>))"

definition InmemStore_ParticipantEvents ::
    "string \<Rightarrow> int \<Rightarrow> InmemStore \<Rightarrow> (StoreErr, string list) result" where
  "InmemStore_ParticipantEvents participant skip s =
     ParticipantEventsCache_Get (participantEventsCache s) participant skip"

definition InmemStore_ParticipantEvent ::
    "string \<Rightarrow> int \<Rightarrow> InmemStore \<Rightarrow> (StoreErr, string) result option" where
  "InmemStore_ParticipantEvent participant index s =
     ParticipantEventsCache_GetItem (participantEventsCache s) participant index"

definition InmemStore_LastEventFrom :: "string \<Rightarrow> InmemStore \<Rightarrow> string \<times> bool \<times> StoreErr option" where
  "InmemStore_LastEventFrom participant s =
     (case ParticipantEventsCache_GetLast (participantEventsCache s) participant of
        Inl err \<Rightarrow> ([], False, Some err)
      | Inr lst \<Rightarrow>
          if lst = [] then
            (case map_of (roots s) participant of
               Some root \<Rightarrow> (root_X root, True, None)
             | None \<Rightarrow> (lst, False, Some (NewStoreErr NoRoot participant)))
          else (lst, False, None))"

definition InmemStore_KnownEvents :: "InmemStore \<Rightarrow> (int, int) gomap" where
  "InmemStore_KnownEvents s = ParticipantEventsCache_Known (participantEventsCache s)"

definition InmemStore_ConsensusEvents :: "InmemStore \<Rightarrow> string list" where
  "InmemStore_ConsensusEvents s = fst (RollingIndex_GetLastWindow (consensusCache s))"

definition InmemStore_ConsensusEventsCount :: "InmemStore \<Rightarrow> int" where
  "InmemStore_ConsensusEventsCount s = totConsensusEvents s"

definition InmemStore_AddConsensusEvent :: "string \<Rightarrow> InmemStore \<Rightarrow> StoreErr option \<times> InmemStore" where
  "InmemStore_AddConsensusEvent key s =
     (None, s\<lparr>consensusCache := snd (RollingIndex_Set (consensusCache s) key (totConsensusEvents s)),
              totConsensusEvents := totConsensusEvents s + 1\<rparr>)"

definition InmemStore_GetRound :: "int \<Rightarrow> InmemStore \<Rightarrow> (RoundInfo \<times> StoreErr option) \<times> InmemStore" where
  "InmemStore_GetRound r s =
     (let (res, c) = LRU_Get (roundCache s) r; s' = s\<lparr>roundCache := c\<rparr>
      in case res of
           None \<Rightarrow> ((NewRoundInfo, Some (NewStoreErr KeyNotFound (itoa r))), s')
         | Some round \<Rightarrow> ((round, None), s'))"

definition InmemStore_SetRound :: "int \<Rightarrow> RoundInfo \<Rightarrow> InmemStore \<Rightarrow> StoreErr option \<times> InmemStore" where
  "InmemStore_SetRound r round s =
     (let s = s\<lparr>roundCache := snd (LRU_Add (roundCache s) r round)\<rparr>
      in (None, if r > lastRound s then s\<lparr>lastRound := r\<rparr> else s))"

definition InmemStore_LastRound :: "InmemStore \<Rightarrow> int" where
  "InmemStore_LastRound s = lastRound s"

definition InmemStore_RoundWitnesses :: "int \<Rightarrow> InmemStore \<Rightarrow> string list \<times> InmemStore" where
  "InmemStore_RoundWitnesses r s =
     (let ((round, err), s) = InmemStore_GetRound r s
      in (if err \<noteq> None then [] else RoundInfo_Witnesses round, s))"

definition InmemStore_RoundEvents :: "int \<Rightarrow> InmemStore \<Rightarrow> int \<times> InmemStore" where
  "InmemStore_RoundEvents r s =
     (let ((round, err), s) = InmemStore_GetRound r s
      in (if err \<noteq> None then 0 else int (length (Events round)), s))"

definition InmemStore_GetRoot :: "string \<Rightarrow> InmemStore \<Rightarrow> (StoreErr, Root) result" where
  "InmemStore_GetRoot participant s = (case map_of (roots s) participant of
     None \<Rightarrow> Inl (NewStoreErr KeyNotFound participant)
   | Some res \<Rightarrow> Inr res)"

definition InmemStore_GetBlock :: "int \<Rightarrow> InmemStore \<Rightarrow> (StoreErr, Block) result \<times> InmemStore" where
  "InmemStore_GetBlock index s =
     (let (res, c) = LRU_Get (blockCache s) index; s' = s\<lparr>blockCache := c\<rparr>
      in case res of
           None \<Rightarrow> (Inl (NewStoreErr KeyNotFound (itoa index)), s')
         | Some block \<Rightarrow> (Inr block, s'))"

definition InmemStore_SetBlock :: "Block \<Rightarrow> InmemStore \<Rightarrow> StoreErr option \<times> InmemStore" where
  "InmemStore_SetBlock block s =
     (let (r, s) = InmemStore_GetBlock (Block_Index block) s;
          err = (case r of Inl e \<Rightarrow> Some e | Inr _ \<Rightarrow> None)
      in if err \<noteq> None \<and> \<not> err_Is err KeyNotFound then (err, s)
         else (None, s\<lparr>blockCache := snd (LRU_Add (blockCache s) (Block_Index block) block)\<rparr>))"

definition InmemStore_Reset :: "(string, Root) gomap \<Rightarrow> InmemStore \<Rightarrow> StoreErr option \<times> InmemStore" where
  "InmemStore_Reset rs s =
     (None, s\<lparr>roots := rs, eventCache := NewLRU (cacheSize s), roundCache := NewLRU (cacheSize s),
              consensusCache := NewRollingIndex (cacheSize s),
              participantEventsCache := ParticipantEventsCache_Reset (participantEventsCache s),
              lastRound := -1\<rparr>)"

definition inmem :: "crypto \<Rightarrow> InmemStore Store" where
  "inmem cr =
     \<lparr>st_CacheSize = InmemStore_CacheSize,
      st_GetComet = InmemStore_GetComet,
      st_SetComet = InmemStore_SetComet cr,
      st_ParticipantEvents = InmemStore_ParticipantEvents,
      st_ParticipantEvent = InmemStore_ParticipantEvent,
      st_LastEventFrom = InmemStore_LastEventFrom,
      st_KnownEvents = InmemStore_KnownEvents,
      st_ConsensusEvents = InmemStore_ConsensusEvents,
      st_ConsensusEventsCount = InmemStore_ConsensusEventsCount,
      st_AddConsensusEvent = InmemStore_AddConsensusEvent,
      st_GetRound = InmemStore_GetRound,
      st_SetRound = InmemStore_SetRound,
      st_LastRound = InmemStore_LastRound,
      st_RoundWitnesses = InmemStore_RoundWitnesses,
      st_RoundEvents = InmemStore_RoundEvents,
      st_GetRoot = InmemStore_GetRoot,
      st_GetBlock = InmemStore_GetBlock,
      st_SetBlock = InmemStore_SetBlock,
      st_Reset = InmemStore_Reset\<rparr>"

section \<open>Specification\<close>

definition last_of :: "string RollingIndex \<Rightarrow> (string \<times> int) option" where
  "last_of r = (if ri_items r = [] then None else Some (last (ri_items r), lastIndex r))"

definition inmem_last :: "InmemStore \<Rightarrow> string \<Rightarrow> (string \<times> int) option option" where
  "inmem_last s p = (case map_of (participants s) p of
     None \<Rightarrow> None
   | Some pid \<Rightarrow> map_option last_of (map_of (mapping (pec_rim (participantEventsCache s))) pid))"

definition inmem_view :: "InmemStore \<Rightarrow> store_view" where
  "inmem_view s =
     \<lparr>v_comets = (\<lambda>k. map_option core (LRU_Peek (eventCache s) k)),
      v_last = inmem_last s,
      v_roots = map_of (roots s),
      v_rounds = LRU_Peek (roundCache s),
      v_lastRound = lastRound s,
      v_blocks = LRU_Peek (blockCache s),
      v_cap = Some (cacheSize s)\<rparr>"

text \<open>The participant events cache has a rolling index with a proper history for every participant.\<close>

definition pec_ok :: "int \<Rightarrow> (string, int) gomap \<Rightarrow> ParticipantEventsCache \<Rightarrow> bool" where
  "pec_ok sz ps pec \<longleftrightarrow>
     pec_participants pec = ps \<and> distinct (map snd ps) \<and>
     (\<forall>p pid. map_of ps p = Some pid \<longrightarrow>
        (\<exists>r b xs. map_of (mapping (pec_rim pec)) pid = Some r \<and> history r b xs \<and> [] \<notin> set xs))"

definition inmem_ok :: "InmemStore \<Rightarrow> bool" where
  "inmem_ok s \<longleftrightarrow>
     1 \<le> cacheSize s \<and>
     LRU_inv (eventCache s) \<and> lru_size (eventCache s) = cacheSize s \<and>
     LRU_inv (roundCache s) \<and> lru_size (roundCache s) = cacheSize s \<and>
     LRU_inv (blockCache s) \<and> lru_size (blockCache s) = cacheSize s \<and>
     pec_ok (cacheSize s) (participants s) (participantEventsCache s)"

section \<open>Lemmas\<close>

lemma NewInmemStore_ok:
  assumes "1 \<le> sz" "distinct (map snd ps)"
  shows "inmem_ok (NewInmemStore ps sz)"
proof -
  have "snd e \<in> set (getValues ps)" if "e \<in> set ps" for e using that by (simp add: getValues_def)
  then have "map_of ps p = Some pid \<Longrightarrow> pid \<in> set (getValues ps)" for p pid
    by (metis map_of_SomeD snd_conv)
  then show ?thesis
    using assms history_new [OF assms(1), of 0]
    by (auto simp: inmem_ok_def NewInmemStore_def pec_ok_def NewParticipantEventsCache_def
        NewRollingIndexMap_def map_of_rim_fresh intro!: exI [of _ 0] exI [of _ "[]"])
      (simp_all add: NewLRU_def)
qed

lemma history_last_of:
  "history r b xs \<Longrightarrow> last_of r = (if xs = [] then None else Some (last xs, lastIndex r))"
proof (cases "xs = []")
  case False
  assume h: "history r b xs"
  have "ri_items r \<noteq> []" using history_nonempty(1) [OF h False] .
  moreover from this have "last (ri_items r) = last xs"
    using h unfolding history_def by (metis last_drop drop_eq_Nil not_le)
  ultimately show ?thesis using False by (simp add: last_of_def)
qed (simp add: history_def last_of_def)

lemma inmem_last_cong [simp]:
  "inmem_last (s\<lparr>eventCache := c\<rparr>) = inmem_last s"
  "inmem_last (s\<lparr>roundCache := d\<rparr>) = inmem_last s"
  "inmem_last (s\<lparr>blockCache := e\<rparr>) = inmem_last s"
  "inmem_last (s\<lparr>lastRound := i\<rparr>) = inmem_last s"
  by (rule ext, simp add: inmem_last_def split: option.split)+

lemma inmem_GetComet:
  assumes "inmem_ok s" "InmemStore_GetComet k s = (r, s')"
  shows "inmem_ok s'" "inmem_view s' = inmem_view s"
    "r = (case LRU_Peek (eventCache s) k of
       None \<Rightarrow> Inl (NewStoreErr KeyNotFound k) | Some c \<Rightarrow> Inr c)"
    "participantEventsCache s' = participantEventsCache s" "participants s' = participants s"
    "LRU_Peek (eventCache s') = LRU_Peek (eventCache s)" "cacheSize s' = cacheSize s"
proof -
  have inv: "LRU_inv (eventCache s)" using assms(1) by (simp add: inmem_ok_def)
  have s': "s' = s\<lparr>eventCache := snd (LRU_Get (eventCache s) k)\<rparr>"
    and r: "r = (case fst (LRU_Get (eventCache s) k) of
       None \<Rightarrow> Inl (NewStoreErr KeyNotFound k) | Some c \<Rightarrow> Inr c)"
    using assms(2) by (auto simp: InmemStore_GetComet_def Let_def split: prod.splits option.splits)
  show "inmem_ok s'"
    using assms(1) LRU_Get_inv [OF inv, of k] by (simp add: inmem_ok_def s')
  show "r = (case LRU_Peek (eventCache s) k of
       None \<Rightarrow> Inl (NewStoreErr KeyNotFound k) | Some c \<Rightarrow> Inr c)"
    using r LRU_Get_Peek [OF LRU_inv_rep [OF inv]] by simp
  show "inmem_view s' = inmem_view s" "participantEventsCache s' = participantEventsCache s"
    "participants s' = participants s" "cacheSize s' = cacheSize s"
    "LRU_Peek (eventCache s') = LRU_Peek (eventCache s)"
    using LRU_Get_view [OF inv, of k] by (simp_all add: inmem_view_def s')
qed

lemma history_first: "history r b [] \<Longrightarrow> 0 \<le> i \<Longrightarrow> history r i []"
  by (simp add: history_def)

lemma map_of_snd_inj:
  assumes "distinct (map snd ps)" "map_of ps p = Some i" "map_of ps q = Some i"
  shows "p = q"
proof -
  have "inj_on snd (set ps)" using assms(1) by (simp add: distinct_map)
  from inj_onD [OF this, of "(p, i)" "(q, i)"] show ?thesis
    using map_of_SomeD [OF assms(2)] map_of_SomeD [OF assms(3)] by simp
qed

lemma pec_okE:
  assumes "pec_ok sz ps pec" "map_of ps p = Some pid"
  obtains r b xs where "map_of (mapping (pec_rim pec)) pid = Some r" "history r b xs" "[] \<notin> set xs"
  using assms unfolding pec_ok_def by blast

lemma inmem_ok_pec: "inmem_ok s \<Longrightarrow> pec_ok (cacheSize s) (participants s) (participantEventsCache s)"
  by (simp add: inmem_ok_def)

lemma pec_Set_next:
  assumes "pec_ok sz ps pec" "map_of ps p = Some pid" "map_of (mapping (pec_rim pec)) pid = Some r"
    and "history r b xs" "[] \<notin> set xs" "hash \<noteq> []"
    and "xs = [] \<and> 0 \<le> i \<or> xs \<noteq> [] \<and> i = lastIndex r + 1"
  shows "fst (ParticipantEventsCache_Set pec p hash i) = None"
    and "pec_ok sz ps (snd (ParticipantEventsCache_Set pec p hash i))"
    and "\<exists>r'. map_of (mapping (pec_rim (snd (ParticipantEventsCache_Set pec p hash i))))
           = (map_of (mapping (pec_rim pec)))(pid \<mapsto> r') \<and> last_of r' = Some (hash, i)"
proof -
  define b' where "b' = (if xs = [] then i else b)"
  have h: "history r b' xs" and i: "i = b' + int (length xs)"
    using assms(4,7) history_first history_nonempty(3) [OF assms(4)] by (auto simp: b'_def)
  define r' where "r' = snd (RollingIndex_Set r hash i)"
  have s: "fst (RollingIndex_Set r hash i) = None" and h': "history r' b' (xs @ [hash])"
    using history_append [OF h i, of hash] by (simp_all add: r'_def)
  have l: "last_of r' = Some (hash, i)"
    using history_last_of [OF h'] h' i by (simp add: history_def)
  have set: "ParticipantEventsCache_Set pec p hash i
      = (None, pec\<lparr>pec_rim := (pec_rim pec)\<lparr>mapping := AList.update pid r' (mapping (pec_rim pec))\<rparr>\<rparr>)"
    using assms(1-3) s
    by (simp add: ParticipantEventsCache_Set_def participantID_def pec_ok_def RollingIndexMap_Set_def
        r'_def Let_def case_prod_beta)
  show "fst (ParticipantEventsCache_Set pec p hash i) = None" by (simp add: set)
  show "\<exists>r'. map_of (mapping (pec_rim (snd (ParticipantEventsCache_Set pec p hash i))))
      = (map_of (mapping (pec_rim pec)))(pid \<mapsto> r') \<and> last_of r' = Some (hash, i)"
    using l by (auto simp: set)
  have "\<exists>r b xs. map_of (AList.update pid r' (mapping (pec_rim pec))) qid = Some r \<and> history r b xs \<and>
      [] \<notin> set xs" if q: "map_of ps q = Some qid" for q qid
  proof (cases "qid = pid")
    case True
    have "[] \<notin> set (xs @ [hash])" using assms(5,6) by simp
    with True h' show ?thesis by (intro exI [of _ r'] exI [of _ b'] exI [of _ "xs @ [hash]"]) simp
  next
    case False
    then show ?thesis using assms(1) q by (auto simp: pec_ok_def)
  qed
  then show "pec_ok sz ps (snd (ParticipantEventsCache_Set pec p hash i))"
    using assms(1) by (simp add: set pec_ok_def)
qed

lemma inmem_last_cases:
  assumes "inmem_ok s" "inmem_last s p = Some l"
  obtains pid r b xs where "map_of (participants s) p = Some pid"
    "map_of (mapping (pec_rim (participantEventsCache s))) pid = Some r"
    "history r b xs" "[] \<notin> set xs" "l = (if xs = [] then None else Some (last xs, lastIndex r))"
proof -
  obtain pid where pid: "map_of (participants s) p = Some pid"
    using assms(2) by (auto simp: inmem_last_def split: option.splits)
  then obtain r b xs where r: "map_of (mapping (pec_rim (participantEventsCache s))) pid = Some r"
    "history r b xs" "[] \<notin> set xs"
    by (rule pec_okE [OF inmem_ok_pec [OF assms(1)]])
  have "l = last_of r" using assms(2) pid r(1) by (simp add: inmem_last_def)
  then show ?thesis using that [OF pid r] history_last_of [OF r(2)] by simp
qed

lemma inmem_LastEventFrom:
  assumes "inmem_ok s"
  shows "InmemStore_LastEventFrom p s = spec_LastEventFrom (inmem_view s) p"
proof (cases "map_of (participants s) p")
  case None
  then show ?thesis
    using assms
    by (simp add: InmemStore_LastEventFrom_def ParticipantEventsCache_GetLast_def participantID_def
        inmem_ok_def pec_ok_def spec_LastEventFrom_def inmem_view_def inmem_last_def)
next
  case (Some pid)
  then obtain r b xs where r: "map_of (mapping (pec_rim (participantEventsCache s))) pid = Some r"
    "history r b xs" "[] \<notin> set xs"
    by (rule pec_okE [OF inmem_ok_pec [OF assms]])
  have ps: "pec_participants (participantEventsCache s) = participants s"
    using assms by (simp add: inmem_ok_def pec_ok_def)
  have "xs \<noteq> [] \<Longrightarrow> last xs \<noteq> []" using r(3) last_in_set [of xs] by metis
  then show ?thesis
    using Some r(1) history_last_of [OF r(2)] RollingIndexMap_GetLast_history [OF r(1,2)]
    by (auto simp: InmemStore_LastEventFrom_def ParticipantEventsCache_GetLast_def participantID_def
        ps spec_LastEventFrom_def inmem_view_def inmem_last_def split: option.split)
qed

text \<open>The steps of \<^verbatim>\<open>SetComet\<close> after the lookup.\<close>

lemma inmem_SetComet_eq:
  assumes "inmem_ok s"
  obtains s1 where "inmem_ok s1" "inmem_view s1 = inmem_view s"
    "participantEventsCache s1 = participantEventsCache s" "participants s1 = participants s"
    "LRU_Peek (eventCache s1) = LRU_Peek (eventCache s)" "cacheSize s1 = cacheSize s"
    "InmemStore_SetComet cr c s =
       (let (e, pec) = (if LRU_Peek (eventCache s) (Comet_Hex cr c) = None
              then ParticipantEventsCache_Set (participantEventsCache s1) (Comet_Creator c)
                     (Comet_Hex cr c) (Comet_Index c)
              else (None, participantEventsCache s1));
            s2 = s1\<lparr>participantEventsCache := pec\<rparr>
        in (e, if e = None then s2\<lparr>eventCache := snd (LRU_Add (eventCache s2) (Comet_Hex cr c) c)\<rparr> else s2))"
proof -
  obtain r s1 where g: "InmemStore_GetComet (Comet_Hex cr c) s = (r, s1)" by fastforce
  note l = inmem_GetComet [OF assms g]
  have "InmemStore_SetComet cr c s =
       (let (e, pec) = (if LRU_Peek (eventCache s) (Comet_Hex cr c) = None
              then ParticipantEventsCache_Set (participantEventsCache s1) (Comet_Creator c)
                     (Comet_Hex cr c) (Comet_Index c)
              else (None, participantEventsCache s1));
            s2 = s1\<lparr>participantEventsCache := pec\<rparr>
        in (e, if e = None then s2\<lparr>eventCache := snd (LRU_Add (eventCache s2) (Comet_Hex cr c) c)\<rparr> else s2))"
    using g l(3)
    by (auto simp: InmemStore_SetComet_def InmemStore_addParticpantEvent_def Let_def case_prod_beta
        split: option.split)
  from that [OF l(1,2,4,5,6,7) this] show ?thesis .
qed

lemma inmem_room:
  assumes "inmem_ok s" "v_comets (inmem_view s) k \<noteq> None \<or> roomy (inmem_view s)"
  shows "(\<lambda>j. map_option core (LRU_Peek (snd (LRU_Add (eventCache s) k c)) j))
      = (v_comets (inmem_view s))(k \<mapsto> core c)"
proof -
  have inv: "LRU_inv (eventCache s)" and sz: "lru_size (eventCache s) = cacheSize s"
    using assms(1) by (simp_all add: inmem_ok_def)
  have dom: "dom (v_comets (inmem_view s)) = dom (LRU_Peek (eventCache s))"
    by (auto simp: inmem_view_def)
  have "LRU_Peek (eventCache s) k \<noteq> None \<or> LRU_Len (eventCache s) < lru_size (eventCache s)"
    using assms(2) LRU_Len_card [OF LRU_inv_rep [OF inv]] sz dom
    by (auto simp: roomy_def inmem_view_def)
  from LRU_Add_room [OF inv this] show ?thesis by (auto simp: inmem_view_def fun_eq_iff)
qed

lemma inmem_view_eventCache:
  "inmem_view (s\<lparr>eventCache := d\<rparr>) = (inmem_view s)\<lparr>v_comets := (\<lambda>j. map_option core (LRU_Peek d j))\<rparr>"
  by (simp add: inmem_view_def)

lemma inmem_view_pec:
  "inmem_view (s\<lparr>participantEventsCache := d\<rparr>)
     = (inmem_view s)\<lparr>v_last := inmem_last (s\<lparr>participantEventsCache := d\<rparr>)\<rparr>"
  by (simp add: inmem_view_def)

lemma inmem_ok_Add:
  "inmem_ok s \<Longrightarrow> inmem_ok (s\<lparr>eventCache := snd (LRU_Add (eventCache s) k c)\<rparr>)"
  using LRU_Add_inv [of "eventCache s" k c] by (simp add: inmem_ok_def)

lemma inmem_SetComet_old:
  assumes "inmem_ok s" "InmemStore_SetComet cr c s = (e, s')"
    and "v_comets (inmem_view s) (Comet_Hex cr c) \<noteq> None"
  shows "e = None \<and> inmem_ok s' \<and>
    inmem_view s' = (inmem_view s)\<lparr>v_comets := (v_comets (inmem_view s))(Comet_Hex cr c \<mapsto> core c)\<rparr>"
proof -
  obtain s1 where s1: "inmem_ok s1" "inmem_view s1 = inmem_view s"
    "InmemStore_SetComet cr c s =
       (None, s1\<lparr>eventCache := snd (LRU_Add (eventCache s1) (Comet_Hex cr c) c)\<rparr>)"
    by (rule inmem_SetComet_eq [OF assms(1), of cr c]) (use assms(3) in \<open>auto simp: inmem_view_def\<close>)
  have "v_comets (inmem_view s1) (Comet_Hex cr c) \<noteq> None" using assms(3) s1(2) by simp
  then show ?thesis
    using assms(2) s1 inmem_ok_Add [OF s1(1)] inmem_room [OF s1(1), of "Comet_Hex cr c" c]
    by (auto simp: inmem_view_eventCache)
qed

lemma inmem_SetComet_new:
  assumes "inmem_ok s" "InmemStore_SetComet cr c s = (e, s')"
    and "v_comets (inmem_view s) (Comet_Hex cr c) = None" "next_event (inmem_view s) c" "roomy (inmem_view s)"
  shows "e = None \<and> inmem_ok s' \<and>
    inmem_view s' = (inmem_view s)\<lparr>v_comets := (v_comets (inmem_view s))(Comet_Hex cr c \<mapsto> core c),
      v_last := (v_last (inmem_view s))(Comet_Creator c \<mapsto> Some (Comet_Hex cr c, Comet_Index c))\<rparr>"
proof -
  let ?k = "Comet_Hex cr c" and ?p = "Comet_Creator c" and ?i = "Comet_Index c"
  let ?set = "ParticipantEventsCache_Set (participantEventsCache s) ?p ?k ?i"
  obtain s1 where s1: "inmem_ok s1" "inmem_view s1 = inmem_view s"
    "participantEventsCache s1 = participantEventsCache s" "participants s1 = participants s"
    "cacheSize s1 = cacheSize s"
    "InmemStore_SetComet cr c s = (let s2 = s1\<lparr>participantEventsCache := snd ?set\<rparr>
        in (fst ?set, if fst ?set = None then s2\<lparr>eventCache := snd (LRU_Add (eventCache s2) ?k c)\<rparr> else s2))"
    by (rule inmem_SetComet_eq [OF assms(1), of cr c])
      (use assms(3) in \<open>auto simp: inmem_view_def Let_def case_prod_beta\<close>)
  obtain l where l: "inmem_last s ?p = Some l"
    using assms(4) by (auto simp: next_event_def inmem_view_def split: option.splits)
  obtain pid r b xs where r: "map_of (participants s) ?p = Some pid"
    "map_of (mapping (pec_rim (participantEventsCache s))) pid = Some r"
    "history r b xs" "[] \<notin> set xs" "l = (if xs = [] then None else Some (last xs, lastIndex r))"
    by (rule inmem_last_cases [OF assms(1) l])
  have i: "xs = [] \<and> 0 \<le> ?i \<or> xs \<noteq> [] \<and> ?i = lastIndex r + 1"
    using assms(4) l r(5) by (auto simp: next_event_def inmem_view_def split: if_splits)
  note set = pec_Set_next [OF inmem_ok_pec [OF assms(1)] r(1-4) _ i, of ?k, simplified]
  let ?s2 = "s1\<lparr>participantEventsCache := snd ?set\<rparr>"
  have ok2: "inmem_ok ?s2" using s1(1,4,5) set(2) by (simp add: inmem_ok_def)
  obtain r' where r': "map_of (mapping (pec_rim (snd ?set)))
      = (map_of (mapping (pec_rim (participantEventsCache s))))(pid \<mapsto> r')" "last_of r' = Some (?k, ?i)"
    using set(3) by blast
  have last2: "inmem_last ?s2 = (inmem_last s)(?p \<mapsto> Some (?k, ?i))"
  proof
    fix q
    have inj: "map_of (participants s) q = Some pid \<Longrightarrow> q = ?p"
      using map_of_snd_inj [OF _ _ r(1), of q] assms(1) by (simp add: inmem_ok_def pec_ok_def)
    show "inmem_last ?s2 q = ((inmem_last s)(?p \<mapsto> Some (?k, ?i))) q"
    proof (cases "q = ?p")
      case True
      then show ?thesis using r' r(1) s1(4) by (simp add: inmem_last_def)
    next
      case False
      then have "map_of (participants s) q \<noteq> Some pid" using inj by blast
      then show ?thesis
        using False s1(4) by (cases "map_of (participants s) q") (simp_all add: inmem_last_def r'(1))
    qed
  qed
  have v2: "inmem_view ?s2 = (inmem_view s)\<lparr>v_last := inmem_last ?s2\<rparr>"
    by (simp add: inmem_view_pec s1(2))
  have "roomy (inmem_view ?s2)" using assms(5) v2 by (simp add: roomy_def split: option.splits)
  from inmem_room [OF ok2 disjI2, OF this, of ?k c]
  have "inmem_view (?s2\<lparr>eventCache := snd (LRU_Add (eventCache ?s2) ?k c)\<rparr>)
      = (inmem_view ?s2)\<lparr>v_comets := (v_comets (inmem_view s))(?k \<mapsto> core c)\<rparr>"
    unfolding inmem_view_eventCache using v2 by simp
  moreover have "v_last (inmem_view s) = inmem_last s" by (simp add: inmem_view_def)
  ultimately show ?thesis
    using assms(2) s1(6) set(1) inmem_ok_Add [OF ok2, of ?k c] v2 last2 by (auto simp: Let_def)
qed

lemma inmem_SetComet_gap:
  assumes "inmem_ok s" "InmemStore_SetComet cr c s = (e, s')"
    and "v_comets (inmem_view s) (Comet_Hex cr c) = None"
    and "v_last (inmem_view s) (Comet_Creator c) = Some (Some (h, i))" "0 \<le> i" "i + 1 < Comet_Index c"
  shows "e = Some (NewStoreErr SkippedIndex (itoa (Comet_Index c))) \<and> inmem_ok s' \<and>
    inmem_view s' = inmem_view s"
proof -
  let ?k = "Comet_Hex cr c" and ?p = "Comet_Creator c" and ?i = "Comet_Index c"
  let ?set = "ParticipantEventsCache_Set (participantEventsCache s) ?p ?k ?i"
  obtain s1 where s1: "inmem_ok s1" "inmem_view s1 = inmem_view s"
    "participantEventsCache s1 = participantEventsCache s" "participants s1 = participants s"
    "InmemStore_SetComet cr c s = (let s2 = s1\<lparr>participantEventsCache := snd ?set\<rparr>
        in (fst ?set, if fst ?set = None then s2\<lparr>eventCache := snd (LRU_Add (eventCache s2) ?k c)\<rparr> else s2))"
    by (rule inmem_SetComet_eq [OF assms(1), of cr c])
      (use assms(3) in \<open>auto simp: inmem_view_def Let_def case_prod_beta\<close>)
  have l: "inmem_last s ?p = Some (Some (h, i))" using assms(4) by (simp add: inmem_view_def)
  obtain pid r b xs where r: "map_of (participants s) ?p = Some pid"
    "map_of (mapping (pec_rim (participantEventsCache s))) pid = Some r"
    "history r b xs" "[] \<notin> set xs" "Some (h, i) = (if xs = [] then None else Some (last xs, lastIndex r))"
    by (rule inmem_last_cases [OF assms(1) l])
  have i: "lastIndex r = i" using r(5) by (auto split: if_splits)
  have ps: "pec_participants (participantEventsCache s) = participants s"
    using assms(1) by (simp add: inmem_ok_def pec_ok_def)
  have rs: "RollingIndex_Set r ?k ?i = (Some (NewStoreErr SkippedIndex (itoa ?i)), r)"
    using assms(5,6) i by (simp add: RollingIndex_Set_def)
  define pec where "pec = snd ?set"
  have set: "?set = (Some (NewStoreErr SkippedIndex (itoa ?i)), pec)"
    using r(1,2) rs ps
    by (simp add: pec_def ParticipantEventsCache_Set_def participantID_def RollingIndexMap_Set_def Let_def)
  have m: "map_of (mapping (pec_rim pec)) = map_of (mapping (pec_rim (participantEventsCache s)))"
    and pp: "pec_participants pec = participants s"
    using r(1,2) rs ps
    by (auto simp: pec_def ParticipantEventsCache_Set_def participantID_def RollingIndexMap_Set_def Let_def)
  have "inmem_last (s1\<lparr>participantEventsCache := pec\<rparr>) = inmem_last s"
  proof
    fix q
    show "inmem_last (s1\<lparr>participantEventsCache := pec\<rparr>) q = inmem_last s q"
      by (cases "map_of (participants s) q") (simp_all add: inmem_last_def m s1(4))
  qed
  then have "inmem_view (s1\<lparr>participantEventsCache := pec\<rparr>) = inmem_view s"
    using s1(2) unfolding inmem_view_pec by (simp add: inmem_view_def)
  moreover have "inmem_ok (s1\<lparr>participantEventsCache := pec\<rparr>)"
    using s1(1,3,4) pp by (simp add: inmem_ok_def pec_ok_def m)
  ultimately show ?thesis using assms(2) s1(5) set by (auto simp: Let_def)
qed

lemma inmem_GetBlock:
  assumes "inmem_ok s" "InmemStore_GetBlock i s = (b, s')"
  shows "inmem_ok s' \<and> inmem_view s' = inmem_view s \<and>
    b = (case v_blocks (inmem_view s) i of
       None \<Rightarrow> Inl (NewStoreErr KeyNotFound (itoa i)) | Some blk \<Rightarrow> Inr blk)"
proof -
  have inv: "LRU_inv (blockCache s)" using assms(1) by (simp add: inmem_ok_def)
  have s': "s' = s\<lparr>blockCache := snd (LRU_Get (blockCache s) i)\<rparr>"
    and b: "b = (case fst (LRU_Get (blockCache s) i) of
       None \<Rightarrow> Inl (NewStoreErr KeyNotFound (itoa i)) | Some blk \<Rightarrow> Inr blk)"
    using assms(2) by (auto simp: InmemStore_GetBlock_def Let_def split: prod.splits option.splits)
  show ?thesis
    using assms(1) b LRU_Get_inv [OF inv, of i] LRU_Get_view [OF inv, of i]
      LRU_Get_Peek [OF LRU_inv_rep [OF inv], of i]
    by (simp add: s' inmem_ok_def inmem_view_def)
qed

lemma LRU_Add_shows:
  assumes "LRU_inv c" "1 \<le> lru_size c"
  shows "LRU_Peek (snd (LRU_Add c k v)) k = Some v"
proof -
  have rep: "LRU_rep c" using assms(1) by (rule LRU_inv_rep)
  have "(k, v) \<in> set (snd (spec_Add (lru_size c) (recency c) k v))"
  proof (cases "forget k (recency c)")
    case Nil
    then show ?thesis using assms(2) by (simp add: spec_Add_def)
  next
    case (Cons e es)
    then show ?thesis by (simp add: spec_Add_def Let_def)
  qed
  then show ?thesis
    using LRU_Peek_recency [OF LRU_Add_rep [OF rep, of k v], of k v] by (simp add: recency_snd_Add [OF rep])
qed

lemma inmem_SetBlock:
  assumes "inmem_ok s" "InmemStore_SetBlock blk s = (e, s')"
  shows "e = None \<and> inmem_ok s' \<and> v_blocks (inmem_view s') (Block_Index blk) = Some blk \<and>
    (\<exists>m. inmem_view s' = (inmem_view s)\<lparr>v_blocks := m\<rparr>)"
proof -
  obtain b s1 where g: "InmemStore_GetBlock (Block_Index blk) s = (b, s1)" by fastforce
  note l = inmem_GetBlock [OF assms(1) g]
  have inv: "LRU_inv (blockCache s1)" "1 \<le> lru_size (blockCache s1)"
    using l by (simp_all add: inmem_ok_def)
  have "e = None" and s': "s' = s1\<lparr>blockCache := snd (LRU_Add (blockCache s1) (Block_Index blk) blk)\<rparr>"
    using assms(2) g l by (auto simp: InmemStore_SetBlock_def Let_def split: option.splits)
  moreover have "inmem_view s' = (inmem_view s)\<lparr>v_blocks := LRU_Peek (blockCache s')\<rparr>"
    using l by (simp add: s' inmem_view_def)
  ultimately show ?thesis
    using l LRU_Add_shows [OF inv, of "Block_Index blk" blk] LRU_Add_inv [OF inv(1)]
    by (auto simp: inmem_ok_def)
qed

interpretation inmem_store: comet_store "inmem cr" cr inmem_view inmem_ok for cr
proof (unfold_locales, goal_cases)
  case (1 s k r s')
  then show ?case
    using inmem_GetComet [of s k r s']
    by (cases "LRU_Peek (eventCache s) k") (auto simp: inmem_def inmem_view_def)
next
  case (2 s c e s')
  then show ?case by (intro inmem_SetComet_old) (simp_all add: inmem_def)
next
  case (3 s c e s')
  then show ?case by (intro inmem_SetComet_new) (simp_all add: inmem_def)
next
  case (4 s c e s' h i)
  then show ?case using inmem_SetComet_gap [of s cr c e s' h i] by (simp add: inmem_def)
next
  case (5 s p)
  then show ?case by (simp add: inmem_def inmem_LastEventFrom)
next
  case (6 s p)
  then show ?case by (simp add: inmem_def InmemStore_GetRoot_def inmem_view_def)
next
  case (7 s i b s')
  then show ?case by (intro inmem_GetBlock) (simp_all add: inmem_def)
next
  case (8 s blk e s')
  then show ?case by (intro inmem_SetBlock) (simp_all add: inmem_def)
qed

lemma inmem_GetRound:
  assumes "inmem_ok s" "InmemStore_GetRound i s = (r, s')"
  shows "inmem_ok s' \<and> inmem_view s' = inmem_view s \<and>
    r = (case v_rounds (inmem_view s) i of
       None \<Rightarrow> (NewRoundInfo, Some (NewStoreErr KeyNotFound (itoa i))) | Some ri \<Rightarrow> (ri, None))"
proof -
  have inv: "LRU_inv (roundCache s)" using assms(1) by (simp add: inmem_ok_def)
  have s': "s' = s\<lparr>roundCache := snd (LRU_Get (roundCache s) i)\<rparr>"
    and r: "r = (case fst (LRU_Get (roundCache s) i) of
       None \<Rightarrow> (NewRoundInfo, Some (NewStoreErr KeyNotFound (itoa i))) | Some ri \<Rightarrow> (ri, None))"
    using assms(2) by (auto simp: InmemStore_GetRound_def Let_def split: prod.splits option.splits)
  show ?thesis
    using assms(1) r LRU_Get_inv [OF inv, of i] LRU_Get_view [OF inv, of i]
      LRU_Get_Peek [OF LRU_inv_rep [OF inv], of i]
    by (simp add: s' inmem_ok_def inmem_view_def)
qed

lemma inmem_SetRound:
  assumes "inmem_ok s" "InmemStore_SetRound i ri s = (e, s')"
  shows "e = None \<and> inmem_ok s' \<and>
    (\<exists>m. m i = Some ri \<and> (\<forall>k u. m k = Some u \<longrightarrow> k = i \<or> v_rounds (inmem_view s) k = Some u) \<and>
       inmem_view s' = (inmem_view s)\<lparr>v_rounds := m, v_lastRound := max (v_lastRound (inmem_view s)) i\<rparr>)"
proof -
  have inv: "LRU_inv (roundCache s)" "1 \<le> lru_size (roundCache s)"
    using assms(1) by (simp_all add: inmem_ok_def)
  let ?c = "snd (LRU_Add (roundCache s) i ri)"
  have "e = None" and s': "s' = s\<lparr>roundCache := ?c, lastRound := max (lastRound s) i\<rparr>"
    using assms(2) by (auto simp: InmemStore_SetRound_def Let_def)
  moreover have "inmem_ok s'"
    using assms(1) LRU_Add_inv [OF inv(1), of i ri] by (simp add: s' inmem_ok_def)
  moreover have "LRU_Peek ?c i = Some ri" by (rule LRU_Add_shows [OF inv])
  moreover have "k = i \<or> LRU_Peek (roundCache s) k = Some u" if "LRU_Peek ?c k = Some u" for k u
    using LRU_Add_view [OF inv(1) that] by (auto split: if_splits)
  ultimately show ?thesis by (auto simp: inmem_view_def intro!: exI [of _ "LRU_Peek ?c"])
qed

interpretation inmem_consensus: consensus_store "inmem cr" cr inmem_view inmem_ok for cr
proof (unfold_locales, goal_cases)
  case (1 s i r s')
  then show ?case by (intro inmem_GetRound) (simp_all add: inmem_def)
next
  case (2 s i ri e s')
  then show ?case by (intro inmem_SetRound) (simp_all add: inmem_def)
next
  case (3 s i ws s')
  obtain q s1 where "InmemStore_GetRound i s = (q, s1)" by fastforce
  then show ?case
    using 3 inmem_GetRound [of s i q s1]
    by (auto simp: inmem_def InmemStore_RoundWitnesses_def split: option.splits)
next
  case (4 s i n s')
  obtain q s1 where "InmemStore_GetRound i s = (q, s1)" by fastforce
  then show ?case
    using 4 inmem_GetRound [of s i q s1]
    by (auto simp: inmem_def InmemStore_RoundEvents_def split: option.splits)
next
  case (5 s)
  then show ?case by (simp add: inmem_def InmemStore_LastRound_def inmem_view_def)
next
  case (6 s x e s')
  then have s': "e = None" "s' = s\<lparr>consensusCache := snd (RollingIndex_Set (consensusCache s) x (totConsensusEvents s)),
      totConsensusEvents := totConsensusEvents s + 1\<rparr>"
    by (simp_all add: inmem_def InmemStore_AddConsensusEvent_def)
  have "inmem_last s' = inmem_last s" by (rule ext) (simp add: s'(2) inmem_last_def split: option.splits)
  then show ?case using 6(1) s' by (simp add: inmem_ok_def inmem_view_def)
qed

end
