(* ===== verification/GraphInsert.thy ===== *)
theory GraphInsert
  imports GraphSpec MemStore
begin

text \<open>
  The graph code against the meaning of its coordinates.  Inside the contract \<open>comet_store\<close>, for any
  store that keeps it, the ancestry queries are shown to compute reachability and \<^verbatim>\<open>InsertComet\<close> to
  keep the coordinates correct; the properties at the end are their instances for the in-memory
  store.
\<close>

section \<open>The invariant\<close>

text \<open>
  A store view belongs to a graph of participants \<open>ps\<close> when its coordinates are correct, every comet is
  filed under its hash, the latest events are the ends of the chains and the roots are base roots.
\<close>

definition view_ok :: "crypto \<Rightarrow> (string, int) gomap \<Rightarrow> store_view \<Rightarrow> chains \<Rightarrow> bool" where
  "view_ok cr ps v ch \<longleftrightarrow>
     graph_ok ps (v_comets v) ch \<and>
     (\<forall>k c. v_comets v k = Some c \<longrightarrow> Comet_Hex cr c = k) \<and>
     (\<forall>p. v_last v p = (if map_of ps p = None then None
            else Some (if ch p = [] then None else Some (last (ch p), int (length (ch p)) - 1)))) \<and>
     (\<forall>p. map_of ps p \<noteq> None \<longrightarrow> v_roots v p = Some NewBaseRoot)"

text \<open>The participants that have a comet between \<open>y\<close> and \<open>x\<close>.\<close>

definition between :: "comets \<Rightarrow> string \<Rightarrow> string \<Rightarrow> string set" where
  "between C x y = {Comet_Creator c | c z. C z = Some c \<and> anc C x z \<and> anc C z y}"

lemma view_okD:
  assumes "view_ok cr ps v ch"
  shows "graph_ok ps (v_comets v) ch" "members_ok ps" "chains_ok ps (v_comets v) ch"
    "coords_ok ps (v_comets v) ch" "v_comets v k = Some c \<Longrightarrow> Comet_Hex cr c = k"
    "v_last v p = (if map_of ps p = None then None
       else Some (if ch p = [] then None else Some (last (ch p), int (length (ch p)) - 1)))"
    "map_of ps p \<noteq> None \<Longrightarrow> v_roots v p = Some NewBaseRoot"
  using assms by (auto simp: view_ok_def graph_ok_def)

text \<open>The count of \<^verbatim>\<open>stronglySee\<close> is the number of participants with a comet in between.\<close>

lemma count_seen_eq:
  "length las \<le> length fds \<Longrightarrow> count_seen las fds =
     Some (int (card {i. i < length las \<and> ec_Index (las ! i) \<ge> ec_Index (fds ! i)}))"
proof (induction las fds rule: count_seen.induct)
  case (3 la las fd fds)
  let ?A = "{i. i < length las \<and> ec_Index (fds ! i) \<le> ec_Index (las ! i)}"
  have "{i. i < length (la # las) \<and> ec_Index ((fd # fds) ! i) \<le> ec_Index ((la # las) ! i)}
      = (if ec_Index fd \<le> ec_Index la then insert 0 (Suc ` ?A) else Suc ` ?A)"
    by (auto simp: less_Suc_eq_0_disj image_iff)
  moreover have "card (Suc ` ?A) = card ?A" by (simp add: card_image)
  ultimately show ?case using 3 by auto
qed auto

lemma seen_iff_between:
  assumes g: "graph_ok ps C ch" and "C x = Some ex" "C y = Some ey" "map_of ps p = Some i"
  shows "ec_Index (LastAncestors ex ! nat i) \<ge> ec_Index (FirstDescendants ey ! nat i) \<longleftrightarrow> p \<in> between C x y"
proof -
  have chs: "chains_ok ps C ch" and co: "coords_ok ps C ch" using g by (simp_all add: graph_ok_def)
  let ?la = "LastAncestors ex ! nat i" and ?fd = "FirstDescendants ey ! nat i"
  have la: "la_pred (anc C x) (ch p) ?la" using coords_okD(3) [OF co assms(2,4)] .
  have fd: "fd_spec C (ch p) y ?fd" using coords_okD(4) [OF co assms(3,4)] .
  have bet: "p \<in> between C x y \<longleftrightarrow> (\<exists>j < length (ch p). anc C x (ch p ! j) \<and> anc C (ch p ! j) y)"
  proof
    assume "p \<in> between C x y"
    then obtain z c where z: "C z = Some c" "Comet_Creator c = p" "anc C x z" "anc C z y"
      by (auto simp: between_def)
    then show "\<exists>j < length (ch p). anc C x (ch p ! j) \<and> anc C (ch p ! j) y"
      using dom_in_chain [OF chs z(1)] by metis
  next
    assume "\<exists>j < length (ch p). anc C x (ch p ! j) \<and> anc C (ch p ! j) y"
    then show "p \<in> between C x y"
      using chains_okD(2) [OF chs] by (force simp: between_def link_ok_def)
  qed
  have "int (length (ch p)) \<le> MaxInt32" using chains_okD(3) [OF chs] .
  then show ?thesis
  proof (cases "ec_Index ?fd = MaxInt32")
    case True
    then have "\<not> ec_Index ?la \<ge> ec_Index ?fd"
      using la \<open>int (length (ch p)) \<le> MaxInt32\<close> by (simp add: la_pred_def)
    then show ?thesis using True fd by (auto simp: bet fd_spec_def)
  next
    case False
    then have f: "0 \<le> ec_Index ?fd" "ec_Index ?fd < int (length (ch p))"
      "\<And>j. j < length (ch p) \<Longrightarrow> anc C (ch p ! j) y \<longleftrightarrow> ec_Index ?fd \<le> int j"
      using fd by (auto simp: fd_spec_def)
    have l: "\<And>j. j < length (ch p) \<Longrightarrow> anc C x (ch p ! j) \<longleftrightarrow> int j \<le> ec_Index ?la"
      using la by (simp add: la_pred_def)
    show ?thesis
    proof
      assume "ec_Index ?fd \<le> ec_Index ?la"
      then show "p \<in> between C x y"
        unfolding bet using f l by (intro exI [of _ "nat (ec_Index ?fd)"]) auto
    next
      assume "p \<in> between C x y"
      then show "ec_Index ?fd \<le> ec_Index ?la"
        unfolding bet using f(3) l by fastforce
    qed
  qed
qed

lemma members_bij:
  assumes "members_ok ps"
  shows "bij_betw (\<lambda>p. nat (the (map_of ps p))) (dom (map_of ps)) {..<length ps}"
proof -
  let ?f = "\<lambda>p. nat (the (map_of ps p))"
  have inj: "inj_on ?f (dom (map_of ps))"
    by (rule inj_onI) (use members_ok_inj [OF assms] in auto)
  have "card (?f ` dom (map_of ps)) = length ps"
    using card_image [OF inj] distinct_card [of "map fst ps"] assms
    by (simp add: dom_map_of_conv_image_fst members_ok_def)
  moreover have "?f ` dom (map_of ps) \<subseteq> {..<length ps}"
    using members_ok_id [OF assms] by auto
  ultimately have "?f ` dom (map_of ps) = {..<length ps}"
    by (intro card_subset_eq) auto
  then show ?thesis using inj by (simp add: bij_betw_def)
qed

lemma between_card:
  assumes g: "graph_ok ps C ch" and x: "C x = Some ex" and y: "C y = Some ey"
  shows "card {i. i < length ps \<and> ec_Index (LastAncestors ex ! i) \<ge> ec_Index (FirstDescendants ey ! i)}
    = card (between C x y)"
proof -
  let ?f = "\<lambda>p. nat (the (map_of ps p))"
  let ?I = "{i. i < length ps \<and> ec_Index (LastAncestors ex ! i) \<ge> ec_Index (FirstDescendants ey ! i)}"
  have m: "members_ok ps" and chs: "chains_ok ps C ch" using g by (simp_all add: graph_ok_def)
  have sub: "between C x y \<subseteq> dom (map_of ps)"
    using chains_okD(1) [OF chs] by (fastforce simp: between_def in_chain_def)
  have b: "bij_betw ?f (dom (map_of ps)) {..<length ps}" using members_bij [OF m] .
  have iff: "?f p \<in> ?I \<longleftrightarrow> p \<in> between C x y" if "p \<in> dom (map_of ps)" for p
    using that seen_iff_between [OF g x y] members_ok_id [OF m] by auto
  have "?f ` between C x y = ?I"
  proof
    show "?f ` between C x y \<subseteq> ?I" using sub iff by blast
    show "?I \<subseteq> ?f ` between C x y"
    proof
      fix i assume i: "i \<in> ?I"
      then have "i \<in> ?f ` dom (map_of ps)" using b by (auto simp: bij_betw_def)
      then show "i \<in> ?f ` between C x y" using i iff by auto
    qed
  qed
  moreover have "inj_on ?f (between C x y)" using b sub by (auto simp: bij_betw_def intro: inj_on_subset)
  ultimately show ?thesis by (metis card_image)
qed

text \<open>A comet without a first descendant by the participant with id \<open>cid\<close>.\<close>

definition unset :: "comets \<Rightarrow> int \<Rightarrow> string \<Rightarrow> bool" where
  "unset C cid k \<longleftrightarrow> (\<exists>d. C k = Some d \<and> ec_Index (FirstDescendants d ! nat cid) = MaxInt32)"

text \<open>
  What the walk relies on: chains, hashes as keys, full coordinate lists, and that a comet with a first
  descendant has self-ancestors that all have one.
\<close>

definition walkable :: "crypto \<Rightarrow> (string, int) gomap \<Rightarrow> comets \<Rightarrow> chains \<Rightarrow> int \<Rightarrow> bool" where
  "walkable cr ps C ch cid \<longleftrightarrow> members_ok ps \<and> chains_ok ps C ch \<and> 0 \<le> cid \<and>
     (\<forall>k c. C k = Some c \<longrightarrow> Comet_Hex cr c = k \<and> nat cid < length (FirstDescendants c)) \<and>
     (\<forall>q i j. i \<le> j \<longrightarrow> j < length (ch q) \<longrightarrow> unset C cid (ch q ! i) \<longrightarrow> unset C cid (ch q ! j))"

lemma walkableD:
  assumes "walkable cr ps C ch cid"
  shows "members_ok ps" "chains_ok ps C ch" "0 \<le> cid"
    "C k = Some c \<Longrightarrow> Comet_Hex cr c = k" "C k = Some c \<Longrightarrow> nat cid < length (FirstDescendants c)"
    "i \<le> j \<Longrightarrow> j < length (ch q) \<Longrightarrow> unset C cid (ch q ! i) \<Longrightarrow> unset C cid (ch q ! j)"
  using assms by (simp_all add: walkable_def)

text \<open>The answer of a lookup for a comet of the view.\<close>

definition answer :: "Comet option \<Rightarrow> (StoreErr, Comet) result \<Rightarrow> bool" where
  "answer oc r = (case oc of None \<Rightarrow> (\<exists>e. r = Inl e) | Some c \<Rightarrow> (\<exists>c'. r = Inr c' \<and> core c' = c))"

text \<open>A block signature whose verification does not panic.\<close>

definition readable :: "crypto \<Rightarrow> BlockSignature \<Rightarrow> bool" where
  "readable cr bs \<longleftrightarrow> (\<forall>b. Block_Verify cr b bs \<noteq> None)"

lemma view_ok_blocks [simp]: "view_ok cr ps (v\<lparr>v_blocks := m\<rparr>) ch = view_ok cr ps v ch"
  by (simp add: view_ok_def)

lemma insert_ok_core [simp]: "insert_ok ps C ch x (core c) = insert_ok ps C ch x c"
  by (simp add: insert_ok_def)

lemma core_placed: "core (placed ps C cid coord c) = placed ps C cid coord (core c)"
  by (simp add: placed_def init_la_def)

lemma touched_core [simp]: "touched C cid (core c) = touched C cid c"
  by (simp add: touched_def)

lemma next_event_placed [simp]: "next_event v (placed ps C cid coord c) = next_event v c"
  by (simp add: next_event_def cong: option.case_cong)

lemma SetWireInfo_Signature [simp]: "cSignature (Comet_SetWireInfo c i j k l) = cSignature c"
  by (simp add: Comet_SetWireInfo_def)

lemma placed_BlockSignatures [simp]:
  "Comet_BlockSignatures (placed ps C cid coord c) = Comet_BlockSignatures c"
  by (simp add: Comet_BlockSignatures_def placed_def)

text \<open>The graph right after the new comet is stored can be walked, and the walk reaches \<open>touched\<close>.\<close>

lemma unset_own:
  assumes g: "graph_ok ps C ch" and p: "map_of ps p = Some cid" and t: "t < length (ch p)"
  shows "\<not> unset C cid (ch p ! t)"
proof
  assume "unset C cid (ch p ! t)"
  then obtain d where d: "C (ch p ! t) = Some d" "ec_Index (FirstDescendants d ! nat cid) = MaxInt32"
    by (auto simp: unset_def)
  have co: "coords_ok ps C ch" using g by (simp add: graph_ok_def)
  have "fd_spec C (ch p) (ch p ! t) (FirstDescendants d ! nat cid)"
    using coords_okD(4) [OF co d(1) p] .
  then have "\<not> anc C (ch p ! t) (ch p ! t)" using d(2) t by (simp add: fd_spec_def)
  then show False using d(1) by (auto simp: anc_refl domI)
qed

lemma unset_up:
  assumes g: "graph_ok ps C ch" and p: "map_of ps p = Some cid"
    and ij: "i \<le> j" "j < length (ch q)" and u: "unset C cid (ch q ! i)"
  shows "unset C cid (ch q ! j)"
proof -
  have chs: "chains_ok ps C ch" and co: "coords_ok ps C ch" using g by (simp_all add: graph_ok_def)
  obtain e where e: "C (ch q ! j) = Some e" using chain_dom [OF chs ij(2)] by auto
  obtain d where d: "C (ch q ! i) = Some d" "ec_Index (FirstDescendants d ! nat cid) = MaxInt32"
    using u by (auto simp: unset_def)
  have fi: "fd_spec C (ch p) (ch q ! i) (FirstDescendants d ! nat cid)" using coords_okD(4) [OF co d(1) p] .
  have fj: "fd_spec C (ch p) (ch q ! j) (FirstDescendants e ! nat cid)" using coords_okD(4) [OF co e p] .
  have "ec_Index (FirstDescendants e ! nat cid) = MaxInt32"
  proof (rule ccontr)
    let ?m = "ec_Index (FirstDescendants e ! nat cid)"
    assume "?m \<noteq> MaxInt32"
    then have m: "0 \<le> ?m" "?m < int (length (ch p))" "anc C (ch p ! nat ?m) (ch q ! j)"
      using fj by (auto simp: fd_spec_def)
    have "anc C (ch p ! nat ?m) (ch q ! i)"
      using anc_trans [OF m(3) chain_anc [OF chs ij]] .
    then show False using fi d(2) m(1,2) by (auto simp: fd_spec_def)
  qed
  then show ?thesis using e by (simp add: unset_def)
qed

lemma placed_walkable:
  assumes g: "graph_ok ps C ch" and ins: "insert_ok ps C ch x c"
    and cid: "map_of ps (Comet_Creator c) = Some cid"
    and coord: "coord = \<lparr>ec_Hash = x, ec_Index = Comet_Index c\<rparr>"
    and keyed: "\<And>k d. C k = Some d \<Longrightarrow> Comet_Hex cr d = k" and x: "Comet_Hex cr c = x"
  shows "walkable cr ps (C(x \<mapsto> placed ps C cid coord c))
    (ch(Comet_Creator c := ch (Comet_Creator c) @ [x])) cid"
proof -
  let ?C = "C(x \<mapsto> placed ps C cid coord c)" and ?p = "Comet_Creator c"
  let ?ch = "ch(?p := ch ?p @ [x])"
  have m: "members_ok ps" and chs: "chains_ok ps C ch" and co: "coords_ok ps C ch"
    using g by (simp_all add: graph_ok_def)
  have xN: "C x = None" and idx: "Comet_Index c \<noteq> MaxInt32" using ins by (auto simp: insert_ok_def)
  have chs': "chains_ok ps ?C ?ch" by (rule chains_insert [OF chs ins]) simp_all
  note i = members_ok_id [OF m cid]
  have old: "unset ?C cid k \<longleftrightarrow> unset C cid k" if "k \<noteq> x" for k using that by (simp add: unset_def)
  have xs: "\<not> unset ?C cid x" using i idx by (simp add: unset_def placed_def coord)
  have nx: "ch q ! t \<noteq> x" if "t < length (ch q)" for q t using chain_dom [OF chs that] xN by auto
  have "unset ?C cid (?ch q ! j)" if ij: "i \<le> j" "j < length (?ch q)" and u: "unset ?C cid (?ch q ! i)" for q i j
  proof (cases "q = ?p")
    case True
    have "i < length (ch ?p) \<or> i = length (ch ?p)" using ij True by auto
    then show ?thesis
      using u True xs old [OF nx] unset_own [OF g cid] by (auto simp: nth_append)
  next
    case False
    then show ?thesis
      using u ij old [OF nx] unset_up [OF g cid] by (auto simp: nth_append)
  qed
  moreover have "Comet_Hex cr d = k \<and> nat cid < length (FirstDescendants d)" if "?C k = Some d" for k d
    using that keyed [of k d] x i coords_okD(2) [OF co, of k d] by (auto simp: placed_def split: if_splits)
  ultimately show ?thesis
    unfolding walkable_def using m chs' i by blast
qed

lemma touched_eq:
  assumes chs: "chains_ok ps C ch" and ins: "insert_ok ps C ch x c" and m: "members_ok ps"
    and cid: "map_of ps (Comet_Creator c) = Some cid"
    and coord: "coord = \<lparr>ec_Hash = x, ec_Index = Comet_Index c\<rparr>"
    and C': "C' = C(x \<mapsto> placed ps C cid coord c)"
  shows "{k. k \<in> dom C' \<and> anc C' x k \<and> unset C' cid k} = touched C cid c"
proof -
  have f: "fresh_for C x (placed ps C cid coord c)"
    using insert_ok_fresh [OF chs ins] by (simp add: fresh_for_def)
  have xN: "C x = None" and idx: "Comet_Index c \<noteq> MaxInt32" using ins by (auto simp: insert_ok_def)
  have "\<not> unset C' cid x"
    using members_ok_id [OF m cid] idx by (simp add: C' unset_def placed_def coord)
  then show ?thesis
    using anc_insert(2) [OF f] xN by (auto simp: C' touched_def unset_def)
qed

section \<open>Queries\<close>

context comet_store
begin

text \<open>The graph after a query: only the recency of the store's caches may have changed.\<close>

definition same :: "'st CometGraph \<Rightarrow> 'st CometGraph \<Rightarrow> bool" where
  "same g g' \<longleftrightarrow> (\<exists>st. g' = g\<lparr>cgStore := st\<rparr> \<and> ok st \<and> view st = view (cgStore g))"

definition comets_of :: "'st CometGraph \<Rightarrow> comets" where
  "comets_of g = v_comets (view (cgStore g))"

definition ginv :: "chains \<Rightarrow> 'st CometGraph \<Rightarrow> bool" where
  "ginv ch g \<longleftrightarrow> ok (cgStore g) \<and> view_ok cr (Participants g) (view (cgStore g)) ch"

lemma same_refl: "ok (cgStore g) \<Longrightarrow> same g g"
  by (auto simp: same_def intro!: exI [of _ "cgStore g"])

lemma same_trans: "same g h \<Longrightarrow> same h k \<Longrightarrow> same g k"
  by (auto simp: same_def)

lemma sameD:
  assumes "same g g'"
  shows "Participants g' = Participants g" "mostPlurality g' = mostPlurality g" "ok (cgStore g')"
    "view (cgStore g') = view (cgStore g)" "comets_of g' = comets_of g"
    "topologicalIndex g' = topologicalIndex g"
    "ginv ch g \<Longrightarrow> ginv ch g'"
  using assms by (auto simp: same_def comets_of_def ginv_def)

lemma sGetComet_returns:
  assumes "ok (cgStore g)"
    and "\<And>g'. same g g' \<Longrightarrow> comets_of g k = None \<Longrightarrow> Q (Inl (NewStoreErr KeyNotFound k)) g'"
    and "\<And>g' c. same g g' \<Longrightarrow> comets_of g k = Some (core c) \<Longrightarrow> Q (Inr c) g'"
  shows "returns (sGetComet S k g) Q"
proof -
  obtain r st where e: "st_GetComet S k (cgStore g) = (r, st)" by fastforce
  note l = GetComet_law [OF assms(1) e]
  have s: "same g (g\<lparr>cgStore := st\<rparr>)" using l by (auto simp: same_def)
  show ?thesis
    using l assms(2) [OF s] assms(3) [OF s] e
    by (cases "comets_of g k") (auto simp: sGetComet_def comets_of_def)
qed

text \<open>The queries read two comets and then compute.\<close>

lemma two_comets_returns:
  assumes "ok (cgStore g)" "x \<in> dom (comets_of g)" "y \<in> dom (comets_of g)"
    and "\<And>g' ex ey. same g g' \<Longrightarrow> comets_of g x = Some (core ex) \<Longrightarrow> comets_of g y = Some (core ey) \<Longrightarrow>
           returns (f ex ey g') Q"
  shows "returns (do {
      (rx, g) \<leftarrow> sGetComet S x g;
      (case rx of Inl _ \<Rightarrow> Some (d, g) | Inr ex \<Rightarrow> do {
        (ry, g) \<leftarrow> sGetComet S y g;
        (case ry of Inl _ \<Rightarrow> Some (d, g) | Inr ey \<Rightarrow> f ex ey g)
      })
    }) Q"
proof -
  have "returns (do {
      (ry, g) \<leftarrow> sGetComet S y g1;
      (case ry of Inl _ \<Rightarrow> Some (d, g) | Inr ey \<Rightarrow> f ex ey g)
    }) Q" if g1: "same g g1" and ex: "comets_of g x = Some (core ex)" for g1 ex
    using assms(3,4) g1 ex sameD(3,5) [OF g1] same_trans [OF g1]
    by (auto intro!: sGetComet_returns)
  then show ?thesis
    using assms(1,2) by (auto intro!: sGetComet_returns)
qed

text \<open>\<^verbatim>\<open>ancestor\<close> decides reachability.\<close>

lemma ancestor_returns:
  assumes "ginv ch g" "x \<in> dom (comets_of g)" "y \<in> dom (comets_of g)"
  shows "returns (ancestor S x y g) (\<lambda>b g'. same g g' \<and> (b \<longleftrightarrow> anc (comets_of g) x y))"
proof (cases "x = y")
  case True
  then show ?thesis
    using assms by (simp add: ancestor_def anc_refl same_refl ginv_def)
next
  case False
  let ?C = "comets_of g"
  have v: "view_ok cr (Participants g) (view (cgStore g)) ch" and ok: "ok (cgStore g)"
    using assms(1) by (simp_all add: ginv_def)
  note vd = view_okD(2-4) [OF v, folded comets_of_def]
  have main: "\<exists>la. slice_at (LastAncestors ex) (lookup0 (Participants g) (Comet_Creator ey)) = Some la \<and>
      (ec_Index la \<ge> Comet_Index ey \<longleftrightarrow> anc ?C x y)"
    if ex: "?C x = Some (core ex)" and ey: "?C y = Some (core ey)" for ex ey
  proof -
    obtain j i where j: "map_of (Participants g) (Comet_Creator ey) = Some i"
      "j < length (ch (Comet_Creator ey))" "Comet_Index ey = int j" "ch (Comet_Creator ey) ! j = y"
      by (rule dom_in_chain [OF vd(2) ey, simplified])
    have "la_pred (anc ?C x) (ch (Comet_Creator ey)) (LastAncestors ex ! nat i)"
      using coords_okD(3) [OF vd(3) ex j(1)] by simp
    moreover have "nat i < length (LastAncestors ex)" "0 \<le> i"
      using coords_okD(1) [OF vd(3) ex] members_ok_id [OF vd(1) j(1)] by simp_all
    ultimately show ?thesis
      using j by (auto simp: slice_at_def lookup0_def la_pred_def)
  qed
  show ?thesis
    unfolding ancestor_def if_not_P [OF False]
    by (rule two_comets_returns [OF ok assms(2,3)], drule (1) main) (auto simp: sameD)
qed

lemma stronglySee_returns:
  assumes "ginv ch g" "x \<in> dom (comets_of g)" "y \<in> dom (comets_of g)"
  shows "returns (stronglySee S x y g) (\<lambda>b g'. same g g' \<and>
    (b \<longleftrightarrow> int (card (between (comets_of g) x y)) \<ge> mostPlurality g))"
proof -
  let ?C = "comets_of g"
  have v: "view_ok cr (Participants g) (view (cgStore g)) ch" and ok: "ok (cgStore g)"
    using assms(1) by (simp_all add: ginv_def)
  note vd = view_okD(1,4) [OF v, folded comets_of_def]
  have main: "count_seen (LastAncestors ex) (FirstDescendants ey) = Some (int (card (between ?C x y)))"
    if ex: "?C x = Some (core ex)" and ey: "?C y = Some (core ey)" for ex ey
    using count_seen_eq [of "LastAncestors ex" "FirstDescendants ey"] between_card [OF vd(1) ex ey]
      coords_okD(1) [OF vd(2) ex] coords_okD(2) [OF vd(2) ey] by simp
  show ?thesis
    unfolding stronglySee_def
    by (rule two_comets_returns [OF ok assms(2,3)]) (use main in \<open>auto simp: sameD\<close>)
qed

section \<open>Updating the first descendants\<close>

lemma sSetComet_old_returns:
  assumes "ok (cgStore g)" "comets_of g (Comet_Hex cr c) \<noteq> None"
  obtains st where "sSetComet S c g = Some (None, g\<lparr>cgStore := st\<rparr>)" "ok st"
    "view st = (view (cgStore g))\<lparr>v_comets := (comets_of g)(Comet_Hex cr c \<mapsto> core c)\<rparr>"
proof -
  obtain e st where e: "st_SetComet S c (cgStore g) = (e, st)" by fastforce
  have l: "e = None \<and> ok st \<and>
      view st = (view (cgStore g))\<lparr>v_comets := (v_comets (view (cgStore g)))(Comet_Hex cr c \<mapsto> core c)\<rparr>"
    using SetComet_old [OF assms(1) e] assms(2) by (simp add: comets_of_def)
  have "sSetComet S c g = Some (None, g\<lparr>cgStore := st\<rparr>)" using e l by (simp add: sSetComet_def)
  then show ?thesis using that [of st] l by (simp add: comets_of_def)
qed

text \<open>The graph whose comets in \<open>T\<close> got the new first descendant, and nothing else changed.\<close>

definition walked :: "int \<Rightarrow> EventCoordinates \<Rightarrow> string set \<Rightarrow> 'st CometGraph \<Rightarrow> 'st CometGraph \<Rightarrow> bool" where
  "walked cid coord T g g' \<longleftrightarrow> (\<exists>st. g' = g\<lparr>cgStore := st\<rparr> \<and> ok st \<and>
     view st = (view (cgStore g))\<lparr>v_comets := upd cid coord T (comets_of g)\<rparr>)"

lemma upd_empty [simp]: "upd cid coord {} C = C"
  by (rule ext) (simp add: upd_def option.map_ident)

lemma walked_refl: "ok (cgStore g) \<Longrightarrow> walked cid coord {} g g"
  by (auto simp: walked_def comets_of_def intro!: exI [of _ "cgStore g"])

lemma walked_same: "walked cid coord T g g1 \<Longrightarrow> same g1 g2 \<Longrightarrow> walked cid coord T g g2"
  by (auto simp: walked_def same_def)

lemma walked_comets: "walked cid coord T g g1 \<Longrightarrow> comets_of g1 = upd cid coord T (comets_of g)"
  by (auto simp: walked_def comets_of_def)

text \<open>One more comet: the entry is written and the comet stored back.\<close>

lemma walked_step:
  assumes w: "walked cid coord T g g1" and a: "comets_of g1 ah = Some (core a)" "ah \<notin> T"
    and hex: "Comet_Hex cr a = ah"
  obtains g2 where "sSetComet S (a\<lparr>FirstDescendants := (FirstDescendants a)[nat cid := coord]\<rparr>) g1 = Some (None, g2)"
    "walked cid coord (insert ah T) g g2"
proof -
  let ?a = "a\<lparr>FirstDescendants := (FirstDescendants a)[nat cid := coord]\<rparr>"
  have ok1: "ok (cgStore g1)" using w by (auto simp: walked_def)
  obtain st where st: "sSetComet S ?a g1 = Some (None, g1\<lparr>cgStore := st\<rparr>)" "ok st"
    "view st = (view (cgStore g1))\<lparr>v_comets := (comets_of g1)(ah \<mapsto> core ?a)\<rparr>"
    using sSetComet_old_returns [OF ok1, of ?a] a hex by auto
  have old: "comets_of g ah = Some (core a)"
    using a walked_comets [OF w] by (auto simp: upd_def)
  have "(comets_of g1)(ah \<mapsto> core ?a) = upd cid coord (insert ah T) (comets_of g)"
    using old walked_comets [OF w] by (auto simp: upd_def fun_eq_iff)
  then have "walked cid coord (insert ah T) g (g1\<lparr>cgStore := st\<rparr>)"
    using st w by (auto simp: walked_def)
  then show ?thesis using that st(1) by blast
qed

lemma update_walk_returns:
  assumes wk: "walkable cr ps (comets_of g) ch cid"
    and "walked cid coord T g g1" "j < length (ch q)" "Suc j < fuel" "\<And>t. t \<le> j \<Longrightarrow> ch q ! t \<notin> T"
  shows "returns (update_walk S fuel cid coord (ch q ! j) g1) (\<lambda>r g'. r = Inr () \<and>
    walked cid coord (T \<union> {ch q ! t | t. t \<le> j \<and> unset (comets_of g) cid (ch q ! t)}) g g')"
  using assms(2-)
proof (induction j arbitrary: fuel T g1 rule: less_induct)
  case (less j fuel T g1)
  let ?C = "comets_of g" and ?k = "ch q ! j"
  note wd = walkableD [OF wk]
  obtain n where n: "fuel = Suc n" using less.prems(3) by (cases fuel) auto
  have C1: "comets_of g1 ?k = ?C ?k"
    using walked_comets [OF less.prems(1)] less.prems(4) [of j] by (simp add: upd_def option.map_ident)
  have ok1: "ok (cgStore g1)" using less.prems(1) by (auto simp: walked_def)
  obtain d where d: "?C ?k = Some d" "Comet_SelfParent d = (if j = 0 then [] else ch q ! (j - 1))"
    using chains_okD(2) [OF wd(2) less.prems(2)] by (auto simp: link_ok_def)
  have ne: "?k \<noteq> []" using d(1) chains_okD(5) [OF wd(2)] by auto
  let ?done = "T \<union> {ch q ! t | t. t \<le> j \<and> unset ?C cid (ch q ! t)}"
  have tail: "returns (do {
        fd \<leftarrow> slice_at (FirstDescendants a) cid;
        if ec_Index fd = MaxInt32 then do {
          (e, g) \<leftarrow> sSetComet S (a\<lparr>FirstDescendants := (FirstDescendants a)[nat cid := coord]\<rparr>) g2;
          (case e of Some err \<Rightarrow> Some (Inl (SErr err), g)
           | None \<Rightarrow> update_walk S n cid coord (Comet_SelfParent a) g)
        } else Some (Inr (), g2)
      }) (\<lambda>r g'. r = Inr () \<and> walked cid coord ?done g g')"
    if g2: "same g1 g2" and a: "comets_of g1 ?k = Some (core a)" for g2 a
  proof -
    have w2: "walked cid coord T g g2" using walked_same [OF less.prems(1) g2] .
    have da: "d = core a" using a C1 d(1) by simp
    have sl: "slice_at (FirstDescendants a) cid = Some (FirstDescendants a ! nat cid)"
      using wd(3) wd(5) [OF d(1)] by (simp add: da slice_at_def)
    have un: "unset ?C cid ?k \<longleftrightarrow> ec_Index (FirstDescendants a ! nat cid) = MaxInt32"
      using d(1) da by (simp add: unset_def)
    show ?thesis
    proof (cases "unset ?C cid ?k")
      case False
      have "\<not> unset ?C cid (ch q ! t)" if "t \<le> j" for t
        using wd(6) [OF that less.prems(2)] False by blast
      then have "?done = T" by blast
      then show ?thesis using False un sl w2 by simp
    next
      case True
      have c2: "comets_of g2 ?k = Some (core a)" using a sameD(5) [OF g2] by simp
      have hex: "Comet_Hex cr a = ?k" using wd(4) [OF d(1)] by (simp add: da)
      obtain g3 where g3: "sSetComet S (a\<lparr>FirstDescendants := (FirstDescendants a)[nat cid := coord]\<rparr>) g2
          = Some (None, g3)" "walked cid coord (insert ?k T) g g3"
        using walked_step [OF w2 c2 less.prems(4) hex] by auto
      have "returns (update_walk S n cid coord (Comet_SelfParent a) g3)
          (\<lambda>r g'. r = Inr () \<and> walked cid coord ?done g g')"
      proof (cases "j = 0")
        case j0: True
        then have "?done = insert ?k T" using True by auto
        moreover have "Comet_SelfParent a = []" using d(2) j0 by (simp add: da)
        moreover obtain m where "n = Suc m" using n less.prems(3) by (cases n) auto
        ultimately show ?thesis using g3(2) by simp
      next
        case False
        have ni: "ch q ! t \<notin> insert ?k T" if t: "t \<le> j - 1" for t
        proof -
          have "t < j" using t False by linarith
          then show ?thesis
            using less.prems(2) less.prems(4) [of t] chain_unique [OF wd(2), of t q j q] by auto
        qed
        have "insert ?k T \<union> {ch q ! t | t. t \<le> j - 1 \<and> unset ?C cid (ch q ! t)} = ?done"
          using True False by (auto simp: le_less)
        moreover have "Comet_SelfParent a = ch q ! (j - 1)" using d(2) False by (simp add: da)
        moreover have "returns (update_walk S n cid coord (ch q ! (j - 1)) g3) (\<lambda>r g'. r = Inr () \<and>
            walked cid coord (insert ?k T \<union> {ch q ! t | t. t \<le> j - 1 \<and> unset ?C cid (ch q ! t)}) g g')"
          by (rule less.IH [OF _ g3(2) _ _ ni]) (use less.prems(2,3) n False in auto)
        ultimately show ?thesis by metis
      qed
      then show ?thesis using True un sl g3(1) by simp
    qed
  qed
  show ?case
    unfolding n update_walk.simps if_not_P [OF ne] returns_bind
    by (rule sGetComet_returns [OF ok1]) (use C1 d(1) tail in auto)
qed

lemma UpdateAncestorFirstDescendant_returns:
  assumes wk: "walkable cr ps (comets_of g) ch cid" and ok: "ok (cgStore g)" and ps: "ps = Participants g"
    and cid: "map_of ps (Comet_Creator c) = Some cid"
    and coord: "coord = \<lparr>ec_Hash = Comet_Hex cr c, ec_Index = Comet_Index c\<rparr>"
    and len: "length (LastAncestors c) = length ps"
    and la: "\<And>q i. map_of ps q = Some i \<Longrightarrow> la_pred A (ch q) (LastAncestors c ! nat i)"
    and fuel: "\<And>q. length (ch q) < fuel"
  shows "returns (UpdateAncestorFirstDescendant cr S fuel c g) (\<lambda>r g'. r = Inr () \<and>
    walked cid coord {k. k \<in> dom (comets_of g) \<and> A k \<and> unset (comets_of g) cid k} g g')"
proof -
  let ?C = "comets_of g"
  note wd = walkableD [OF wk]
  define own where "own = inv_into (dom (map_of ps)) (\<lambda>p. nat (the (map_of ps p)))"
  have own: "map_of ps (own i) = Some (int i)" if "i < length ps" for i
  proof -
    have i: "i \<in> (\<lambda>p. nat (the (map_of ps p))) ` dom (map_of ps)"
      using members_bij [OF wd(1)] that by (auto simp: bij_betw_def)
    have "own i \<in> dom (map_of ps)" "nat (the (map_of ps (own i))) = i"
      unfolding own_def by (rule inv_into_into [OF i], rule f_inv_into_f [OF i])
    then show ?thesis using members_ok_id(1) [OF wd(1)] by fastforce
  qed
  have own_id: "own (nat i) = q" if "map_of ps q = Some i" for q i
    using own [of "nat i"] members_ok_id [OF wd(1) that] members_ok_inj [OF wd(1) _ that, of "own (nat i)"]
    by auto
  let ?T = "\<lambda>n. {k. \<exists>i < n. k \<in> set (ch (own i)) \<and> A k \<and> unset ?C cid k}"
  have step: "returns (update_walk S fuel cid coord (ec_Hash e) g1)
      (\<lambda>r g'. case r of Inl _ \<Rightarrow> False | Inr _ \<Rightarrow> walked cid coord (?T (length (done @ [e]))) g g')"
    if las: "LastAncestors c = done @ e # rest" and w: "walked cid coord (?T (length done)) g g1" for "done" e rest g1
  proof -
    let ?i = "length done" and ?q = "own (length done)"
    have i: "?i < length ps" using len las by simp
    have e: "la_pred A (ch ?q) e" using la [OF own [OF i]] las by simp
    have T: "?T (length (done @ [e])) = ?T ?i \<union> {k. k \<in> set (ch ?q) \<and> A k \<and> unset ?C cid k}"
      by (auto simp: less_Suc_eq)
    show ?thesis
    proof (cases "ec_Index e < 0")
      case True
      then have "ec_Hash e = []" and no: "\<And>k. k \<in> set (ch ?q) \<Longrightarrow> \<not> A k"
        using e by (auto simp: la_pred_def in_set_conv_nth)
      moreover obtain m where "fuel = Suc m" using fuel [of ?q] by (cases fuel) auto
      moreover have "?T (length (done @ [e])) = ?T ?i" unfolding T using no by blast
      ultimately show ?thesis using w by simp
    next
      case False
      define j where "j = nat (ec_Index e)"
      have j: "j < length (ch ?q)" "ec_Hash e = ch ?q ! j"
        "\<And>t. t < length (ch ?q) \<Longrightarrow> A (ch ?q ! t) \<longleftrightarrow> t \<le> j"
        using e False by (auto simp: la_pred_def j_def)
      have "ch ?q ! t \<notin> ?T ?i" if t: "t \<le> j" for t
      proof
        assume "ch ?q ! t \<in> ?T ?i"
        then obtain i' u where i': "i' < ?i" "u < length (ch (own i'))" "ch (own i') ! u = ch ?q ! t"
          by (auto simp: in_set_conv_nth)
        have "own i' = ?q" using chain_unique [OF wd(2) i'(2), of t ?q] i'(3) t j(1) by simp
        then show False using own [of i'] own [OF i] i'(1) i by simp
      qed
      moreover have "{ch ?q ! t | t. t \<le> j \<and> unset ?C cid (ch ?q ! t)}
          = {k. k \<in> set (ch ?q) \<and> A k \<and> unset ?C cid k}"
      proof (intro set_eqI iffI)
        fix k assume "k \<in> {ch ?q ! t | t. t \<le> j \<and> unset ?C cid (ch ?q ! t)}"
        then obtain t where t: "k = ch ?q ! t" "t \<le> j" "unset ?C cid k" by auto
        then have "t < length (ch ?q)" using j(1) by simp
        then show "k \<in> {k. k \<in> set (ch ?q) \<and> A k \<and> unset ?C cid k}" using t j(3) by simp
      next
        fix k assume k: "k \<in> {k. k \<in> set (ch ?q) \<and> A k \<and> unset ?C cid k}"
        then obtain t where "t < length (ch ?q)" "k = ch ?q ! t" by (auto simp: in_set_conv_nth)
        then show "k \<in> {ch ?q ! t | t. t \<le> j \<and> unset ?C cid (ch ?q ! t)}" using k j(3) by auto
      qed
      ultimately have "returns (update_walk S fuel cid coord (ch ?q ! j) g1)
          (\<lambda>r g'. r = Inr () \<and> walked cid coord (?T (length (done @ [e]))) g g')"
        using update_walk_returns [OF wk w j(1)] fuel [of ?q] j(1) unfolding T by simp
      then show ?thesis using j(2) by (auto elim: returns_mono)
    qed
  qed
  have "?T (length (LastAncestors c)) = {k. k \<in> dom ?C \<and> A k \<and> unset ?C cid k}"
  proof (intro set_eqI iffI)
    fix k assume "k \<in> ?T (length (LastAncestors c))"
    then show "k \<in> {k. k \<in> dom ?C \<and> A k \<and> unset ?C cid k}"
      by (auto simp: unset_def)
  next
    fix k assume k: "k \<in> {k. k \<in> dom ?C \<and> A k \<and> unset ?C cid k}"
    then obtain d where d: "?C k = Some d" by auto
    obtain j i where i: "map_of ps (Comet_Creator d) = Some i" "j < length (ch (Comet_Creator d))"
      "ch (Comet_Creator d) ! j = k"
      using dom_in_chain [OF wd(2) d] by metis
    then have "k \<in> set (ch (own (nat i)))" using own_id [OF i(1)] nth_mem by fastforce
    then show "k \<in> ?T (length (LastAncestors c))"
      using k members_ok_id [OF wd(1) i(1)] len by auto
  qed
  moreover have "returns (forE (LastAncestors c) (\<lambda>la. update_walk S fuel cid coord (ec_Hash la)) g)
      (\<lambda>r g'. case r of Inl _ \<Rightarrow> False | Inr _ \<Rightarrow> walked cid coord (?T (length (LastAncestors c))) g g')"
    by (rule returns_forE [where I = "\<lambda>done. walked cid coord (?T (length done)) g"])
      (use walked_refl [OF ok] step in auto)
  ultimately have "returns (forE (LastAncestors c) (\<lambda>la. update_walk S fuel cid coord (ec_Hash la)) g)
      (\<lambda>r g'. r = Inr () \<and> walked cid coord {k. k \<in> dom ?C \<and> A k \<and> unset ?C cid k} g g')"
    by (simp add: returns_no_error)
  then show ?thesis
    using cid ps coord by (simp add: UpdateAncestorFirstDescendant_def)
qed

section \<open>Inserting\<close>

lemma sGetComet_answer:
  assumes "ok (cgStore g)" "\<And>g' r. same g g' \<Longrightarrow> answer (comets_of g k) r \<Longrightarrow> Q r g'"
  shows "returns (sGetComet S k g) Q"
  by (rule sGetComet_returns [OF assms(1)]) (auto intro!: assms(2) simp: answer_def)

lemma InitEventCoordinates_returns:
  assumes inv: "ginv ch g" and cid: "map_of (Participants g) (Comet_Creator c) = Some cid"
  shows "returns (InitEventCoordinates cr S c g) (\<lambda>r g'. same g g' \<and>
    r = Inr (placed (Participants g) (comets_of g) cid
          \<lparr>ec_Hash = Comet_Hex cr c, ec_Index = Comet_Index c\<rparr> c))"
proof -
  let ?C = "comets_of g" and ?n = "length (Participants g)"
  have ok: "ok (cgStore g)" and v: "view_ok cr (Participants g) (view (cgStore g)) ch"
    using inv by (simp_all add: ginv_def)
  note vd = view_okD(2,4) [OF v, folded comets_of_def]
  have la: "(case sp of
         Inl _ \<Rightarrow> (case op of
           Inl _ \<Rightarrow> Some (replicate ?n \<lparr>ec_Hash = [], ec_Index = -1\<rparr>)
         | Inr op \<Rightarrow> Some (copy_coords ?n (LastAncestors op)))
       | Inr sp \<Rightarrow> (case op of
           Inl _ \<Rightarrow> Some (copy_coords ?n (LastAncestors sp))
         | Inr op \<Rightarrow> max_coords (copy_coords ?n (LastAncestors sp)) (LastAncestors op)))
      = Some (init_la (Participants g) ?C c)"
    if "answer (?C (Comet_SelfParent c)) sp" "answer (?C (Comet_OtherParent c)) op" for sp op
    using that coords_okD(1) [OF vd(2), of "Comet_SelfParent c"] coords_okD(1) [OF vd(2), of "Comet_OtherParent c"]
    by (auto simp: answer_def init_la_def max_coords_eq split: option.splits)
  note i = members_ok_id [OF vd(1) cid]
  show ?thesis
    unfolding InitEventCoordinates_def Let_def returns_bind split_conv
  proof (rule sGetComet_answer [OF ok], rule sGetComet_answer, goal_cases)
    case (1 g1 sp)
    then show ?case by (simp add: sameD)
  next
    case (2 g1 sp g2 op)
    have s: "same g g2" using same_trans 2(1,3) by blast
    have "answer (?C (Comet_OtherParent c)) op" using 2(4) sameD(5) [OF 2(1)] by simp
    from la [OF 2(2) this] show ?case
      using cid i s sameD(1) [OF s] by (simp add: placed_def)
  qed
qed

definition only_blocks :: "'st CometGraph \<Rightarrow> 'st CometGraph \<Rightarrow> bool" where
  "only_blocks g g' \<longleftrightarrow> (\<exists>st m. g' = g\<lparr>cgStore := st\<rparr> \<and> ok st \<and>
     view st = (view (cgStore g))\<lparr>v_blocks := m\<rparr>)"

lemma only_blocksI:
  "ok st \<Longrightarrow> view st = (view (cgStore g))\<lparr>v_blocks := m\<rparr> \<Longrightarrow> only_blocks g (g\<lparr>cgStore := st\<rparr>)"
  by (auto simp: only_blocks_def)

lemma only_blocks_trans: "only_blocks g h \<Longrightarrow> only_blocks h k \<Longrightarrow> only_blocks g k"
  by (auto simp: only_blocks_def [of g h] only_blocks_def [of h k] intro!: only_blocksI)

lemma only_blocks_refl: "ok (cgStore g) \<Longrightarrow> only_blocks g g"
  unfolding only_blocks_def
  by (intro exI [of _ "cgStore g"] exI [of _ "v_blocks (view (cgStore g))"]) simp

lemma recordBlockSignature_returns:
  assumes "ok (cgStore g)" "readable cr bs"
  shows "returns (recordBlockSignature cr S bs g) (\<lambda>_ g'. only_blocks g g')"
proof (cases "map_of (Participants g) (Sprintf_0xX (Validator bs)) = None")
  case True
  then show ?thesis using only_blocks_refl [OF assms(1)] by (simp add: recordBlockSignature_def)
next
  case False
  obtain rb st where b: "st_GetBlock S (bs_Index bs) (cgStore g) = (rb, st)" by fastforce
  have st: "ok st" "view st = view (cgStore g)" using GetBlock_law [OF assms(1) b] by simp_all
  have o: "only_blocks g (g\<lparr>cgStore := st\<rparr>)"
    using only_blocks_refl [of "g\<lparr>cgStore := st\<rparr>"] st by (auto simp: only_blocks_def)
  show ?thesis
  proof (cases rb)
    case (Inl e)
    then show ?thesis using False b o by (auto simp: recordBlockSignature_def)
  next
    case (Inr block)
    obtain v where v: "Block_Verify cr block bs = Some v" using assms(2) by (auto simp: readable_def)
    obtain e st2 where e: "st_SetBlock S (Block_SetSignature block bs) st = (e, st2)" by fastforce
    have "only_blocks g (g\<lparr>cgStore := st2\<rparr>)"
      using SetBlock_law [OF st(1) e] st(2) by (auto simp: only_blocks_def)
    then show ?thesis
      using False b Inr v o e by (auto simp: recordBlockSignature_def Let_def split: sum.split bool.split)
  qed
qed

lemma recordBlockSignatures_returns:
  assumes "ok (cgStore g)" "\<And>bs. bs \<in> set bss \<Longrightarrow> readable cr bs"
  shows "returns (recordBlockSignatures cr S bss g) (\<lambda>_ g'. only_blocks g g')"
  using assms
proof (induction bss arbitrary: g)
  case Nil
  then show ?case by (simp add: only_blocks_refl)
next
  case (Cons bs bss)
  have "returns (recordBlockSignatures cr S bss g1) (\<lambda>_ g'. only_blocks g g')" if g1: "only_blocks g g1" for g1
  proof -
    have "ok (cgStore g1)" using g1 by (auto simp: only_blocks_def)
    then show ?thesis
      using Cons.IH [of g1] Cons.prems(2) only_blocks_trans [OF g1] by (auto elim: returns_mono)
  qed
  then show ?case
    using recordBlockSignature_returns [OF Cons.prems(1), of bs] Cons.prems(2)
    by (auto elim: returns_mono)
qed

text \<open>The new comet is stored with its coordinates.\<close>

lemma sSetComet_new_returns:
  assumes "ok (cgStore g)" "comets_of g (Comet_Hex cr c) = None"
    and "next_event (view (cgStore g)) c" "roomy (view (cgStore g))"
  obtains st where "sSetComet S c g = Some (None, g\<lparr>cgStore := st\<rparr>)" "ok st"
    "view st = (view (cgStore g))\<lparr>v_comets := (comets_of g)(Comet_Hex cr c \<mapsto> core c),
       v_last := (v_last (view (cgStore g)))(Comet_Creator c \<mapsto> Some (Comet_Hex cr c, Comet_Index c))\<rparr>"
proof -
  obtain e st where e: "st_SetComet S c (cgStore g) = (e, st)" by fastforce
  have l: "e = None" "ok st"
    "view st = (view (cgStore g))\<lparr>v_comets := (v_comets (view (cgStore g)))(Comet_Hex cr c \<mapsto> core c),
       v_last := (v_last (view (cgStore g)))(Comet_Creator c \<mapsto> Some (Comet_Hex cr c, Comet_Index c))\<rparr>"
    using SetComet_new [OF assms(1) e] assms(2-4) by (simp_all add: comets_of_def)
  have "sSetComet S c g = Some (None, g\<lparr>cgStore := st\<rparr>)" using e l by (simp add: sSetComet_def)
  then show ?thesis using that [of st] l by (simp add: comets_of_def)
qed

lemma insert_ok_next_event:
  assumes "view_ok cr' ps v ch" "insert_ok ps (v_comets v) ch x c"
  shows "next_event v c"
  using view_okD(6) [OF assms(1), of "Comet_Creator c"] assms(2)
  by (auto simp: next_event_def insert_ok_def)

text \<open>What an insertion of \<open>c\<close> under the hash \<open>x\<close> leaves behind.\<close>

definition inserted :: "chains \<Rightarrow> string \<Rightarrow> Comet \<Rightarrow> 'st CometGraph \<Rightarrow> 'st CometGraph \<Rightarrow> bool" where
  "inserted ch x c g g' \<longleftrightarrow>
     ginv (ch(Comet_Creator c := ch (Comet_Creator c) @ [x])) g' \<and>
     Participants g' = Participants g \<and> mostPlurality g' = mostPlurality g \<and>
     ancestorCache g' = ancestorCache g \<and> stronglySeeCache g' = stronglySeeCache g \<and>
     UndeterminedEvents g' = UndeterminedEvents g @ [x] \<and>
     v_rounds (view (cgStore g')) = v_rounds (view (cgStore g)) \<and>
     (\<forall>k d. comets_of g' k = Some d \<longrightarrow> (if k = x then cSignature d = cSignature c
        else \<exists>e. comets_of g k = Some e \<and> cSignature d = cSignature e)) \<and>
     dom (comets_of g') = insert x (dom (comets_of g)) \<and>
     par (comets_of g') = par (comets_of g) \<union>
       {x} \<times> ({Comet_SelfParent c, Comet_OtherParent c} \<inter> dom (comets_of g))"

lemma stored_view_ok:
  assumes v: "view_ok cr ps v ch" and ins: "insert_ok ps (v_comets v) ch x c"
    and cid: "map_of ps (Comet_Creator c) = Some cid" and x: "x = Comet_Hex cr c"
    and coord: "coord = \<lparr>ec_Hash = x, ec_Index = Comet_Index c\<rparr>"
    and v': "v' = v\<lparr>v_comets := upd cid coord (touched (v_comets v) cid c)
                ((v_comets v)(x \<mapsto> placed ps (v_comets v) cid coord (core c))),
               v_last := (v_last v)(Comet_Creator c \<mapsto> Some (x, Comet_Index c))\<rparr>"
  shows "view_ok cr ps v' (ch(Comet_Creator c := ch (Comet_Creator c) @ [x]))"
proof -
  let ?C = "v_comets v"
  have "graph_ok ps (upd cid coord (touched ?C cid c) (?C(x \<mapsto> placed ps ?C cid coord (core c))))
      (ch(Comet_Creator c := ch (Comet_Creator c) @ [x]))"
    using graph_ok_insert [OF view_okD(1) [OF v], of x "core c" cid coord] ins cid coord by simp
  moreover have "Comet_Hex cr d = k"
    if "upd cid coord (touched ?C cid c) (?C(x \<mapsto> placed ps ?C cid coord (core c))) k = Some d" for k d
    using that view_okD(5) [OF v, of k] x by (auto simp: upd_Some split: if_splits)
  moreover have "Comet_Index c = int (length (ch (Comet_Creator c)))"
    using ins by (simp add: insert_ok_def)
  ultimately show ?thesis
    using cid view_okD(6,7) [OF v] unfolding v' view_ok_def by simp
qed

lemma store_comet_returns:
  assumes inv: "ginv ch g" and x: "x = Comet_Hex cr c"
    and ins: "insert_ok (Participants g) (comets_of g) ch x c" and room: "roomy (view (cgStore g))"
    and fuel: "\<And>q. length (ch q) + 1 < fuel"
    and sigs: "\<And>bs. bs \<in> set (Comet_BlockSignatures c) \<Longrightarrow> readable cr bs"
  shows "returns (store_comet cr S fuel c g) (\<lambda>r g'. r = Inr () \<and> inserted ch x c g g' \<and>
    topologicalIndex g' = topologicalIndex g)"
proof -
  let ?C = "comets_of g" and ?ps = "Participants g" and ?p = "Comet_Creator c"
  let ?ch = "ch(?p := ch ?p @ [x])"
  have v: "view_ok cr ?ps (view (cgStore g)) ch" using inv by (simp add: ginv_def)
  note vd = view_okD [OF v, folded comets_of_def]
  obtain cid where cid: "map_of ?ps ?p = Some cid" using ins by (auto simp: insert_ok_def)
  define coord where "coord = \<lparr>ec_Hash = x, ec_Index = Comet_Index c\<rparr>"
  define d where "d = placed ?ps ?C cid coord c"
  define D where "D = ?C(x \<mapsto> core d)"
  have D: "D = ?C(x \<mapsto> placed ?ps ?C cid coord (core c))" by (simp add: D_def d_def core_placed)
  have hd: "Comet_Hex cr d = x" by (simp add: d_def x)
  have ins': "insert_ok ?ps ?C ch x (core c)" using ins by simp
  have init: "returns (InitEventCoordinates cr S c g) (\<lambda>r g'. same g g' \<and> r = Inr d)"
    using InitEventCoordinates_returns [OF inv cid] by (simp add: d_def coord_def x)
  have rest: "returns (do {
          (e, g) \<leftarrow> sSetComet S d g1;
          (case e of Some err \<Rightarrow> Some (Inl (Errorf (''SetEvent: '' @ StoreErr_Error err)), g)
           | None \<Rightarrow> do {
               (r, g) \<leftarrow> UpdateAncestorFirstDescendant cr S fuel d g;
               (case r of
                  Inl e \<Rightarrow> Some (Inl (Errorf (''UpdateAncestorFirstDescendant: '' @ error_text e)), g)
                | Inr _ \<Rightarrow> do {
                    let g = g\<lparr>UndeterminedEvents := UndeterminedEvents g @ [Comet_Hex cr d],
                               PendingLoadedEvents := (if Comet_IsLoaded d
                                 then PendingLoadedEvents g + 1 else PendingLoadedEvents g)\<rparr>;
                    (_, g) \<leftarrow> recordBlockSignatures cr S (Comet_BlockSignatures d) g;
                    Some (Inr (), g)
                  })
             })
        }) (\<lambda>r g'. r = Inr () \<and> inserted ch x c g g' \<and> topologicalIndex g' = topologicalIndex g)"
    if g1: "same g g1" for g1
  proof -
    note s = sameD [OF g1]
    have ne: "next_event (view (cgStore g1)) d"
      using insert_ok_next_event [OF v] ins s(4) by (simp add: comets_of_def d_def)
    obtain st where st: "sSetComet S d g1 = Some (None, g1\<lparr>cgStore := st\<rparr>)" "ok st"
      "view st = (view (cgStore g))\<lparr>v_comets := D,
         v_last := (v_last (view (cgStore g)))(?p \<mapsto> Some (x, Comet_Index c))\<rparr>"
      using sSetComet_new_returns [OF s(3) _ ne] ins room s(4,5) hd
      by (auto simp: insert_ok_def D_def d_def)
    let ?g2 = "g1\<lparr>cgStore := st\<rparr>"
    have C2: "comets_of ?g2 = D" using st(3) by (simp add: comets_of_def)
    have wk: "walkable cr ?ps (comets_of ?g2) ?ch cid"
      using placed_walkable [OF vd(1) ins', of cid coord cr] cid vd(5) x
      by (simp add: C2 D coord_def)
    have la: "la_pred (anc D x) (?ch q) (LastAncestors d ! nat i)" if "map_of ?ps q = Some i" for q i
      using la_insert(2) [OF vd(1) ins' _ that, of cid coord] cid
      by (simp add: D coord_def d_def placed_def init_la_def)
    have upd: "returns (UpdateAncestorFirstDescendant cr S fuel d ?g2) (\<lambda>r g'. r = Inr () \<and>
        walked cid coord (touched ?C cid c) ?g2 g')"
    proof -
      have T: "{k. k \<in> dom D \<and> anc D x k \<and> unset D cid k} = touched ?C cid c"
        using touched_eq [OF vd(3) ins' vd(2) _ _ D] cid by (simp add: coord_def)
      have len: "length (LastAncestors d) = length ?ps"
        using length_init_la [OF vd(4)] by (simp add: d_def placed_def)
      have f: "length (?ch q) < fuel" for q using fuel [of q] by auto
      have "returns (UpdateAncestorFirstDescendant cr S fuel d ?g2) (\<lambda>r g'. r = Inr () \<and>
          walked cid coord {k. k \<in> dom (comets_of ?g2) \<and> anc D x k \<and> unset (comets_of ?g2) cid k} ?g2 g')"
        by (rule UpdateAncestorFirstDescendant_returns [OF wk _ _ _ _ len la f])
          (use st(2) s(1) cid x in \<open>simp_all add: coord_def d_def\<close>)
      then show ?thesis unfolding C2 T .
    qed
    have fin: "inserted ch x c g g5 \<and> topologicalIndex g5 = topologicalIndex g"
      if w: "walked cid coord (touched ?C cid c) ?g2 g3"
        and g4: "g4 = g3\<lparr>UndeterminedEvents := UndeterminedEvents g3 @ [x], PendingLoadedEvents := n\<rparr>"
        and g5: "only_blocks g4 g5" for g3 g4 g5 n
    proof -
      obtain st3 where st3: "g3 = ?g2\<lparr>cgStore := st3\<rparr>" "ok st3"
        "view st3 = (view st)\<lparr>v_comets := upd cid coord (touched ?C cid c) D\<rparr>"
        using w C2 by (auto simp: walked_def)
      obtain st5 m where st5: "g5 = g4\<lparr>cgStore := st5\<rparr>" "ok st5" "view st5 = (view st3)\<lparr>v_blocks := m\<rparr>"
        using g5 by (auto simp: only_blocks_def g4 st3(1))
      have "view_ok cr ?ps (view st3) ?ch"
        by (rule stored_view_ok [OF v _ cid x coord_def])
          (use ins in \<open>simp_all add: st3(3) st(3) D comets_of_def\<close>)
      then have "ginv ?ch g5" using st5 s(1) by (simp add: ginv_def g4 st3(1))
      moreover have "comets_of g5 = upd cid coord (touched ?C cid c) D"
        using st5(1,3) st3(3) by (simp add: comets_of_def)
      moreover have "dom D = insert x (dom ?C)" by (simp add: D_def)
      moreover have "par D = par ?C \<union> {x} \<times> ({Comet_SelfParent c, Comet_OtherParent c} \<inter> dom ?C)"
        using par_insert [of ?C x "placed ?ps ?C cid coord (core c)"] insert_ok_fresh [OF vd(3) ins']
        by (simp add: D fresh_for_def)
      moreover have "if k = x then cSignature e = cSignature c
          else \<exists>f. ?C k = Some f \<and> cSignature e = cSignature f"
        if "upd cid coord (touched ?C cid c) D k = Some e" for k e
        using that by (auto simp: upd_Some D_def d_def placed_def core_def Comet_SetWireInfo_def split: if_splits)
      moreover have "v_rounds (view (cgStore g5)) = v_rounds (view (cgStore g))"
        using st5(1,3) st3(3) st(3) by simp
      ultimately show ?thesis
        using g1 by (auto simp: inserted_def st5(1) g4 st3(1) same_def)
    qed
    have rec: "returns (recordBlockSignatures cr S (Comet_BlockSignatures d) g4) (\<lambda>_ g5.
        inserted ch x c g g5 \<and> topologicalIndex g5 = topologicalIndex g)"
      if w: "walked cid coord (touched ?C cid c) ?g2 g3"
        and g4: "g4 = g3\<lparr>UndeterminedEvents := UndeterminedEvents g3 @ [x], PendingLoadedEvents := n\<rparr>"
      for g3 g4 n
    proof -
      have "ok (cgStore g4)" using w by (auto simp: walked_def g4)
      then have "returns (recordBlockSignatures cr S (Comet_BlockSignatures d) g4) (\<lambda>_. only_blocks g4)"
        using recordBlockSignatures_returns [of g4 "Comet_BlockSignatures d"] sigs by (simp add: d_def)
      then show ?thesis by (rule returns_mono) (rule fin [OF w g4])
    qed
    show ?thesis
      unfolding st(1) Option.bind.simps split_conv option.case Let_def hd returns_bind
      by (rule returns_mono [OF upd]) (use rec in auto)
  qed
  show ?thesis
    unfolding store_comet_def returns_bind split_conv
    by (rule returns_mono [OF init]) (use rest in \<open>simp del: returns_bind\<close>)
qed

section \<open>The checks\<close>

definition tip :: "chains \<Rightarrow> string \<Rightarrow> string" where
  "tip ch p = (if ch p = [] then [] else last (ch p))"

lemma CheckSelfParent_eq:
  assumes "ginv ch g"
  shows "CheckSelfParent S c g = (if Parents (Body c) = [] then None else Some (
    (if map_of (Participants g) (Comet_Creator c) = None
     then Inl (SErr (NewStoreErr UnknownParticipant (Comet_Creator c)))
     else if Comet_SelfParent c = tip ch (Comet_Creator c) then Inr ()
     else Inl (Errorf ''Self-parent not last known event by creator'')), g))"
proof -
  have ok: "ok (cgStore g)" and v: "view_ok cr (Participants g) (view (cgStore g)) ch"
    using assms by (simp_all add: ginv_def)
  show ?thesis
    using view_okD(6,7) [OF v, of "Comet_Creator c"]
    by (auto simp: CheckSelfParent_def LastEventFrom_law [OF ok] spec_LastEventFrom_def tip_def NewBaseRoot_def)
qed

lemma CheckOtherParent_returns:
  assumes "ginv ch g" "2 \<le> length (Parents (Body c))" "map_of (Participants g) (Comet_Creator c) \<noteq> None"
  shows "returns (CheckOtherParent cr S c g) (\<lambda>r g'. same g g' \<and>
    r = (if Comet_OtherParent c = [] \<or> Comet_OtherParent c \<in> dom (comets_of g) then Inr ()
         else Inl (Errorf ''Other-parent not known'')))"
proof -
  have ok: "ok (cgStore g)" and v: "view_ok cr (Participants g) (view (cgStore g)) ch"
    using assms by (simp_all add: ginv_def)
  have root: "st_GetRoot S (Comet_Creator c) (cgStore g') = Inr NewBaseRoot" if "same g g'" for g'
    using GetRoot_law [of "cgStore g'"] sameD(3,4) [OF that] view_okD(7) [OF v assms(3)] by simp
  show ?thesis
  proof (cases "Comet_OtherParent c = []")
    case True
    then show ?thesis using assms(2) same_refl [OF ok] by (simp add: CheckOtherParent_def)
  next
    case False
    show ?thesis
      unfolding CheckOtherParent_def using False assms(2)
      by (auto simp: Let_def root NewBaseRoot_def intro!: sGetComet_returns [OF ok])
  qed
qed

lemma SetWireInfo_returns:
  assumes "ginv ch g" "map_of (Participants g) (Comet_Creator c) \<noteq> None"
    and "Comet_SelfParent c = tip ch (Comet_Creator c)"
    and "Comet_OtherParent c = [] \<or> Comet_OtherParent c \<in> dom (comets_of g)"
  shows "returns (SetWireInfo S c g) (\<lambda>r g'. same g g' \<and> (\<exists>i j k l. r = Inr (Comet_SetWireInfo c i j k l)))"
proof -
  let ?p = "Comet_Creator c"
  have ok: "ok (cgStore g)" and v: "view_ok cr (Participants g) (view (cgStore g)) ch"
    using assms by (simp_all add: ginv_def)
  note vd = view_okD(3) [OF v, folded comets_of_def]
  have last: "st_LastEventFrom S ?p (cgStore g) = (tip ch ?p, ch ?p = [], None)"
    using view_okD(6,7) [OF v, of ?p] assms(2)
    by (auto simp: LastEventFrom_law [OF ok] spec_LastEventFrom_def tip_def NewBaseRoot_def)
  have root: "st_GetRoot S ?p (cgStore g) = Inr NewBaseRoot"
    using GetRoot_law [OF ok] view_okD(7) [OF v assms(2)] by simp
  have sp: "Comet_SelfParent c \<in> dom (comets_of g)" if "ch ?p \<noteq> []"
    using chain_dom [OF vd, of "length (ch ?p) - 1" ?p] that assms(3) by (auto simp: tip_def last_conv_nth)
  let ?sp = "if ch ?p = [] \<and> tip ch ?p = Comet_SelfParent c
    then Some (case st_GetRoot S ?p (cgStore g) of Inl e \<Rightarrow> Inl e | Inr root \<Rightarrow> Inr (root_Index root), g)
    else do {
      (r, g) \<leftarrow> sGetComet S (Comet_SelfParent c) g;
      Some (case r of Inl e \<Rightarrow> Inl e | Inr sp \<Rightarrow> Inr (Comet_Index sp), g)
    }"
  have 1: "returns ?sp (\<lambda>r g'. same g g' \<and> (\<exists>i. r = Inr i))"
    using root sp assms(3) same_refl [OF ok] by (auto intro!: sGetComet_returns [OF ok])
  have 2: "returns (do {
      (rop, g) \<leftarrow>
        (if Comet_OtherParent c \<noteq> [] then do {
           (r, g) \<leftarrow> sGetComet S (Comet_OtherParent c) g1;
           Some (case r of Inl e \<Rightarrow> Inl e
                 | Inr op \<Rightarrow> Inr (lookup0 (Participants g) (Comet_Creator op), Comet_Index op), g)
         } else Some (Inr (-1, -1), g1));
      (case rop of
         Inl e \<Rightarrow> Some (Inl (SErr e), g)
       | Inr (opCreatorID, opIndex) \<Rightarrow>
           Some (Inr (Comet_SetWireInfo c i opCreatorID opIndex (lookup0 (Participants g) ?p)), g))
    }) (\<lambda>r g'. same g g' \<and> (\<exists>i j k l. r = Inr (Comet_SetWireInfo c i j k l)))" if g1: "same g g1" for g1 i
    using assms(4) g1 sameD(3,5) [OF g1] same_trans [OF g1] by (auto intro!: sGetComet_returns) blast+
  show ?thesis
    unfolding SetWireInfo_def last Let_def split_conv returns_bind [where c = ?sp]
    by (rule returns_mono [OF 1]) (use 2 in \<open>auto simp del: returns_bind\<close>)
qed

text \<open>\<^verbatim>\<open>InsertComet\<close> stores every comet that passes the checks and is the next one of its creator.\<close>

lemma InsertComet_returns:
  assumes inv: "ginv ch g" and x: "x = Comet_Hex cr c"
    and sig: "Comet_Verify cr c = Some (Inr True)" and len: "2 \<le> length (Parents (Body c))"
    and ins: "insert_ok (Participants g) (comets_of g) ch x c" and room: "roomy (view (cgStore g))"
    and fuel: "\<And>q. length (ch q) + 1 < fuel"
    and sigs: "\<And>bs. bs \<in> set (Comet_BlockSignatures c) \<Longrightarrow> readable cr bs"
  shows "returns (InsertComet cr S fuel c w g) (\<lambda>r g'. r = Inr () \<and> inserted ch x c g g' \<and>
    topologicalIndex g' = topologicalIndex g + 1)"
proof -
  have creator: "map_of (Participants g) (Comet_Creator c) \<noteq> None"
    and tip: "Comet_SelfParent c = tip ch (Comet_Creator c)"
    and other: "Comet_OtherParent c = [] \<or> Comet_OtherParent c \<in> dom (comets_of g)"
    using ins by (auto simp: insert_ok_def tip_def)
  let ?Q = "\<lambda>r g'. r = Inr () \<and> inserted ch x c g g' \<and> topologicalIndex g' = topologicalIndex g + 1"
  have store: "returns (store_comet cr S fuel d g2) ?Q"
    if g2: "same (g1\<lparr>topologicalIndex := topologicalIndex g1 + 1\<rparr>) g2" and g1: "same g g1"
      and d: "d = c\<lparr>TopologicalIndex := t\<rparr> \<or> (\<exists>i j k l. d = Comet_SetWireInfo (c\<lparr>TopologicalIndex := t\<rparr>) i j k l)"
    for g1 g2 d t
  proof -
    have dc: "Comet_Hex cr d = Comet_Hex cr c" "Comet_Creator d = Comet_Creator c"
      "Comet_SelfParent d = Comet_SelfParent c" "Comet_OtherParent d = Comet_OtherParent c"
      "Comet_Index d = Comet_Index c" "Comet_BlockSignatures d = Comet_BlockSignatures c"
      "cSignature d = cSignature c"
      using d by auto
    note s = sameD [OF g1] sameD [OF g2]
    have g2': "Participants g2 = Participants g" "view (cgStore g2) = view (cgStore g)"
      "comets_of g2 = comets_of g" "topologicalIndex g2 = topologicalIndex g + 1" "ginv ch g2"
      "UndeterminedEvents g2 = UndeterminedEvents g" "mostPlurality g2 = mostPlurality g"
      "ancestorCache g2 = ancestorCache g" "stronglySeeCache g2 = stronglySeeCache g"
      using s inv g1 g2 by (auto simp: ginv_def comets_of_def same_def)
    have "insert_ok (Participants g2) (comets_of g2) ch x d"
      using ins by (simp add: insert_ok_def dc g2')
    then have "returns (store_comet cr S fuel d g2) (\<lambda>r g'. r = Inr () \<and> inserted ch x d g2 g' \<and>
        topologicalIndex g' = topologicalIndex g2)"
      using store_comet_returns [OF g2'(5) _ _ _ fuel, of x d] room sigs x by (simp add: g2' dc)
    then show ?thesis
      by (rule returns_mono) (simp add: inserted_def g2' dc cong: if_cong)
  qed
  have rest: "returns (do {
        let comet = c\<lparr>TopologicalIndex := topologicalIndex g1\<rparr>;
        let g = g1\<lparr>topologicalIndex := topologicalIndex g1 + 1\<rparr>;
        if w then do {
          (r, g) \<leftarrow> SetWireInfo S comet g;
          (case r of Inl e \<Rightarrow> Some (Inl (Errorf (''SetWireInfo: '' @ error_text e)), g)
           | Inr comet \<Rightarrow> store_comet cr S fuel comet g)
        } else store_comet cr S fuel comet g
      }) ?Q" if g1: "same g g1" for g1
  proof -
    let ?g = "g1\<lparr>topologicalIndex := topologicalIndex g1 + 1\<rparr>"
    have inv1: "ginv ch ?g" and dom1: "comets_of ?g = comets_of g" "Participants ?g = Participants g"
      using sameD [OF g1] inv by (simp_all add: ginv_def comets_of_def)
    have same1: "same ?g ?g" using inv1 by (simp add: same_refl ginv_def)
    have "returns (SetWireInfo S (c\<lparr>TopologicalIndex := topologicalIndex g1\<rparr>) ?g) (\<lambda>r g'. same ?g g' \<and>
        (\<exists>i j k l. r = Inr (Comet_SetWireInfo (c\<lparr>TopologicalIndex := topologicalIndex g1\<rparr>) i j k l)))"
      by (rule SetWireInfo_returns [OF inv1]) (use creator tip other dom1 in simp_all)
    moreover have "returns (store_comet cr S fuel
        (Comet_SetWireInfo (c\<lparr>TopologicalIndex := topologicalIndex g1\<rparr>) i j k l) g2) ?Q"
      if "same ?g g2" for g2 i j k l
      by (rule store [OF that g1]) blast
    ultimately have "returns (do {
          (r, g) \<leftarrow> SetWireInfo S (c\<lparr>TopologicalIndex := topologicalIndex g1\<rparr>) ?g;
          (case r of Inl e \<Rightarrow> Some (Inl (Errorf (''SetWireInfo: '' @ error_text e)), g)
           | Inr comet \<Rightarrow> store_comet cr S fuel comet g) }) ?Q"
      unfolding returns_bind by (elim returns_mono) auto
    moreover have "returns (store_comet cr S fuel (c\<lparr>TopologicalIndex := topologicalIndex g1\<rparr>) ?g) ?Q"
      by (rule store [OF same1 g1]) blast
    ultimately show ?thesis by (simp add: Let_def del: returns_bind)
  qed
  have "returns (CheckOtherParent cr S c g) (\<lambda>r g'. same g g' \<and> r = Inr ())"
    using CheckOtherParent_returns [OF inv len creator] other by simp
  then have "returns (do {
        (r, g) \<leftarrow> CheckOtherParent cr S c g;
        (case r of Inl e \<Rightarrow> Some (Inl (Errorf (''CheckOtherParent: '' @ error_text e)), g)
         | Inr _ \<Rightarrow> do {
             let comet = c\<lparr>TopologicalIndex := topologicalIndex g\<rparr>;
             let g = g\<lparr>topologicalIndex := topologicalIndex g + 1\<rparr>;
             if w then do {
               (r, g) \<leftarrow> SetWireInfo S comet g;
               (case r of Inl e \<Rightarrow> Some (Inl (Errorf (''SetWireInfo: '' @ error_text e)), g)
                | Inr comet \<Rightarrow> store_comet cr S fuel comet g)
             } else store_comet cr S fuel comet g
           }) }) ?Q"
    unfolding returns_bind [where c = "CheckOtherParent cr S c g"]
    by (rule returns_mono) (use rest in \<open>auto simp del: returns_bind\<close>)
  moreover have "Parents (Body c) \<noteq> []" using len by auto
  ultimately show ?thesis
    using creator tip by (simp add: InsertComet_def sig CheckSelfParent_eq [OF inv] del: returns_bind)
qed

text \<open>What a comet must satisfy to be accepted.\<close>

lemma InsertComet_accepted:
  assumes inv: "ginv ch g" and acc: "InsertComet cr S fuel c w g = Some (Inr (), g')"
  shows "Comet_Verify cr c = Some (Inr True)" "2 \<le> length (Parents (Body c))"
    "map_of (Participants g) (Comet_Creator c) \<noteq> None"
    "Comet_SelfParent c = tip ch (Comet_Creator c)"
    "Comet_OtherParent c = [] \<or> Comet_OtherParent c \<in> dom (comets_of g)"
proof -
  obtain v where "Comet_Verify cr c = Some v"
    using acc by (cases "Comet_Verify cr c") (simp_all add: InsertComet_def)
  moreover have "v = Inr True"
  proof (cases v)
    case (Inr b)
    then show ?thesis using acc calculation by (cases b) (simp_all add: InsertComet_def)
  qed (use acc calculation in \<open>simp add: InsertComet_def\<close>)
  ultimately show sig: "Comet_Verify cr c = Some (Inr True)" by simp
  have p: "Parents (Body c) \<noteq> []"
    using acc by (rule_tac notI) (simp add: InsertComet_def sig CheckSelfParent_eq [OF inv])
  have cr: "map_of (Participants g) (Comet_Creator c) \<noteq> None"
    using acc p by (rule_tac notI) (simp add: InsertComet_def sig CheckSelfParent_eq [OF inv])
  have tp: "Comet_SelfParent c = tip ch (Comet_Creator c)"
    using acc p cr by (rule_tac ccontr) (simp add: InsertComet_def sig CheckSelfParent_eq [OF inv])
  show "map_of (Participants g) (Comet_Creator c) \<noteq> None"
    "Comet_SelfParent c = tip ch (Comet_Creator c)" using cr tp by simp_all
  obtain q h where q: "CheckOtherParent cr S c g = Some (q, h)"
    using acc p cr tp
    by (cases "CheckOtherParent cr S c g") (auto simp: InsertComet_def sig CheckSelfParent_eq [OF inv])
  moreover obtain r where "q = Inr r"
    using acc p cr tp q by (cases q) (simp_all add: InsertComet_def sig CheckSelfParent_eq [OF inv])
  ultimately have r: "CheckOtherParent cr S c g = Some (Inr r, h)" by simp
  show len: "2 \<le> length (Parents (Body c))"
    using r by (auto simp: CheckOtherParent_def split: if_splits)
  show "Comet_OtherParent c = [] \<or> Comet_OtherParent c \<in> dom (comets_of g)"
    using CheckOtherParent_returns [OF inv len cr] r by (auto split: if_splits)
qed

section \<open>The memo caches\<close>

text \<open>
  The caches hold correct answers.  The hash of no comet is empty, so an entry for the empty hash, which
  \<^verbatim>\<open>Witness\<close> can make when a comet has no self-parent, is never read for a comet.
\<close>

definition caches_ok :: "'st CometGraph \<Rightarrow> bool" where
  "caches_ok g \<longleftrightarrow>
     lru.coherent (\<lambda>(x, y) b. x \<in> dom (comets_of g) \<and> y \<in> dom (comets_of g) \<and>
        b = anc (comets_of g) x y) (ancestorCache g) \<and>
     lru.coherent (\<lambda>(x, y) b. x \<noteq> [] \<longrightarrow> x \<in> dom (comets_of g) \<and> y \<in> dom (comets_of g) \<and>
        b = (int (card (between (comets_of g) x y)) \<ge> mostPlurality g)) (stronglySeeCache g)"

text \<open>After a memoised query only the memo caches and the recency of the store have changed.\<close>

definition quiet :: "'st CometGraph \<Rightarrow> 'st CometGraph \<Rightarrow> bool" where
  "quiet g g' \<longleftrightarrow> (\<exists>st a b. g' = g\<lparr>cgStore := st, ancestorCache := a, stronglySeeCache := b\<rparr> \<and>
     ok st \<and> view st = view (cgStore g))"

lemma quietI:
  "ok st \<Longrightarrow> view st = view (cgStore g) \<Longrightarrow> quiet g (g\<lparr>cgStore := st, ancestorCache := a, stronglySeeCache := b\<rparr>)"
  by (auto simp: quiet_def)

lemma quiet_trans:
  assumes "quiet g h" "quiet h k"
  shows "quiet g k"
proof -
  obtain st a b where h: "h = g\<lparr>cgStore := st, ancestorCache := a, stronglySeeCache := b\<rparr>"
    "view st = view (cgStore g)" using assms(1) by (auto simp: quiet_def)
  obtain st' a' b' where k: "k = h\<lparr>cgStore := st', ancestorCache := a', stronglySeeCache := b'\<rparr>"
    "ok st'" "view st' = view (cgStore h)" using assms(2) by (auto simp: quiet_def)
  show ?thesis using quietI [OF k(2), of g b' a'] k(3) h(2) by (simp add: k(1) h(1))
qed

lemma same_quiet:
  assumes "same g h"
  shows "quiet g h" "quiet g (h\<lparr>ancestorCache := a\<rparr>)" "quiet g (h\<lparr>stronglySeeCache := b\<rparr>)"
proof -
  obtain st where st: "h = g\<lparr>cgStore := st\<rparr>" "ok st" "view st = view (cgStore g)" using assms by (auto simp: same_def)
  show "quiet g h" using quietI [OF st(2,3), where a = "ancestorCache g" and b = "stronglySeeCache g"] by (simp add: st(1))
  show "quiet g (h\<lparr>ancestorCache := a\<rparr>)" using quietI [OF st(2,3), where a = a and b = "stronglySeeCache g"] by (simp add: st(1))
  show "quiet g (h\<lparr>stronglySeeCache := b\<rparr>)" using quietI [OF st(2,3), where a = "ancestorCache g" and b = b] by (simp add: st(1))
qed

lemma quietD:
  assumes "quiet g g'"
  shows "Participants g' = Participants g" "mostPlurality g' = mostPlurality g" "ok (cgStore g')"
    "view (cgStore g') = view (cgStore g)" "comets_of g' = comets_of g"
    "topologicalIndex g' = topologicalIndex g" "UndecidedRounds g' = UndecidedRounds g"
    "LastConsensusRound g' = LastConsensusRound g" "UndeterminedEvents g' = UndeterminedEvents g"
    "ginv ch g \<Longrightarrow> ginv ch g'"
  using assms by (auto simp: quiet_def comets_of_def ginv_def)

lemma AncestorOf_returns:
  assumes inv: "ginv ch g" "caches_ok g" and xy: "x \<in> dom (comets_of g)" "y \<in> dom (comets_of g)"
  shows "returns (AncestorOf S x y g) (\<lambda>b g'. b = anc (comets_of g) x y \<and> quiet g g' \<and> caches_ok g')"
proof -
  obtain hit c where get: "LRU_Get (ancestorCache g) (x, y) = (hit, c)" by fastforce
  let ?R = "\<lambda>(x, y) b. x \<in> dom (comets_of g) \<and> y \<in> dom (comets_of g) \<and> b = anc (comets_of g) x y"
  have co: "lru.coherent ?R c" "hit = Some b \<Longrightarrow> b = anc (comets_of g) x y" for b
    using lru.coherent_lookup [of ?R "ancestorCache g" "(x, y)"] inv(2) get by (auto simp: caches_ok_def)
  let ?g = "g\<lparr>ancestorCache := c\<rparr>"
  have ok: "ok (cgStore g)" using inv(1) by (simp add: ginv_def)
  have g1: "ginv ch ?g" "caches_ok ?g" "comets_of ?g = comets_of g" "quiet g ?g"
    using inv co(1) same_quiet(2) [OF same_refl [OF ok]] by (simp_all add: ginv_def caches_ok_def comets_of_def)
  show ?thesis
  proof (cases hit)
    case (Some b)
    then show ?thesis using get co(2) g1 by (simp add: AncestorOf_def)
  next
    case None
    have add: "quiet g (h\<lparr>ancestorCache := d\<rparr>) \<and> caches_ok (h\<lparr>ancestorCache := d\<rparr>)"
      if h: "same ?g h" and d: "d = snd (LRU_Add (ancestorCache h) (x, y) (anc (comets_of g) x y))" for h d
    proof
      show "quiet g (h\<lparr>ancestorCache := d\<rparr>)" by (rule quiet_trans [OF g1(4) same_quiet(2) [OF h]])
      show "caches_ok (h\<lparr>ancestorCache := d\<rparr>)"
        using g1 h lru.coherent_insert [OF co(1), of "(x, y)" "anc (comets_of g) x y"] xy
        by (auto simp: ginv_def caches_ok_def comets_of_def same_def d)
    qed
    have "returns (ancestor S x y ?g) (\<lambda>b g'. same ?g g' \<and> (b \<longleftrightarrow> anc (comets_of g) x y))"
      using ancestor_returns [OF g1(1)] xy g1(3) by simp
    then show ?thesis
      using None get add by (auto simp: AncestorOf_def elim!: returns_mono)
  qed
qed

lemma StronglySee_returns:
  assumes inv: "ginv ch g" "caches_ok g" and xy: "x \<in> dom (comets_of g)" "y \<in> dom (comets_of g)"
  shows "returns (StronglySee S x y g) (\<lambda>b g'.
    b = (int (card (between (comets_of g) x y)) \<ge> mostPlurality g) \<and> quiet g g' \<and> caches_ok g')"
proof -
  obtain hit c where get: "LRU_Get (stronglySeeCache g) (x, y) = (hit, c)" by fastforce
  let ?f = "\<lambda>x y. int (card (between (comets_of g) x y)) \<ge> mostPlurality g"
  let ?R = "\<lambda>(x, y) b. x \<noteq> [] \<longrightarrow> x \<in> dom (comets_of g) \<and> y \<in> dom (comets_of g) \<and> b = ?f x y"
  have x: "x \<noteq> []" using inv(1) xy(1) by (auto simp: ginv_def comets_of_def view_ok_def graph_ok_def chains_ok_def)
  have co: "lru.coherent ?R c" "hit = Some b \<Longrightarrow> b = ?f x y" for b
    using lru.coherent_lookup [of ?R "stronglySeeCache g" "(x, y)"] inv(2) get x by (auto simp: caches_ok_def)
  let ?g = "g\<lparr>stronglySeeCache := c\<rparr>"
  have ok: "ok (cgStore g)" using inv(1) by (simp add: ginv_def)
  have g1: "ginv ch ?g" "caches_ok ?g" "comets_of ?g = comets_of g" "quiet g ?g"
    using inv co(1) same_quiet(3) [OF same_refl [OF ok]] by (simp_all add: ginv_def caches_ok_def comets_of_def)
  show ?thesis
  proof (cases hit)
    case (Some b)
    then show ?thesis using get co(2) g1 by (simp add: StronglySee_def)
  next
    case None
    have add: "quiet g (h\<lparr>stronglySeeCache := d\<rparr>) \<and> caches_ok (h\<lparr>stronglySeeCache := d\<rparr>)"
      if h: "same ?g h" and d: "d = snd (LRU_Add (stronglySeeCache h) (x, y) (?f x y))" for h d
    proof
      show "quiet g (h\<lparr>stronglySeeCache := d\<rparr>)" by (rule quiet_trans [OF g1(4) same_quiet(3) [OF h]])
      show "caches_ok (h\<lparr>stronglySeeCache := d\<rparr>)"
        using g1 h lru.coherent_insert [OF co(1), of "(x, y)" "?f x y"] xy
        by (auto simp: ginv_def caches_ok_def comets_of_def same_def d)
    qed
    have "returns (stronglySee S x y ?g) (\<lambda>b g'. same ?g g' \<and> (b \<longleftrightarrow> ?f x y))"
      using stronglySee_returns [OF g1(1)] xy g1(3) by simp
    then show ?thesis
      using None get add by (auto simp: StronglySee_def elim!: returns_mono)
  qed
qed

end

end
