(* ===== verification/Consensus.thy ===== *)
theory Consensus
  imports CometGraph
begin

text \<open>
  The consensus methods of \<^verbatim>\<open>src/core/sequentia/sequentia.go\<close> and the order of
  \<^verbatim>\<open>src/core/sequentia/sorter.go\<close>: rounds are filled by \<^verbatim>\<open>DivideRounds\<close>, witnesses are voted on by
  \<^verbatim>\<open>DecideFame\<close>, comets receive a round and a timestamp in \<^verbatim>\<open>DecideRoundReceived\<close>, and \<^verbatim>\<open>FindOrder\<close>
  sorts them and cuts the sequence into blocks.  The nested loops of \<^verbatim>\<open>DecideFame\<close> are one recursive
  function per loop, from the innermost to the outermost.  The bound \<^verbatim>\<open>LastRound()\<close> of a loop is read
  when the loop starts: nothing inside the loops stores a round above it.
\<close>

section \<open>Store calls\<close>

definition sGetRound :: "'st Store \<Rightarrow> int \<Rightarrow> ('st CometGraph, RoundInfo \<times> StoreErr option) op" where
  "sGetRound S i g = (let (r, st) = st_GetRound S i (cgStore g) in Some (r, g\<lparr>cgStore := st\<rparr>))"

definition sSetRound :: "'st Store \<Rightarrow> int \<Rightarrow> RoundInfo \<Rightarrow> ('st CometGraph, StoreErr option) op" where
  "sSetRound S i r g = (let (e, st) = st_SetRound S i r (cgStore g) in Some (e, g\<lparr>cgStore := st\<rparr>))"

definition sRoundEvents :: "'st Store \<Rightarrow> int \<Rightarrow> ('st CometGraph, int) op" where
  "sRoundEvents S i g = (let (n, st) = st_RoundEvents S i (cgStore g) in Some (n, g\<lparr>cgStore := st\<rparr>))"

definition sSetBlock :: "'st Store \<Rightarrow> Block \<Rightarrow> ('st CometGraph, StoreErr option) op" where
  "sSetBlock S b g = (let (e, st) = st_SetBlock S b (cgStore g) in Some (e, g\<lparr>cgStore := st\<rparr>))"

definition sAddConsensusEvent :: "'st Store \<Rightarrow> string \<Rightarrow> ('st CometGraph, StoreErr option) op" where
  "sAddConsensusEvent S x g =
     (let (e, st) = st_AddConsensusEvent S x (cgStore g) in Some (e, g\<lparr>cgStore := st\<rparr>))"

text \<open>Mapping an operation over a list, in order.\<close>

fun mapM :: "('a \<Rightarrow> ('s, 'b) op) \<Rightarrow> 'a list \<Rightarrow> ('s, 'b list) op" where
  "mapM f [] s = Some ([], s)"
| "mapM f (x # xs) s = do {
     (y, s) \<leftarrow> f x s;
     (ys, s) \<leftarrow> mapM f xs s;
     Some (y # ys, s)
   }"

section \<open>Dividing rounds\<close>

definition divideRound :: "'st Store \<Rightarrow> nat \<Rightarrow> string \<Rightarrow> ('st CometGraph, (error, unit) result) op" where
  "divideRound S n hash g = do {
     (roundNumber, g) \<leftarrow> Round S n hash g;
     (witness, g) \<leftarrow> Witness S n hash g;
     ((roundInfo, err), g) \<leftarrow> sGetRound S roundNumber g;
     if err \<noteq> None \<and> \<not> err_Is err KeyNotFound then Some (Inl (SErr (the err)), g)
     else do {
       let g = (if \<not> Queued roundInfo then g\<lparr>UndecidedRounds := UndecidedRounds g @ [roundNumber]\<rparr> else g);
       let roundInfo = RoundInfo_AddEvent (roundInfo\<lparr>Queued := True\<rparr>) hash witness;
       (err, g) \<leftarrow> sSetRound S roundNumber roundInfo g;
       Some (case err of Some e \<Rightarrow> Inl (SErr e) | None \<Rightarrow> Inr (), g)
     }
   }"

definition DivideRounds :: "'st Store \<Rightarrow> nat \<Rightarrow> ('st CometGraph, (error, unit) result) op" where
  "DivideRounds S n g = forE (UndeterminedEvents g) (divideRound S n) g"

section \<open>Deciding fame\<close>

type_synonym votes = "string \<Rightarrow> string \<Rightarrow> bool"

text \<open>Votes are read only as \<^verbatim>\<open>votes[w][x]\<close>, and an absent vote reads as false.\<close>

definition setVote :: "votes \<Rightarrow> string \<Rightarrow> string \<Rightarrow> bool \<Rightarrow> votes" where
  "setVote votes x y vote = votes(x := (votes x)(y := vote))"

text \<open>The slice of a shorter string panics; a decoding error is printed and the bytes decoded so far are used.\<close>

definition middleBit :: "string \<Rightarrow> bool option" where
  "middleBit ehex =
     (if length ehex < 2 then None
      else let hash = fst (hex_DecodeString (drop 2 ehex))
           in Some (\<not> (hash \<noteq> [] \<and> hash ! (length hash div 2) = 0)))"

text \<open>Counting the votes of the witnesses a voter strongly sees: the majority vote and its size.\<close>

definition tally :: "votes \<Rightarrow> string \<Rightarrow> string list \<Rightarrow> bool \<times> int" where
  "tally votes x ssWitnesses =
     (let yays = int (length (filter (\<lambda>w. votes w x) ssWitnesses));
          nays = int (length (filter (\<lambda>w. \<not> votes w x) ssWitnesses))
      in if yays \<ge> nays then (True, yays) else (False, nays))"

text \<open>\<^verbatim>\<open>math.Mod\<close> of the positive distance; with no participants it is not a number, and not positive.\<close>

definition normal_round :: "int \<Rightarrow> int \<Rightarrow> bool" where
  "normal_round diff n \<longleftrightarrow> n > 0 \<and> diff mod n > 0"

text \<open>
  The vote of \<open>y\<close>, a witness of round \<open>j\<close>, on \<open>x\<close>, a witness of round \<open>i\<close>.  The result says whether the vote
  decided the fame of \<open>x\<close>, which ends the loop over the rounds.
\<close>

definition fameVote :: "'st Store \<Rightarrow> int \<Rightarrow> string \<Rightarrow> int \<Rightarrow> string \<Rightarrow> votes \<Rightarrow> RoundInfo \<Rightarrow>
    ('st CometGraph, bool \<times> votes \<times> RoundInfo) op" where
  "fameVote S i x j y votes roundInfo g =
     (let diff = j - i
      in if diff = 1 then do {
           (b, g) \<leftarrow> See S y x g;
           Some ((False, setVote votes y x b, roundInfo), g)
         } else do {
           (ws, g) \<leftarrow> sRoundWitnesses S (j - 1) g;
           (ssWitnesses, g) \<leftarrow> filterM (StronglySee S y) ws g;
           let (v, t) = tally votes x ssWitnesses;
           if normal_round diff (int (length (Participants g))) then
             if t \<ge> mostPlurality g
             then Some ((True, setVote votes y x v, RoundInfo_SetFame roundInfo x v), g)
             else Some ((False, setVote votes y x v, roundInfo), g)
           else
             if t \<ge> mostPlurality g then Some ((False, setVote votes y x v, roundInfo), g)
             else do {
               b \<leftarrow> middleBit y;
               Some ((False, setVote votes y x b, roundInfo), g)
             }
         })"

fun fameYs :: "'st Store \<Rightarrow> int \<Rightarrow> string \<Rightarrow> int \<Rightarrow> string list \<Rightarrow> votes \<Rightarrow> RoundInfo \<Rightarrow>
    ('st CometGraph, bool \<times> votes \<times> RoundInfo) op" where
  "fameYs S i x j [] votes roundInfo g = Some ((False, votes, roundInfo), g)"
| "fameYs S i x j (y # ys) votes roundInfo g = do {
     ((decided, votes, roundInfo), g) \<leftarrow> fameVote S i x j y votes roundInfo g;
     if decided then Some ((True, votes, roundInfo), g)
     else fameYs S i x j ys votes roundInfo g
   }"

fun fameJs :: "'st Store \<Rightarrow> int \<Rightarrow> string \<Rightarrow> int list \<Rightarrow> votes \<Rightarrow> RoundInfo \<Rightarrow>
    ('st CometGraph, votes \<times> RoundInfo) op" where
  "fameJs S i x [] votes roundInfo g = Some ((votes, roundInfo), g)"
| "fameJs S i x (j # js) votes roundInfo g = do {
     (ys, g) \<leftarrow> sRoundWitnesses S j g;
     ((decided, votes, roundInfo), g) \<leftarrow> fameYs S i x j ys votes roundInfo g;
     if decided then Some ((votes, roundInfo), g)
     else fameJs S i x js votes roundInfo g
   }"

fun fameXs :: "'st Store \<Rightarrow> int \<Rightarrow> string list \<Rightarrow> votes \<Rightarrow> RoundInfo \<Rightarrow>
    ('st CometGraph, votes \<times> RoundInfo) op" where
  "fameXs S i [] votes roundInfo g = Some ((votes, roundInfo), g)"
| "fameXs S i (x # xs) votes roundInfo g =
     (if RoundInfo_IsDecided roundInfo x then fameXs S i xs votes roundInfo g
      else do {
        ((votes, roundInfo), g) \<leftarrow> fameJs S i x [i + 1 .. st_LastRound S (cgStore g)] votes roundInfo g;
        fameXs S i xs votes roundInfo g
      })"

definition setLastConsensusRound :: "'st Store \<Rightarrow> int \<Rightarrow> ('st CometGraph, unit) op" where
  "setLastConsensusRound S i g = do {
     (n, g) \<leftarrow> sRoundEvents S (i - 1) (g\<lparr>LastConsensusRound := Some i\<rparr>);
     Some ((), g\<lparr>LastCommitedRoundEvents := n\<rparr>)
   }"

text \<open>The loop over the undecided rounds; \<open>decided\<close> collects the keys of \<^verbatim>\<open>decidedRounds\<close>.\<close>

fun fameRounds :: "'st Store \<Rightarrow> int list \<Rightarrow> votes \<Rightarrow> int list \<Rightarrow>
    ('st CometGraph, int list \<times> (error, unit) result) op" where
  "fameRounds S [] votes decided g = Some ((decided, Inr ()), g)"
| "fameRounds S (i # rest) votes decided g = do {
     ((roundInfo, err), g) \<leftarrow> sGetRound S i g;
     (case err of
        Some e \<Rightarrow> Some ((decided, Inl (SErr e)), g)
      | None \<Rightarrow> do {
          ((votes, roundInfo), g) \<leftarrow> fameXs S i (RoundInfo_Witnesses roundInfo) votes roundInfo g;
          (decided, g) \<leftarrow>
            (if RoundInfo_WitnessesDecided roundInfo then do {
               (_, g) \<leftarrow>
                 (if (case LastConsensusRound g of None \<Rightarrow> True | Some l \<Rightarrow> i > l)
                  then setLastConsensusRound S i g else Some ((), g));
               Some (decided @ [i], g)
             } else Some (decided, g));
          (err, g) \<leftarrow> sSetRound S i roundInfo g;
          (case err of
             Some e \<Rightarrow> Some ((decided, Inl (SErr e)), g)
           | None \<Rightarrow> fameRounds S rest votes decided g)
        })
   }"

definition updateUndecidedRounds :: "int list \<Rightarrow> 'st CometGraph \<Rightarrow> 'st CometGraph" where
  "updateUndecidedRounds decidedRounds g =
     g\<lparr>UndecidedRounds := filter (\<lambda>ur. ur \<notin> set decidedRounds) (UndecidedRounds g)\<rparr>"

text \<open>The deferred \<^verbatim>\<open>updateUndecidedRounds\<close> runs on every return, errors included.\<close>

definition DecideFame :: "'st Store \<Rightarrow> ('st CometGraph, (error, unit) result) op" where
  "DecideFame S g = do {
     ((decidedRounds, r), g) \<leftarrow> fameRounds S (UndecidedRounds g) (\<lambda>_ _. False) [] g;
     Some (r, updateUndecidedRounds decidedRounds g)
   }"

section \<open>Receiving comets\<close>

text \<open>The value of a comet variable that was not assigned; the zero time is 0.\<close>

definition zero_Comet :: Comet where
  "zero_Comet = NewComet 0 None None [] [] 0"

text \<open>A hash the store does not have gives the zero comet; no hashes at all are an index panic.\<close>

definition MedianTimestamp :: "'st Store \<Rightarrow> string list \<Rightarrow> ('st CometGraph, int) op" where
  "MedianTimestamp S eventHashes g = do {
     (events, g) \<leftarrow> mapM (\<lambda>x g. do {
         (r, g) \<leftarrow> sGetComet S x g;
         Some (case r of Inl _ \<Rightarrow> zero_Comet | Inr ex \<Rightarrow> ex, g)
       }) eventHashes g;
     e \<leftarrow> slice_at (sort_by ByTimestamp_Less events) (int (length events) div 2);
     Some (Timestamp (Body e), g)
   }"

fun receiveIn :: "'st Store \<Rightarrow> string \<Rightarrow> int list \<Rightarrow> ('st CometGraph, (error, unit) result) op" where
  "receiveIn S x [] g = Some (Inr (), g)"
| "receiveIn S x (i # is) g = do {
     ((tr, err), g) \<leftarrow> sGetRound S i g;
     if err \<noteq> None \<and> \<not> err_Is err KeyNotFound then Some (Inl (SErr (the err)), g)
     else if \<not> (RoundInfo_WitnessesDecided tr \<and> UndecidedRounds g \<noteq> [] \<and> hd (UndecidedRounds g) > i)
     then receiveIn S x is g
     else do {
       let fws = RoundInfo_FamousWitnesses tr;
       (s, g) \<leftarrow> filterM (\<lambda>w. See S w x) fws g;
       if length s > length fws div 2 then do {
         (r, g) \<leftarrow> sGetComet S x g;
         (case r of
            Inl e \<Rightarrow> Some (Inl (SErr e), g)
          | Inr ex \<Rightarrow> do {
              (t, g) \<leftarrow> mapM (\<lambda>a. OldestSelfAncestorToSee S a x) s g;
              (median, g) \<leftarrow> MedianTimestamp S t g;
              (err, g) \<leftarrow> sSetComet S
                ((Comet_SetRoundReceived ex i)\<lparr>ConsensusTimestamp := median\<rparr>) g;
              Some (case err of Some e \<Rightarrow> Inl (SErr e) | None \<Rightarrow> Inr (), g)
            })
       } else receiveIn S x is g
     }
   }"

definition DecideRoundReceived :: "'st Store \<Rightarrow> nat \<Rightarrow> ('st CometGraph, (error, unit) result) op" where
  "DecideRoundReceived S n g = forE (UndeterminedEvents g) (\<lambda>x g. do {
     (r, g) \<leftarrow> Round S n x g;
     receiveIn S x [r + 1 .. st_LastRound S (cgStore g)] g
   }) g"

section \<open>The consensus order\<close>

text \<open>
  Sorting with a comparison that may panic: the insertion sort of \<^verbatim>\<open>sort.Sort\<close>, with the sorted part in
  reverse.  The library switches to other algorithms on long inputs; they produce a permutation sorted
  by the same comparison.
\<close>

fun insertM :: "('a \<Rightarrow> 'a \<Rightarrow> bool option) \<Rightarrow> 'a \<Rightarrow> 'a list \<Rightarrow> 'a list option" where
  "insertM lt x [] = Some [x]"
| "insertM lt x (y # ys) = do {
     b \<leftarrow> lt x y;
     if b then do { zs \<leftarrow> insertM lt x ys; Some (y # zs) } else Some (x # y # ys)
   }"

fun sortM_from :: "('a \<Rightarrow> 'a \<Rightarrow> bool option) \<Rightarrow> 'a list \<Rightarrow> 'a list \<Rightarrow> 'a list option" where
  "sortM_from lt acc [] = Some (rev acc)"
| "sortM_from lt acc (x # xs) = do { acc \<leftarrow> insertM lt x acc; sortM_from lt acc xs }"

definition sortM :: "('a \<Rightarrow> 'a \<Rightarrow> bool option) \<Rightarrow> 'a list \<Rightarrow> 'a list option" where
  "sortM lt xs = sortM_from lt [] xs"

text \<open>
  The field \<^verbatim>\<open>r\<close> of a sorter is made empty and never filled, so every round reads as the zero round.
  The field \<^verbatim>\<open>cache\<close> remembers numbers already computed and does not change them.
\<close>

record ConsensusSorter =
  cs_a :: "Comet list"
  cs_r :: "(int, RoundInfo) gomap"

definition NewConsensusSorter :: "Comet list \<Rightarrow> ConsensusSorter" where
  "NewConsensusSorter comets = \<lparr>cs_a = comets, cs_r = []\<rparr>"

definition GetPseudoRandomNumber :: "ConsensusSorter \<Rightarrow> int \<Rightarrow> int option" where
  "GetPseudoRandomNumber b round =
     RoundInfo_PseudoRandomNumber (case map_of (cs_r b) round of None \<Rightarrow> NewRoundInfo | Some rd \<Rightarrow> rd)"

definition sig_r :: "Comet \<Rightarrow> int option" where
  "sig_r c = (case DecodeSignature (cSignature c) of Inl _ \<Rightarrow> None | Inr (r, s) \<Rightarrow> r)"

definition ConsensusSorter_Less :: "ConsensusSorter \<Rightarrow> Comet \<Rightarrow> Comet \<Rightarrow> bool option" where
  "ConsensusSorter_Less b ai aj =
     (let irr = (case RoundReceived ai of None \<Rightarrow> -1 | Some r \<Rightarrow> r);
          jrr = (case RoundReceived aj of None \<Rightarrow> -1 | Some r \<Rightarrow> r)
      in if irr \<noteq> jrr then Some (irr < jrr)
         else if ConsensusTimestamp ai \<noteq> ConsensusTimestamp aj
         then Some (ConsensusTimestamp ai < ConsensusTimestamp aj)
         else do {
           rr \<leftarrow> RoundReceived ai;
           w \<leftarrow> GetPseudoRandomNumber b rr;
           wsi \<leftarrow> sig_r ai;
           wsj \<leftarrow> sig_r aj;
           Some ((wsi XOR w) < (wsj XOR w))
         })"

definition createAndInsertBlock ::
    "'st Store \<Rightarrow> int \<Rightarrow> byte list list \<Rightarrow> ('st CometGraph, (error, Block) result) op" where
  "createAndInsertBlock S roundReceived txs g = do {
     let block = NewBlock (LastBlockIndex g + 1) roundReceived txs;
     (err, g) \<leftarrow> sSetBlock S block g;
     Some (case err of
         Some e \<Rightarrow> (Inl (SErr e), g)
       | None \<Rightarrow> (Inr block, g\<lparr>LastBlockIndex := LastBlockIndex g + 1\<rparr>))
   }"

text \<open>
  The first loop of \<^verbatim>\<open>handleNewConsensusEvents\<close>.  \<open>blockMap\<close> keeps the transactions by received round;
  its keys are in the order of \<open>blockOrder\<close>, which the code keeps separately.  A comet without a
  received round is a nil dereference.
\<close>

fun collectBlocks :: "crypto \<Rightarrow> 'st Store \<Rightarrow> Comet list \<Rightarrow> (int, byte list list) gomap \<Rightarrow> int list \<Rightarrow>
    ('st CometGraph, (error, (int, byte list list) gomap \<times> int list) result) op" where
  "collectBlocks cr S [] blockMap blockOrder g = Some (Inr (blockMap, blockOrder), g)"
| "collectBlocks cr S (e # es) blockMap blockOrder g = do {
     (err, g) \<leftarrow> sAddConsensusEvent S (Comet_Hex cr e) g;
     (case err of
        Some er \<Rightarrow> Some (Inl (SErr er), g)
      | None \<Rightarrow> do {
          let g = g\<lparr>ConsensusTransactions := ConsensusTransactions g + int (length (Comet_Transactions e))\<rparr>;
          let g = (if Comet_IsLoaded e then g\<lparr>PendingLoadedEvents := PendingLoadedEvents g - 1\<rparr> else g);
          rr \<leftarrow> RoundReceived e;
          let (btxs, blockOrder) = (case map_of blockMap rr of
                None \<Rightarrow> ([], blockOrder @ [rr]) | Some btxs \<Rightarrow> (btxs, blockOrder));
          collectBlocks cr S es (AList.update rr (btxs @ Comet_Transactions e) blockMap) blockOrder g
        })
   }"

text \<open>The second loop: a block for every round with transactions, sent on the channel unless it is nil.\<close>

fun cutBlocks :: "'st Store \<Rightarrow> (int, byte list list) gomap \<Rightarrow> int list \<Rightarrow>
    ('st CometGraph, (error, unit) result) op" where
  "cutBlocks S blockMap [] g = Some (Inr (), g)"
| "cutBlocks S blockMap (rr # rrs) g = do {
     let blockTxs = (case map_of blockMap rr of None \<Rightarrow> [] | Some t \<Rightarrow> t);
     if length blockTxs > 0 then do {
       (r, g) \<leftarrow> createAndInsertBlock S rr blockTxs g;
       (case r of
          Inl e \<Rightarrow> Some (Inl e, g)
        | Inr block \<Rightarrow>
            cutBlocks S blockMap rrs (g\<lparr>commitCh := map_option (\<lambda>sent. sent @ [block]) (commitCh g)\<rparr>))
     } else cutBlocks S blockMap rrs g
   }"

definition handleNewConsensusEvents ::
    "crypto \<Rightarrow> 'st Store \<Rightarrow> Comet list \<Rightarrow> ('st CometGraph, (error, unit) result) op" where
  "handleNewConsensusEvents cr S newConsensusEvents g = do {
     (r, g) \<leftarrow> collectBlocks cr S newConsensusEvents [] [] g;
     (case r of
        Inl e \<Rightarrow> Some (Inl e, g)
      | Inr (blockMap, blockOrder) \<Rightarrow> cutBlocks S blockMap blockOrder g)
   }"

text \<open>The loop of \<^verbatim>\<open>FindOrder\<close> that separates the received comets from the undetermined ones.\<close>

fun splitReceived :: "'st Store \<Rightarrow> string list \<Rightarrow> Comet list \<Rightarrow> string list \<Rightarrow>
    ('st CometGraph, (error, Comet list \<times> string list) result) op" where
  "splitReceived S [] es us g = Some (Inr (es, us), g)"
| "splitReceived S (x # xs) es us g = do {
     (r, g) \<leftarrow> sGetComet S x g;
     (case r of
        Inl e \<Rightarrow> Some (Inl (SErr e), g)
      | Inr ex \<Rightarrow>
          if RoundReceived ex \<noteq> None then splitReceived S xs (es @ [ex]) us g
          else splitReceived S xs es (us @ [x]) g)
   }"

definition FindOrder :: "crypto \<Rightarrow> 'st Store \<Rightarrow> nat \<Rightarrow> ('st CometGraph, (error, unit) result) op" where
  "FindOrder cr S n g = do {
     (r, g) \<leftarrow> DecideRoundReceived S n g;
     (case r of
        Inl e \<Rightarrow> Some (Inl e, g)
      | Inr _ \<Rightarrow> do {
          (r, g) \<leftarrow> splitReceived S (UndeterminedEvents g) [] [] g;
          (case r of
             Inl e \<Rightarrow> Some (Inl e, g)
           | Inr (newConsensusEvents, newUndeterminedEvents) \<Rightarrow> do {
               let g = g\<lparr>UndeterminedEvents := newUndeterminedEvents\<rparr>;
               sorted \<leftarrow> sortM (ConsensusSorter_Less (NewConsensusSorter newConsensusEvents)) newConsensusEvents;
               handleNewConsensusEvents cr S sorted g
             })
        })
   }"

section \<open>Reading, resetting and bootstrapping\<close>

definition cg_ConsensusEvents :: "'st Store \<Rightarrow> 'st CometGraph \<Rightarrow> string list" where
  "cg_ConsensusEvents S g = st_ConsensusEvents S (cgStore g)"

definition cg_KnownEvents :: "'st Store \<Rightarrow> 'st CometGraph \<Rightarrow> (int, int) gomap" where
  "cg_KnownEvents S g = st_KnownEvents S (cgStore g)"

definition cg_Reset :: "'st Store \<Rightarrow> (string, Root) gomap \<Rightarrow> 'st CometGraph \<Rightarrow> (error, unit) result \<times> 'st CometGraph" where
  "cg_Reset S roots g =
     (let (err, st) = st_Reset S roots (cgStore g); g = g\<lparr>cgStore := st\<rparr>
      in case err of
           Some e \<Rightarrow> (Inl (SErr e), g)
         | None \<Rightarrow>
             let sz = st_CacheSize S st
             in (Inr (), g\<lparr>UndeterminedEvents := [], UndecidedRounds := [], PendingLoadedEvents := 0,
                   topologicalIndex := 0,
                   ancestorCache := NewLRU sz, selfAncestorCache := NewLRU sz,
                   oldestSelfAncestorCache := NewLRU sz, stronglySeeCache := NewLRU sz,
                   parentRoundCache := NewLRU sz, cg_roundCache := NewLRU sz\<rparr>))"

text \<open>The root that stands for the parents of a comet; fewer than two parents are an index panic.\<close>

definition rootOf :: "'st Store \<Rightarrow> nat \<Rightarrow> Comet \<Rightarrow> ('st CometGraph, Root) op" where
  "rootOf S n w g =
     (if length (Parents (Body w)) < 2 then None
      else do {
        (r, g) \<leftarrow> Round S n (Comet_SelfParent w) g;
        Some (\<lparr>root_X = Comet_SelfParent w, root_Y = Comet_OtherParent w, root_Index = Comet_Index w - 1,
               root_Round = r, Others = []\<rparr>, g)
      })"

text \<open>Appending the comets of a list of hashes, as far as the store has them.\<close>

fun appendComets :: "'st Store \<Rightarrow> string list \<Rightarrow> Comet list \<Rightarrow> ('st CometGraph, (error, Comet list) result) op" where
  "appendComets S [] events g = Some (Inr events, g)"
| "appendComets S (e # es) events g = do {
     (r, g) \<leftarrow> sGetComet S e g;
     (case r of Inl er \<Rightarrow> Some (Inl (SErr er), g) | Inr ev \<Rightarrow> appendComets S es (events @ [ev]) g)
   }"

type_synonym frame_acc = "(string, Root) gomap \<times> Comet list"

fun frameWitnesses :: "'st Store \<Rightarrow> nat \<Rightarrow> string list \<Rightarrow> frame_acc \<Rightarrow> ('st CometGraph, (error, frame_acc) result) op" where
  "frameWitnesses S n [] acc g = Some (Inr acc, g)"
| "frameWitnesses S n (wh # whs) (rs, events) g = do {
     (r, g) \<leftarrow> sGetComet S wh g;
     (case r of
        Inl e \<Rightarrow> Some (Inl (SErr e), g)
      | Inr w \<Rightarrow> do {
          (root, g) \<leftarrow> rootOf S n w g;
          (case st_ParticipantEvents S (Comet_Creator w) (Comet_Index w) (cgStore g) of
             Inl e \<Rightarrow> Some (Inl (SErr e), g)
           | Inr participantEvents \<Rightarrow> do {
               (r, g) \<leftarrow> appendComets S participantEvents (events @ [w]) g;
               (case r of
                  Inl e \<Rightarrow> Some (Inl e, g)
                | Inr events \<Rightarrow> frameWitnesses S n whs (AList.update (Comet_Creator w) root rs, events) g)
             })
        })
   }"

fun frameOthers :: "'st Store \<Rightarrow> nat \<Rightarrow> string list \<Rightarrow> frame_acc \<Rightarrow> ('st CometGraph, (error, frame_acc) result) op" where
  "frameOthers S n [] acc g = Some (Inr acc, g)"
| "frameOthers S n (p # ps) (rs, events) g =
     (if map_of rs p \<noteq> None then frameOthers S n ps (rs, events) g
      else let (lastKnown, isRoot, err) = st_LastEventFrom S p (cgStore g)
           in case err of
                Some e \<Rightarrow> Some (Inl (SErr e), g)
              | None \<Rightarrow>
                  if isRoot then
                    (case st_GetRoot S p (cgStore g) of
                       Inl e \<Rightarrow> Some (Inl (SErr e), g)
                     | Inr root \<Rightarrow> frameOthers S n ps (AList.update p root rs, events) g)
                  else do {
                    (r, g) \<leftarrow> sGetComet S lastKnown g;
                    (case r of
                       Inl e \<Rightarrow> Some (Inl (SErr e), g)
                     | Inr ev \<Rightarrow> do {
                         (root, g) \<leftarrow> rootOf S n ev g;
                         frameOthers S n ps (AList.update p root rs, events @ [ev]) g
                       })
                  })"

text \<open>
  Other-parents that no earlier comet of the frame has go to the root of the creator.  A creator without
  a root reads as the zero root, and the assignment to its nil map panics.
\<close>

fun frameParents :: "crypto \<Rightarrow> Comet list \<Rightarrow> string list \<Rightarrow> (string, Root) gomap \<Rightarrow> (string, Root) gomap option" where
  "frameParents cr [] treated rs = Some rs"
| "frameParents cr (ev # evs) treated rs = do {
     let treated = Comet_Hex cr ev # treated;
     let otherParent = Comet_OtherParent ev;
     if otherParent \<noteq> [] \<and> otherParent \<notin> set treated then
       (case map_of rs (Comet_Creator ev) of
          None \<Rightarrow> if Comet_SelfParent ev \<noteq> [] then None else frameParents cr evs treated rs
        | Some root \<Rightarrow>
            frameParents cr evs treated
              (if Comet_SelfParent ev \<noteq> root_X root
               then AList.update (Comet_Creator ev)
                      (root\<lparr>Others := AList.update (Comet_Hex cr ev) otherParent (Others root)\<rparr>) rs
               else rs))
     else frameParents cr evs treated rs
   }"

definition GetFrame :: "crypto \<Rightarrow> 'st Store \<Rightarrow> nat \<Rightarrow> ('st CometGraph, (error, Frame) result) op" where
  "GetFrame cr S n g = do {
     let lastConsensusRoundIndex = (case LastConsensusRound g of None \<Rightarrow> 0 | Some l \<Rightarrow> l);
     ((lastConsensusRound, err), g) \<leftarrow> sGetRound S lastConsensusRoundIndex g;
     (case err of
        Some e \<Rightarrow> Some (Inl (SErr e), g)
      | None \<Rightarrow> do {
          (r, g) \<leftarrow> frameWitnesses S n (RoundInfo_Witnesses lastConsensusRound) ([], []) g;
          (case r of
             Inl e \<Rightarrow> Some (Inl e, g)
           | Inr acc \<Rightarrow> do {
               (r, g) \<leftarrow> frameOthers S n (map fst (Participants g)) acc g;
               (case r of
                  Inl e \<Rightarrow> Some (Inl e, g)
                | Inr (rs, events) \<Rightarrow> do {
                    let events = sort_by ByTopologicalOrder_Less events;
                    rs \<leftarrow> frameParents cr events [] rs;
                    Some (Inr \<lparr>Roots = rs, Comets = events\<rparr>, g)
                  })
             })
        })
   }"

text \<open>
  \<^verbatim>\<open>Bootstrap\<close> does nothing unless the store is a database; \<open>db\<close> is then its list of comets in
  topological order.
\<close>

definition cg_Bootstrap :: "crypto \<Rightarrow> 'st Store \<Rightarrow> nat \<Rightarrow> ('st \<Rightarrow> (error, Comet list) result) option \<Rightarrow>
    ('st CometGraph, (error, unit) result) op" where
  "cg_Bootstrap cr S n db g = (case db of
     None \<Rightarrow> Some (Inr (), g)
   | Some topological \<Rightarrow> (case topological (cgStore g) of
        Inl e \<Rightarrow> Some (Inl e, g)
      | Inr topologicalEvents \<Rightarrow> do {
          (r, g) \<leftarrow> forE topologicalEvents (\<lambda>e. InsertComet cr S n e True) g;
          (case r of Inl e \<Rightarrow> Some (Inl e, g) | Inr _ \<Rightarrow> do {
            (r, g) \<leftarrow> DivideRounds S n g;
            (case r of Inl e \<Rightarrow> Some (Inl e, g) | Inr _ \<Rightarrow> do {
              (r, g) \<leftarrow> DecideFame S g;
              (case r of Inl e \<Rightarrow> Some (Inl e, g) | Inr _ \<Rightarrow> FindOrder cr S n g)
            })
          })
        }))"

end
