(* ===== verification/ConsensusRun.thy ===== *)
theory ConsensusRun
  imports GraphInsert Consensus "HOL-Library.Product_Lexorder"
begin

text \<open>
  What the consensus methods do.  The first sections are about their pure pieces: the count of votes, the
  order of received comets, the cutting of blocks and the median of timestamps.  The rest shows, for any
  store that keeps the contract \<open>consensus_store\<close>, that every consensus method returns when it is run on
  a graph that satisfies the invariant, and that it keeps the invariant.
\<close>

section \<open>Counting votes\<close>

lemma tally_cases:
  "tally votes x ws = (v, t) \<Longrightarrow> t = int (length (filter (\<lambda>w. votes w x = v) ws)) \<and>
     length (filter (\<lambda>w. votes w x \<noteq> v) ws) \<le> length (filter (\<lambda>w. votes w x = v) ws)"
  by (auto simp: tally_def Let_def split: if_splits)

lemma tally_fst:
  assumes "length (filter (\<lambda>w. votes w x \<noteq> v) ws) < length (filter (\<lambda>w. votes w x = v) ws)"
  shows "fst (tally votes x ws) = v"
  using assms by (cases v) (auto simp: tally_def Let_def)

text \<open>
  Two sets of voters that are both more than two thirds of at most \<open>n\<close> witnesses: if the first is
  unanimous for \<open>v\<close>, the second has a majority for \<open>v\<close>.
\<close>

lemma supermajority_majority:
  assumes W: "finite W" "card W \<le> n" and V: "V \<subseteq> W" "2 * n div 3 < card V"
    and B: "B \<subseteq> W" "2 * n div 3 < card B" and maj: "\<And>w. w \<in> V \<Longrightarrow> P w"
  shows "card {w \<in> B. \<not> P w} < card {w \<in> B. P w}"
proof -
  have fin: "finite B" "finite V" using W(1) V(1) B(1) by (auto intro: finite_subset)
  have "{w \<in> B. \<not> P w} \<subseteq> W - V" using B(1) maj by auto
  then have "card {w \<in> B. \<not> P w} \<le> card (W - V)" by (rule card_mono [rotated]) (use W(1) in simp)
  then have 1: "card {w \<in> B. \<not> P w} + card V \<le> n"
    using card_Diff_subset [OF fin(2) V(1)] card_mono [OF W(1) V(1)] W(2) by linarith
  have "card B = card ({w \<in> B. P w} \<union> {w \<in> B. \<not> P w})" by (rule arg_cong [of _ _ card]) blast
  also have "\<dots> = card {w \<in> B. P w} + card {w \<in> B. \<not> P w}"
    by (rule card_Un_disjoint) (use fin(1) in auto)
  finally have "card B = card {w \<in> B. P w} + card {w \<in> B. \<not> P w}" .
  then show ?thesis using 1 V(2) B(2) by linarith
qed

section \<open>The consensus order\<close>

text \<open>The key the order compares: received round, consensus timestamp, and the first number of the signature.\<close>

definition consensus_key :: "Comet \<Rightarrow> int \<times> int \<times> int" where
  "consensus_key c = (the (RoundReceived c), ConsensusTimestamp c, the (sig_r c))"

definition orderable :: "Comet \<Rightarrow> bool" where
  "orderable c \<longleftrightarrow> RoundReceived c \<noteq> None \<and> sig_r c \<noteq> None"

lemma Less_key:
  assumes "orderable a" "orderable b"
  shows "ConsensusSorter_Less (NewConsensusSorter cs) a b = Some (consensus_key a < consensus_key b)"
  using assms
  by (auto simp: orderable_def ConsensusSorter_Less_def consensus_key_def GetPseudoRandomNumber_def
      NewConsensusSorter_def RoundInfo_PseudoRandomNumber_def RoundInfo_FamousWitnesses_def NewRoundInfo_def
      less_prod_def)

lemma insertM_total:
  assumes lt: "\<And>a b. a \<in> set (x # ys) \<Longrightarrow> b \<in> set (x # ys) \<Longrightarrow> lt a b = Some (f a < f b)"
    and srt: "sorted_wrt (\<ge>) (map (f :: 'a \<Rightarrow> 'b :: linorder) ys)"
  shows "\<exists>zs. insertM lt x ys = Some zs \<and> mset zs = mset (x # ys) \<and> sorted_wrt (\<ge>) (map f zs)"
  using assms
proof (induction ys)
  case (Cons y ys)
  have b: "lt x y = Some (f x < f y)" using Cons.prems(1) by simp
  show ?case
  proof (cases "f x < f y")
    case True
    obtain zs where zs: "insertM lt x ys = Some zs" "mset zs = mset (x # ys)" "sorted_wrt (\<ge>) (map f zs)"
      using Cons.IH Cons.prems by auto
    have "set zs = set (x # ys)" using zs(2) by (metis set_mset_mset)
    then show ?thesis using True zs b Cons.prems(2) by (auto simp: less_imp_le)
  next
    case False
    then show ?thesis using b Cons.prems(2) by (auto simp: not_less)
  qed
qed simp

lemma sortM_total:
  assumes lt: "\<And>a b. a \<in> set xs \<Longrightarrow> b \<in> set xs \<Longrightarrow> lt a b = Some (f a < f b)"
  shows "\<exists>ys. sortM lt xs = Some ys \<and> mset ys = mset xs \<and> sorted (map (f :: 'a \<Rightarrow> 'b :: linorder) ys)"
proof -
  have "\<exists>ys. sortM_from lt acc rest = Some ys \<and> mset ys = mset acc + mset rest \<and> sorted (map f ys)"
    if "sorted_wrt (\<ge>) (map f acc)" "set acc \<union> set rest \<subseteq> set xs" for acc rest
    using that
  proof (induction rest arbitrary: acc)
    case Nil
    then show ?case by (simp add: rev_map [symmetric] sorted_wrt_rev)
  next
    case (Cons x rest)
    obtain zs where zs: "insertM lt x acc = Some zs" "mset zs = mset (x # acc)" "sorted_wrt (\<ge>) (map f zs)"
      using insertM_total [of x acc lt f] lt Cons.prems by (auto simp: subset_iff)
    have "set zs = set (x # acc)" using zs(2) by (metis set_mset_mset)
    then show ?case using Cons.IH [of zs] zs Cons.prems by auto
  qed
  from this [of "[]" xs] show ?thesis by (simp add: sortM_def)
qed

section \<open>Cutting blocks\<close>

text \<open>The received rounds in the order they first occur, and the transactions of a round.\<close>

definition received_rounds :: "Comet list \<Rightarrow> int list" where
  "received_rounds es = rev (remdups (rev (map (the \<circ> RoundReceived) es)))"

definition round_txs :: "Comet list \<Rightarrow> int \<Rightarrow> byte list list" where
  "round_txs es rr = concat (map Comet_Transactions (filter (\<lambda>e. RoundReceived e = Some rr) es))"

text \<open>The blocks of a sequence of received comets: one per round that has transactions, with consecutive indices.\<close>

fun number_blocks :: "int \<Rightarrow> (int \<times> byte list list) list \<Rightarrow> Block list" where
  "number_blocks i [] = []"
| "number_blocks i ((rr, txs) # bs) = NewBlock i rr txs # number_blocks (i + 1) bs"

definition blocks_of :: "int \<Rightarrow> Comet list \<Rightarrow> Block list" where
  "blocks_of lb es = number_blocks (lb + 1)
     (filter (\<lambda>(rr, txs). txs \<noteq> []) (map (\<lambda>rr. (rr, round_txs es rr)) (received_rounds es)))"

lemma received_rounds_snoc:
  "received_rounds (es @ [e]) = (let rr = the (RoundReceived e) in
     if rr \<in> set (received_rounds es) then received_rounds es else received_rounds es @ [rr])"
  by (auto simp: received_rounds_def Let_def)

lemma round_txs_snoc:
  "RoundReceived e = Some q \<Longrightarrow> round_txs (es @ [e]) rr =
     round_txs es rr @ (if rr = q then Comet_Transactions e else [])"
  by (simp add: round_txs_def)

lemma set_received_rounds: "set (received_rounds es) = (the \<circ> RoundReceived) ` set es"
  by (simp add: received_rounds_def)

lemma length_number_blocks [simp]: "length (number_blocks i bs) = length bs"
  by (induction i bs rule: number_blocks.induct) auto

context consensus_store
begin

text \<open>What the first loop does to the graph: it counts, and changes nothing else.\<close>

definition counted :: "Comet list \<Rightarrow> 'st CometGraph \<Rightarrow> 'st CometGraph \<Rightarrow> bool" where
  "counted es g g' \<longleftrightarrow> (\<exists>st. ok st \<and> view st = view (cgStore g) \<and>
     g' = g\<lparr>cgStore := st,
            ConsensusTransactions := ConsensusTransactions g + int (length (concat (map Comet_Transactions es))),
            PendingLoadedEvents := PendingLoadedEvents g - int (length (filter Comet_IsLoaded es))\<rparr>)"

lemma counted_Cons:
  assumes "ok st" "view st = view (cgStore g)"
    and "g1 = g\<lparr>cgStore := st, ConsensusTransactions := ConsensusTransactions g + int (length (Comet_Transactions e)),
                PendingLoadedEvents := PendingLoadedEvents g - (if Comet_IsLoaded e then 1 else 0)\<rparr>"
    and "counted es g1 g2"
  shows "counted (e # es) g g2"
proof -
  obtain st' where "ok st'" "view st' = view (cgStore g1)"
    and "g2 = g1\<lparr>cgStore := st',
            ConsensusTransactions := ConsensusTransactions g1 + int (length (concat (map Comet_Transactions es))),
            PendingLoadedEvents := PendingLoadedEvents g1 - int (length (filter Comet_IsLoaded es))\<rparr>"
    using assms(4) by (auto simp: counted_def)
  then show ?thesis unfolding counted_def using assms(1-3) by (intro exI [of _ st']) (simp add: algebra_simps)
qed

lemma collectBlocks_returns:
  assumes "ok (cgStore g)" "\<And>e. e \<in> set es \<Longrightarrow> RoundReceived e \<noteq> None"
    and "\<And>rr. map_of bm rr = (if rr \<in> set (received_rounds ds) then Some (round_txs ds rr) else None)"
  shows "returns (collectBlocks cr S es bm (received_rounds ds) g) (\<lambda>r g'. counted es g g' \<and>
    (\<exists>bm'. r = Inr (bm', received_rounds (ds @ es)) \<and> (\<forall>rr. map_of bm' rr =
      (if rr \<in> set (received_rounds (ds @ es)) then Some (round_txs (ds @ es) rr) else None))))"
  using assms
proof (induction es arbitrary: g bm ds)
  case Nil
  then show ?case by (auto simp: counted_def intro!: exI [of _ "cgStore g"])
next
  case (Cons e es)
  obtain q where q: "RoundReceived e = Some q" using Cons.prems(2) [of e] by auto
  obtain er st where st: "st_AddConsensusEvent S (Comet_Hex cr e) (cgStore g) = (er, st)" by fastforce
  note law = AddConsensusEvent_law [OF Cons.prems(1) st]
  define g1 where "g1 = g\<lparr>cgStore := st,
      ConsensusTransactions := ConsensusTransactions g + int (length (Comet_Transactions e)),
      PendingLoadedEvents := PendingLoadedEvents g - (if Comet_IsLoaded e then 1 else 0)\<rparr>"
  define bm1 where "bm1 = AList.update q ((case map_of bm q of None \<Rightarrow> [] | Some b \<Rightarrow> b) @ Comet_Transactions e) bm"
  have step: "collectBlocks cr S (e # es) bm (received_rounds ds) g =
      collectBlocks cr S es bm1 (received_rounds (ds @ [e])) g1"
    using st law q Cons.prems(3) [of q]
    by (auto simp: sAddConsensusEvent_def Let_def g1_def bm1_def received_rounds_snoc split: option.splits)
  have "round_txs ds q = []" if "q \<notin> set (received_rounds ds)"
  proof -
    have "filter (\<lambda>e. RoundReceived e = Some q) ds = []"
      using that by (force simp: set_received_rounds filter_empty_conv)
    then show ?thesis by (simp add: round_txs_def)
  qed
  then have bm1: "map_of bm1 rr = (if rr \<in> set (received_rounds (ds @ [e]))
      then Some (round_txs (ds @ [e]) rr) else None)" for rr
    using Cons.prems(3) q by (auto simp: bm1_def map_of_update received_rounds_snoc round_txs_snoc)
  have "returns (collectBlocks cr S es bm1 (received_rounds (ds @ [e])) g1) (\<lambda>r g'. counted es g1 g' \<and>
    (\<exists>bm'. r = Inr (bm', received_rounds ((ds @ [e]) @ es)) \<and> (\<forall>rr. map_of bm' rr =
      (if rr \<in> set (received_rounds ((ds @ [e]) @ es)) then Some (round_txs ((ds @ [e]) @ es) rr) else None))))"
    by (rule Cons.IH [OF _ _ bm1]) (use law Cons.prems(2) in \<open>simp_all add: g1_def\<close>)
  then show ?case
    unfolding step append_assoc append_Cons append_Nil
    by (rule returns_mono) (use counted_Cons [OF _ _ g1_def] law in simp)
qed

definition cut :: "Block list \<Rightarrow> 'st CometGraph \<Rightarrow> 'st CometGraph \<Rightarrow> bool" where
  "cut bs g g' \<longleftrightarrow> (\<exists>st m. ok st \<and> view st = (view (cgStore g))\<lparr>v_blocks := m\<rparr> \<and>
     (if bs = [] then m = v_blocks (view (cgStore g)) else m (Block_Index (last bs)) = Some (last bs)) \<and>
     g' = g\<lparr>cgStore := st, LastBlockIndex := LastBlockIndex g + int (length bs),
            commitCh := map_option (\<lambda>sent. sent @ bs) (commitCh g)\<rparr>)"

lemma cut_Cons:
  assumes "ok st" "view st = (view (cgStore g))\<lparr>v_blocks := m\<rparr>" "m (Block_Index b) = Some b"
    and "g1 = g\<lparr>cgStore := st, LastBlockIndex := LastBlockIndex g + 1,
                commitCh := map_option (\<lambda>sent. sent @ [b]) (commitCh g)\<rparr>"
    and "cut bs g1 g2"
  shows "cut (b # bs) g g2"
proof -
  obtain st' m' where c: "ok st'" "view st' = (view (cgStore g1))\<lparr>v_blocks := m'\<rparr>"
    "if bs = [] then m' = v_blocks (view (cgStore g1)) else m' (Block_Index (last bs)) = Some (last bs)"
    and g2: "g2 = g1\<lparr>cgStore := st', LastBlockIndex := LastBlockIndex g1 + int (length bs),
            commitCh := map_option (\<lambda>sent. sent @ bs) (commitCh g1)\<rparr>"
    using assms(5) by (auto simp: cut_def)
  have ch: "map_option (\<lambda>sent. sent @ bs) (map_option (\<lambda>sent. sent @ [b]) (commitCh g)) =
      map_option (\<lambda>sent. sent @ b # bs) (commitCh g)" by (cases "commitCh g") simp_all
  show ?thesis
    unfolding cut_def using c assms(1-4) g2 ch
    by (intro exI [of _ st'] exI [of _ m']) (simp add: algebra_simps split: if_splits)
qed

lemma cutBlocks_returns:
  assumes "ok (cgStore g)"
  shows "returns (cutBlocks S bm rrs g) (\<lambda>r g'. r = Inr () \<and>
    cut (number_blocks (LastBlockIndex g + 1) (filter (\<lambda>(rr, txs). txs \<noteq> [])
      (map (\<lambda>rr. (rr, case map_of bm rr of None \<Rightarrow> [] | Some t \<Rightarrow> t)) rrs))) g g')"
  using assms
proof (induction rrs arbitrary: g)
  case Nil
  then show ?case by (auto simp: cut_def option.map_ident intro!: exI [of _ "cgStore g"])
next
  case (Cons rr rrs)
  define txs where "txs = (case map_of bm rr of None \<Rightarrow> [] | Some t \<Rightarrow> t)"
  show ?case
  proof (cases "txs = []")
    case True
    then show ?thesis using Cons by (simp add: txs_def)
  next
    case False
    define b where "b = NewBlock (LastBlockIndex g + 1) rr txs"
    obtain e st where st: "st_SetBlock S b (cgStore g) = (e, st)" by fastforce
    obtain m where law: "e = None" "ok st" "v_blocks (view st) (Block_Index b) = Some b"
      "view st = (view (cgStore g))\<lparr>v_blocks := m\<rparr>" using SetBlock_law [OF Cons.prems st] by auto
    define g1 where "g1 = g\<lparr>cgStore := st, LastBlockIndex := LastBlockIndex g + 1,
      commitCh := map_option (\<lambda>sent. sent @ [b]) (commitCh g)\<rparr>"
    have step: "cutBlocks S bm (rr # rrs) g = cutBlocks S bm rrs g1"
      using False st law(1)
      by (simp add: txs_def [symmetric] createAndInsertBlock_def sSetBlock_def b_def [symmetric] Let_def g1_def)
    show ?thesis
      unfolding step
      by (rule returns_mono [OF Cons.IH [of g1]])
        (use law False cut_Cons [OF law(2,4) _ g1_def] in
          \<open>auto simp: txs_def [symmetric] b_def [symmetric] g1_def add.assoc\<close>)
  qed
qed

lemma handleNewConsensusEvents_returns:
  assumes "ok (cgStore g)" "\<And>e. e \<in> set es \<Longrightarrow> RoundReceived e \<noteq> None"
  shows "returns (handleNewConsensusEvents cr S es g) (\<lambda>r g'. r = Inr () \<and>
    (\<exists>g1. counted es g g1 \<and> cut (blocks_of (LastBlockIndex g) es) g1 g'))"
proof -
  have c: "returns (collectBlocks cr S es [] [] g) (\<lambda>r g'. counted es g g' \<and>
    (\<exists>bm'. r = Inr (bm', received_rounds es) \<and> (\<forall>rr. map_of bm' rr =
      (if rr \<in> set (received_rounds es) then Some (round_txs es rr) else None))))"
    using collectBlocks_returns [OF assms(1), where es = es and bm = "[]" and ds = "[]", unfolded append_Nil] assms(2)
    by (simp add: received_rounds_def [of "[]"])
  have d: "returns (cutBlocks S bm (received_rounds es) g1) (\<lambda>r g'. r = Inr () \<and>
      cut (blocks_of (LastBlockIndex g) es) g1 g')"
    if g1: "counted es g g1" and bm: "\<And>rr. map_of bm rr =
      (if rr \<in> set (received_rounds es) then Some (round_txs es rr) else None)" for bm g1
  proof -
    have eq: "map (\<lambda>rr. (rr, case map_of bm rr of None \<Rightarrow> [] | Some t \<Rightarrow> t)) (received_rounds es) =
        map (\<lambda>rr. (rr, round_txs es rr)) (received_rounds es)" by (simp add: bm)
    have g1': "ok (cgStore g1)" "LastBlockIndex g1 = LastBlockIndex g" using g1 by (auto simp: counted_def)
    show ?thesis
      using cutBlocks_returns [OF g1'(1), of bm "received_rounds es", unfolded eq g1'(2)] by (simp add: blocks_of_def)
  qed
  show ?thesis
    unfolding handleNewConsensusEvents_def returns_bind split_conv
    by (rule returns_mono [OF c]) (auto intro!: returns_mono [OF d])
qed

end

text \<open>On comets sorted by received round the blocks follow the order of the comets.\<close>

lemma received_rounds_sorted:
  assumes "sorted (map (the \<circ> RoundReceived) es)"
  shows "sorted_wrt (<) (received_rounds es)"
  using assms
proof (induction es rule: rev_induct)
  case (snoc e es)
  then have "\<forall>rr \<in> set (received_rounds es). rr \<le> the (RoundReceived e)"
    by (auto simp: set_received_rounds sorted_append)
  moreover have "sorted_wrt (<) (received_rounds es)" using snoc by (simp add: sorted_append)
  ultimately show ?case
    by (auto simp: received_rounds_snoc Let_def sorted_wrt_append intro: le_neq_trans)
qed (simp add: received_rounds_def)

lemma round_txs_concat:
  assumes "sorted (map (the \<circ> RoundReceived) es)" "\<And>e. e \<in> set es \<Longrightarrow> RoundReceived e \<noteq> None"
  shows "concat (map (round_txs es) (received_rounds es)) = concat (map Comet_Transactions es)"
  using assms
proof (induction es rule: rev_induct)
  case (snoc e es)
  obtain q where q: "RoundReceived e = Some q" using snoc.prems(2) [of e] by auto
  have srt: "sorted (map (the \<circ> RoundReceived) es)" using snoc.prems(1) by (simp add: sorted_append comp_def)
  have le: "rr \<le> q" if "rr \<in> set (received_rounds es)" for rr
    using that snoc.prems(1) q by (auto simp: set_received_rounds sorted_append)
  have IH: "concat (map (round_txs es) (received_rounds es)) = concat (map Comet_Transactions es)"
    by (rule snoc.IH [OF srt]) (simp add: snoc.prems(2))
  have other: "map (round_txs (es @ [e])) rrs = map (round_txs es) rrs" if "q \<notin> set rrs" for rrs
    using that by (auto simp: round_txs_snoc [OF q])
  have own: "round_txs (es @ [e]) q = round_txs es q @ Comet_Transactions e" by (simp add: round_txs_snoc [OF q])
  show ?case
  proof (cases "q \<in> set (received_rounds es)")
    case True
    then obtain pre post where p: "received_rounds es = pre @ q # post" by (meson split_list)
    have "post = []"
      using received_rounds_sorted [OF srt] le by (cases post) (fastforce simp: p sorted_wrt_append)+
    moreover have "q \<notin> set pre" using received_rounds_sorted [OF srt] by (auto simp: p sorted_wrt_append)
    ultimately show ?thesis
      using IH True q by (simp add: received_rounds_snoc p other own)
  next
    case False
    then have "filter (\<lambda>e. RoundReceived e = Some q) es = []"
      by (force simp: set_received_rounds filter_empty_conv)
    then show ?thesis
      using IH False q by (simp add: received_rounds_snoc other own) (simp add: round_txs_def)
  qed
qed (simp add: received_rounds_def)

lemma concat_filter_ne: "concat (map snd (filter (\<lambda>(a, b). b \<noteq> []) xs)) = concat (map snd xs)"
  by (induction xs) auto

lemma number_blocks_simps:
  "map Block_Index (number_blocks i bs) = map (\<lambda>k. i + int k) [0..<length bs]"
  "map (bb_Transactions \<circ> block_Body) (number_blocks i bs) = map snd bs"
  "map (bb_RoundReceived \<circ> block_Body) (number_blocks i bs) = map fst bs"
proof (induction i bs rule: number_blocks.induct)
  case (2 i rr txs bs)
  { case 1
    have "map (\<lambda>k. i + int k) [0..<Suc (length bs)] = i # map (\<lambda>k. i + 1 + int k) [0..<length bs]"
      by (subst upt_conv_Cons) (simp_all add: map_Suc_upt [symmetric] del: upt_Suc)
    then show ?case using 2 by (simp add: NewBlock_def Block_Index_def del: upt_Suc) }
qed (simp_all add: NewBlock_def)

lemma sorted_fst_filter:
  "sorted_wrt (<) xs \<Longrightarrow> sorted_wrt (<) (map fst (filter P (map (\<lambda>x. (x, f x)) xs)))"
  by (induction xs) auto

lemma blocks_of_sorted:
  assumes "sorted (map (the \<circ> RoundReceived) es)" "\<And>e. e \<in> set es \<Longrightarrow> RoundReceived e \<noteq> None"
  shows "concat (map (bb_Transactions \<circ> block_Body) (blocks_of lb es)) = concat (map Comet_Transactions es)"
    "sorted_wrt (<) (map (bb_RoundReceived \<circ> block_Body) (blocks_of lb es))"
    "map Block_Index (blocks_of lb es) = map (\<lambda>k. lb + 1 + int k) [0..<length (blocks_of lb es)]"
  using round_txs_concat [OF assms] received_rounds_sorted [OF assms(1)]
  by (simp_all add: blocks_of_def number_blocks_simps concat_filter_ne sorted_fst_filter)
    (simp add: comp_def)

section \<open>Median timestamps\<close>

lemma mapM_returns:
  assumes "I g" "\<And>x g. x \<in> set xs \<Longrightarrow> I g \<Longrightarrow> returns (f x g) (\<lambda>r g'. R x r \<and> I g')"
  shows "returns (mapM f xs g) (\<lambda>rs g'. list_all2 R xs rs \<and> I g')"
  using assms
proof (induction xs arbitrary: g)
  case (Cons x xs)
  have 1: "returns (f x g) (\<lambda>r g'. R x r \<and> I g')" using Cons.prems by simp
  have 2: "returns (mapM f xs h) (\<lambda>rs g'. list_all2 R xs rs \<and> I g')" if "I h" for h
    using Cons.IH [OF that] Cons.prems(2) by simp
  show ?case unfolding mapM.simps returns_bind split_conv
    by (rule returns_mono [OF 1]) (auto intro!: returns_mono [OF 2])
qed simp

lemma filterM_returns:
  assumes "I g" "\<And>x g. x \<in> set xs \<Longrightarrow> I g \<Longrightarrow> returns (f x g) (\<lambda>r g'. r = p x \<and> I g')"
  shows "returns (filterM f xs g) (\<lambda>rs g'. rs = filter p xs \<and> I g')"
  using assms
proof (induction xs arbitrary: g)
  case (Cons x xs)
  have 1: "returns (f x g) (\<lambda>r g'. r = p x \<and> I g')" using Cons.prems by simp
  have 2: "returns (filterM f xs h) (\<lambda>rs g'. rs = filter p xs \<and> I g')" if "I h" for h
    using Cons.IH [OF that] Cons.prems(2) by simp
  show ?case unfolding filterM.simps returns_bind split_conv
    by (rule returns_mono [OF 1]) (auto intro!: returns_mono [OF 2])
qed simp

definition time_of :: "comets \<Rightarrow> string \<Rightarrow> int" where
  "time_of C x = (case C x of None \<Rightarrow> 0 | Some c \<Rightarrow> Timestamp (Body c))"

lemma sorted_by_timestamp: "map (Timestamp \<circ> Body) (sort_by ByTimestamp_Less cs) = sort (map (Timestamp \<circ> Body) cs)"
proof (rule properties_for_sort [symmetric])
  have "sorted_wrt (\<lambda>a b. \<not> ByTimestamp_Less b a) (sort_by ByTimestamp_Less cs)"
    by (rule sorted_sort_by) (auto simp: ByTimestamp_Less_def)
  then show "sorted (map (Timestamp \<circ> Body) (sort_by ByTimestamp_Less cs))"
    by (simp add: sorted_map sorted_wrt_map ByTimestamp_Less_def not_less)
  show "mset (map (Timestamp \<circ> Body) (sort_by ByTimestamp_Less cs)) = mset (map (Timestamp \<circ> Body) cs)" by simp
qed

context consensus_store
begin

lemma MedianTimestamp_returns:
  assumes "ok (cgStore g)" "xs \<noteq> []"
  shows "returns (MedianTimestamp S xs g) (\<lambda>t g'. same g g' \<and>
    t = sort (map (time_of (comets_of g)) xs) ! (length xs div 2))"
proof -
  let ?R = "\<lambda>x e. Timestamp (Body e) = time_of (comets_of g) x"
  have m: "returns (mapM (\<lambda>x g. do {
         (r, g) \<leftarrow> sGetComet S x g;
         Some (case r of Inl _ \<Rightarrow> zero_Comet | Inr ex \<Rightarrow> ex, g)
       }) xs g) (\<lambda>es g'. list_all2 ?R xs es \<and> same g g')"
  proof (rule mapM_returns)
    show "same g g" using assms(1) by (rule same_refl)
    fix x h assume "same g h"
    note s = sameD [OF this] same_trans [OF this]
    show "returns (do { (r, g) \<leftarrow> sGetComet S x h;
        Some (case r of Inl _ \<Rightarrow> zero_Comet | Inr ex \<Rightarrow> ex, g) }) (\<lambda>r g'. ?R x r \<and> same g g')"
      unfolding returns_bind
      by (rule sGetComet_answer [OF s(3)])
        (use s(5,8) in \<open>auto simp: answer_def time_of_def zero_Comet_def NewComet_def core_def
           Comet_SetWireInfo_def split: option.splits\<close>)
  qed
  have t: "length es = length xs \<and> Timestamp (Body (sort_by ByTimestamp_Less es ! (length xs div 2))) =
      sort (map (time_of (comets_of g)) xs) ! (length xs div 2)" if "list_all2 ?R xs es" for es
  proof -
    have "map (Timestamp \<circ> Body) es = map (time_of (comets_of g)) xs"
      using that by (auto simp: list_all2_conv_all_nth intro: nth_equalityI)
    moreover have len: "length es = length xs" using that by (simp add: list_all2_lengthD)
    moreover have "length xs div 2 < length es" using assms(2) len by simp
    ultimately show ?thesis
      using sorted_by_timestamp [of es] nth_map [of "length xs div 2" "sort_by ByTimestamp_Less es" "Timestamp \<circ> Body"]
      by simp
  qed
  have "length xs div 2 < length xs" using assms(2) by simp
  then show ?thesis
    unfolding MedianTimestamp_def returns_bind split_conv
    by (intro returns_mono [OF m]) (auto simp: slice_at_def t nat_div_distrib)
qed

end

end
