(* ===== verification/ConsensusInv.thy ===== *)
theory ConsensusInv
  imports ConsensusRun
begin

text \<open>
  The invariant of a running graph and the consensus methods.  On top of correct coordinates the graph is
  finite and acyclic, the comets of every round and the undetermined comets are known, and signatures
  can be read.  Every consensus method returns on such a graph and keeps the invariant; the recursion of
  \<^verbatim>\<open>Round\<close> needs one unit of fuel per comet at most.
\<close>

section \<open>The invariant\<close>

definition known_rounds :: "store_view \<Rightarrow> bool" where
  "known_rounds v \<longleftrightarrow> (\<forall>i r. v_rounds v i = Some r \<longrightarrow> distinct (map fst (Events r)) \<and>
     (\<forall>x \<in> fst ` set (Events r). v_comets v x \<noteq> None))"

definition signed :: "store_view \<Rightarrow> bool" where
  "signed v \<longleftrightarrow> (\<forall>k c. v_comets v k = Some c \<longrightarrow> sig_r c \<noteq> None)"

definition dag :: "comets \<Rightarrow> bool" where
  "dag C \<longleftrightarrow> finite (dom C) \<and> acyclic (par C)"

text \<open>The comets a recursion of \<^verbatim>\<open>Round\<close> from \<open>x\<close> can visit.\<close>

definition depth :: "comets \<Rightarrow> string \<Rightarrow> nat" where
  "depth C x = card {y. anc C x y}"

lemma depth_par:
  assumes "dag C" "(x, y) \<in> par C"
  shows "depth C y < depth C x"
  unfolding depth_def
proof (rule psubset_card_mono)
  show "finite {z. anc C x z}" using assms(1) anc_dom [of C x] by (auto simp: dag_def intro: finite_subset)
  have xy: "anc C x y" using assms(2) by (rule anc_step)
  have "(y, x) \<notin> (par C)\<^sup>*" using assms by (auto simp: dag_def acyclic_def dest: rtrancl_into_trancl2)
  then have "\<not> anc C y x" by (simp add: anc_def)
  moreover have "anc C x x" using xy anc_dom anc_refl by blast
  ultimately show "{z. anc C y z} \<subset> {z. anc C x z}" using anc_trans [OF xy] by blast
qed

lemma depth_pos: "dag C \<Longrightarrow> x \<in> dom C \<Longrightarrow> 0 < depth C x"
  using anc_refl [of x C] anc_dom [of C x] unfolding depth_def dag_def
  by (auto simp: card_gt_0_iff intro: finite_subset)

lemma depth_le: "dag C \<Longrightarrow> depth C x \<le> card (dom C)"
  unfolding depth_def dag_def by (rule card_mono) (auto dest: anc_dom)

lemma self_parent_par:
  assumes "chains_ok ps C ch" "C x = Some c" "Comet_SelfParent c \<noteq> []"
  shows "(x, Comet_SelfParent c) \<in> par C"
proof -
  obtain j i where j: "j < length (ch (Comet_Creator c))" "ch (Comet_Creator c) ! j = x"
    using dom_in_chain [OF assms(1,2)] by metis
  have "j \<noteq> 0 \<and> Comet_SelfParent c = ch (Comet_Creator c) ! (j - 1)"
    using chains_okD(2) [OF assms(1) j(1)] j(2) assms(2,3) by (auto simp: link_ok_def split: if_splits)
  then show ?thesis using chain_dom [OF assms(1), of "j - 1" "Comet_Creator c"] j(1) assms(2) by (auto simp: par_def)
qed

lemma other_parent_par:
  assumes "C x = Some c" "Comet_OtherParent c \<in> dom C"
  shows "(x, Comet_OtherParent c) \<in> par C"
  using assms by (auto simp: par_def)

context consensus_store
begin

text \<open>A method is calm when it changes only memo caches and the recency of the store.\<close>

definition frozen :: "'st CometGraph \<Rightarrow> _" where
  "frozen g = (Participants g, ReverseParticipants g, UndeterminedEvents g, UndecidedRounds g, LastConsensusRound g,
     LastBlockIndex g, LastCommitedRoundEvents g, ConsensusTransactions g, PendingLoadedEvents g,
     topologicalIndex g, mostPlurality g, commitCh g)"

definition cinv :: "chains \<Rightarrow> 'st CometGraph \<Rightarrow> bool" where
  "cinv ch g \<longleftrightarrow> ginv ch g \<and> caches_ok g \<and> known_rounds (view (cgStore g)) \<and> signed (view (cgStore g)) \<and>
     dag (comets_of g) \<and> set (UndeterminedEvents g) \<subseteq> dom (comets_of g)"

definition calm :: "'st CometGraph \<Rightarrow> 'st CometGraph \<Rightarrow> bool" where
  "calm g g' \<longleftrightarrow> frozen g' = frozen g \<and> ok (cgStore g') \<and> view (cgStore g') = view (cgStore g) \<and> caches_ok g'"

lemma calmD:
  assumes "calm g g'"
  shows "frozen g' = frozen g" "Participants g' = Participants g" "mostPlurality g' = mostPlurality g"
    "UndeterminedEvents g' = UndeterminedEvents g" "UndecidedRounds g' = UndecidedRounds g"
    "LastConsensusRound g' = LastConsensusRound g"
    "ok (cgStore g')" "view (cgStore g') = view (cgStore g)" "comets_of g' = comets_of g" "caches_ok g'"
    "cinv ch g \<Longrightarrow> cinv ch g'"
  using assms by (auto simp: calm_def frozen_def comets_of_def cinv_def ginv_def)

lemma cinvD:
  assumes "cinv ch g"
  shows "ginv ch g" "caches_ok g" "known_rounds (view (cgStore g))" "signed (view (cgStore g))"
    "dag (comets_of g)" "ok (cgStore g)" "chains_ok (Participants g) (comets_of g) ch" "comets_of g [] = None"
    "x \<in> set (UndeterminedEvents g) \<Longrightarrow> x \<in> dom (comets_of g)"
    "view_ok cr (Participants g) (view (cgStore g)) ch"
  using assms view_okD(3) [of cr "Participants g" "view (cgStore g)" ch]
  by (auto simp: cinv_def ginv_def comets_of_def chains_ok_def)

lemma calm_refl: "cinv ch g \<Longrightarrow> calm g g"
  by (simp add: calm_def cinv_def ginv_def)

lemma calm_trans: "calm g h \<Longrightarrow> calm h k \<Longrightarrow> calm g k"
  by (simp add: calm_def)

lemma same_caches: "same g h \<Longrightarrow> caches_ok h = caches_ok g"
  by (auto simp: same_def caches_ok_def comets_of_def)

lemma same_calm: "same g h \<Longrightarrow> caches_ok g \<Longrightarrow> calm g h"
  using same_caches by (auto simp: same_def calm_def frozen_def)

lemma quiet_calm: "quiet g h \<Longrightarrow> caches_ok h \<Longrightarrow> calm g h"
  by (auto simp: quiet_def calm_def frozen_def)

lemma calm_caches [simp]:
  "calm g (h\<lparr>parentRoundCache := a\<rparr>) = calm g h" "calm g (h\<lparr>cg_roundCache := b\<rparr>) = calm g h"
  "calm g (h\<lparr>oldestSelfAncestorCache := d\<rparr>) = calm g h"
  by (auto simp: calm_def frozen_def caches_ok_def comets_of_def)

text \<open>Reading a comet, a root, and the witnesses of a round.\<close>

lemma read_comet:
  assumes "cinv ch g" "calm g h"
    and "\<And>g'. calm g g' \<Longrightarrow> comets_of g k = None \<Longrightarrow> Q (Inl (NewStoreErr KeyNotFound k)) g'"
    and "\<And>g' c. calm g g' \<Longrightarrow> comets_of g k = Some (core c) \<Longrightarrow> Q (Inr c) g'"
  shows "returns (sGetComet S k h) Q"
  by (rule sGetComet_returns [OF calmD(7) [OF assms(2)]])
    (use assms(3,4) calm_trans [OF assms(2)] same_calm [OF _ calmD(10) [OF assms(2)]] calmD(9) [OF assms(2)] in auto)

lemma read_witnesses:
  assumes "calm g h" and "\<And>g'. calm g g' \<Longrightarrow>
      Q (case v_rounds (view (cgStore g)) i of None \<Rightarrow> [] | Some ri \<Rightarrow> RoundInfo_Witnesses ri) g'"
  shows "returns (sRoundWitnesses S i h) Q"
proof -
  obtain ws st where e: "st_RoundWitnesses S i (cgStore h) = (ws, st)" by fastforce
  note l = RoundWitnesses_law [OF calmD(7) [OF assms(1)] e]
  have "calm h (h\<lparr>cgStore := st\<rparr>)"
    using l calmD(10) [OF assms(1)] by (simp add: calm_def frozen_def caches_ok_def comets_of_def)
  then show ?thesis
    using l assms(2) [OF calm_trans [OF assms(1)]] calmD(8) [OF assms(1)] e by (simp add: sRoundWitnesses_def)
qed

lemma witness_known:
  assumes "cinv ch g" "w \<in> set (case v_rounds (view (cgStore g)) i of None \<Rightarrow> [] | Some ri \<Rightarrow> RoundInfo_Witnesses ri)"
  shows "w \<in> dom (comets_of g)"
  using assms(2) cinvD(3) [OF assms(1)]
  by (force simp: known_rounds_def RoundInfo_Witnesses_def comets_of_def domIff split: option.splits)

lemma base_root:
  assumes "cinv ch g" "calm g h" "comets_of g x = Some (core c)"
  shows "st_GetRoot S (Comet_Creator c) (cgStore h) = Inr NewBaseRoot"
proof -
  have "map_of (Participants g) (Comet_Creator c) \<noteq> None"
    using chains_okD(1) [OF cinvD(7) [OF assms(1)] assms(3)] by (simp add: in_chain_def)
  then show ?thesis
    using GetRoot_law [OF calmD(7) [OF assms(2)]] calmD(8) [OF assms(2)]
      view_okD(7) [OF cinvD(10) [OF assms(1)]] by simp
qed

end

section \<open>Rounds\<close>

lemma returns_bindI:
  assumes "returns c P" "\<And>r s. P r s \<Longrightarrow> returns (f (r, s)) Q"
  shows "returns (c \<bind> f) Q"
  using assms by (auto simp: returns_iff)

context consensus_store
begin

lemma StronglySee_calm:
  assumes "cinv ch g" "calm g h" "x \<in> dom (comets_of g)" "y \<in> dom (comets_of g)"
  shows "returns (StronglySee S x y h) (\<lambda>b g'. b = (int (card (between (comets_of g) x y)) \<ge> mostPlurality g) \<and> calm g g')"
proof -
  note h = calmD [OF assms(2)] cinvD(1) [OF calmD(11) [OF assms(2,1)]]
  have "returns (StronglySee S x y h) (\<lambda>b g'.
      b = (int (card (between (comets_of h) x y)) \<ge> mostPlurality h) \<and> quiet h g' \<and> caches_ok g')"
    by (rule StronglySee_returns [OF h(12,10)]) (use assms(3,4) h(9) in simp_all)
  then show ?thesis
    by (rule returns_mono) (use h(3,9) calm_trans [OF assms(2) quiet_calm] in auto)
qed

lemma See_calm:
  assumes "cinv ch g" "calm g h" "x \<in> dom (comets_of g)" "y \<in> dom (comets_of g)"
  shows "returns (See S x y h) (\<lambda>b g'. b = anc (comets_of g) x y \<and> calm g g')"
proof -
  note h = calmD [OF assms(2)] cinvD(1) [OF calmD(11) [OF assms(2,1)]]
  have "returns (AncestorOf S x y h) (\<lambda>b g'. b = anc (comets_of h) x y \<and> quiet h g' \<and> caches_ok g')"
    by (rule AncestorOf_returns [OF h(12,10)]) (use assms(3,4) h(9) in simp_all)
  then show ?thesis
    unfolding See_def by (rule returns_mono) (use h(9) calm_trans [OF assms(2) quiet_calm] in auto)
qed

lemma StronglySee_empty:
  assumes "cinv ch g" "calm g h"
  shows "returns (StronglySee S [] w h) (\<lambda>_. calm g)"
proof -
  obtain hit c where get: "LRU_Get (stronglySeeCache h) ([], w) = (hit, c)" by fastforce
  let ?R = "\<lambda>(x, y) b. x \<noteq> [] \<longrightarrow> x \<in> dom (comets_of h) \<and> y \<in> dom (comets_of h) \<and>
        b = (int (card (between (comets_of h) x y)) \<ge> mostPlurality h)"
  have co: "lru.coherent ?R c"
    using lru.coherent_lookup(1) [of ?R "stronglySeeCache h" "([], w)"] calmD(10) [OF assms(2)] get
    by (simp add: caches_ok_def)
  have keep: "calm g (h'\<lparr>stronglySeeCache := d\<rparr>)"
    if "lru.coherent ?R d" "same (h\<lparr>stronglySeeCache := c\<rparr>) h'" for d h'
    using that assms(2) by (auto simp: same_def calm_def frozen_def caches_ok_def comets_of_def)
  have ok: "ok (cgStore (h\<lparr>stronglySeeCache := c\<rparr>))" using calmD(7) [OF assms(2)] by simp
  have none: "comets_of (h\<lparr>stronglySeeCache := c\<rparr>) [] = None"
    using cinvD(8) [OF assms(1)] calmD(9) [OF assms(2)] by (simp add: comets_of_def)
  have ss: "returns (stronglySee S [] w (h\<lparr>stronglySeeCache := c\<rparr>)) (\<lambda>b g'. \<not> b \<and> same (h\<lparr>stronglySeeCache := c\<rparr>) g')"
    unfolding stronglySee_def returns_bind by (rule sGetComet_returns [OF ok]) (use none in simp_all)
  show ?thesis
  proof (cases hit)
    case (Some b)
    then show ?thesis using get keep [OF co same_refl [OF ok]] by (simp add: StronglySee_def)
  next
    case None
    have add: "calm g (h'\<lparr>stronglySeeCache := snd (LRU_Add (stronglySeeCache h') ([], w) b)\<rparr>)"
      if "same (h\<lparr>stronglySeeCache := c\<rparr>) h'" for h' b
    proof -
      have "stronglySeeCache h' = c" using that by (auto simp: same_def)
      then show ?thesis using keep [OF _ that] lru.coherent_insert [OF co, of "([], w)" b] by simp
    qed
    have "returns (do {
        (ss, g) \<leftarrow> stronglySee S [] w (h\<lparr>stronglySeeCache := c\<rparr>);
        Some (ss, g\<lparr>stronglySeeCache := snd (LRU_Add (stronglySeeCache g) ([], w) ss)\<rparr>)
      }) (\<lambda>_. calm g)"
      unfolding returns_bind
      by (rule returns_mono [OF ss]) (simp add: add)
    then show ?thesis using None get by (simp add: StronglySee_def)
  qed
qed

text \<open>The bodies of \<^verbatim>\<open>ParentRound\<close>, \<^verbatim>\<open>RoundInc\<close> and \<^verbatim>\<open>round\<close>, given that the recursive calls on parents return.\<close>

lemma parentRound_with_returns:
  assumes inv: "cinv ch g" "calm g h" and x: "x \<in> dom (comets_of g) \<or> x = []"
    and rnd: "\<And>y h. (x, y) \<in> par (comets_of g) \<Longrightarrow> calm g h \<Longrightarrow> returns (rnd y h) (\<lambda>_. calm g)"
  shows "returns (parentRound_with rnd S x h) (\<lambda>_. calm g)"
  unfolding parentRound_with_def returns_bind
proof (rule read_comet [OF inv], goal_cases)
  case (1 h1)
  then show ?case by simp
next
  case (2 h1 c)
  note root = base_root [OF inv(1) 2(1,2)]
  have self: "returns (rnd (Comet_SelfParent c) h) (\<lambda>_. calm g)" if "Comet_SelfParent c \<noteq> []" "calm g h" for h
    using rnd self_parent_par [OF cinvD(7) [OF inv(1)] 2(2)] that by simp
  have other: "returns (rnd (Comet_OtherParent c) h2) (\<lambda>_. calm g)"
    if "calm g h2" "comets_of g (Comet_OtherParent c) = Some d" for h2 d
    by (rule rnd [OF _ that(1)], rule other_parent_par [of _ x "core c", simplified]) (use 2(2) that(2) in auto)
  have first: "returns (if Comet_SelfParent c = root_X NewBaseRoot then Some ((root_Round NewBaseRoot, True), h1)
      else do { (r, g) \<leftarrow> rnd (Comet_SelfParent c) h1; Some ((r, False), g) }) (\<lambda>_. calm g)"
  proof (cases "Comet_SelfParent c = []")
    case False
    show ?thesis
      using False by (simp add: NewBaseRoot_def del: returns_bind) (rule returns_bindI [OF self [OF False 2(1)]], simp)
  qed (use 2(1) in \<open>simp add: NewBaseRoot_def\<close>)
  show ?case
    unfolding split_conv sum.case root
  proof (rule returns_bindI [OF first], goal_cases)
    case (1 r h2)
    obtain a b where r: "r = (a, b)" by fastforce
    have get: "returns (sGetComet S (Comet_OtherParent c) h2) (\<lambda>ro h. calm g h \<and>
        (case ro of Inl _ \<Rightarrow> True | Inr d \<Rightarrow> comets_of g (Comet_OtherParent c) = Some (core d)))"
      using 1 by (intro read_comet [OF inv(1)]) simp_all
    show ?case
      unfolding r split_conv
    proof (rule returns_bindI [OF get], goal_cases)
      case (1 ro h3)
      then show ?case
        by (cases ro) (auto simp: NewBaseRoot_def intro!: returns_mono [OF other])
    qed
  qed
qed

end

context consensus_store
begin

lemma ParentRound_with_returns:
  assumes inv: "cinv ch g" "calm g h" and x: "x \<in> dom (comets_of g) \<or> x = []"
    and rnd: "\<And>y h. (x, y) \<in> par (comets_of g) \<Longrightarrow> calm g h \<Longrightarrow> returns (rnd y h) (\<lambda>_. calm g)"
  shows "returns (ParentRound_with rnd S x h) (\<lambda>_. calm g)"
proof -
  obtain hit c where get: "LRU_Get (parentRoundCache h) x = (hit, c)" by fastforce
  have "returns (parentRound_with rnd S x (h\<lparr>parentRoundCache := c\<rparr>)) (\<lambda>_. calm g)"
    by (rule parentRound_with_returns [OF inv(1) _ x rnd]) (use inv(2) in simp_all)
  then show ?thesis
    using get inv(2) by (cases hit) (auto simp: ParentRound_with_def elim!: returns_mono)
qed

lemma RoundInc_with_returns:
  assumes inv: "cinv ch g" "calm g h" and x: "x \<in> dom (comets_of g) \<or> x = []"
    and rnd: "\<And>y h. (x, y) \<in> par (comets_of g) \<Longrightarrow> calm g h \<Longrightarrow> returns (rnd y h) (\<lambda>_. calm g)"
  shows "returns (RoundInc_with rnd S x h) (\<lambda>_. calm g)"
proof -
  have ss: "returns (StronglySee S x w h) (\<lambda>_. calm g)" if "calm g h" "w \<in> dom (comets_of g)" for w h
  proof (cases "x = []")
    case True
    then show ?thesis using StronglySee_empty [OF inv(1) that(1)] by simp
  next
    case False
    then show ?thesis using returns_mono [OF StronglySee_calm [OF inv(1) that(1) _ that(2)]] x by simp
  qed
  have filt: "returns (filterM (StronglySee S x) ws h) (\<lambda>_. calm g)"
    if "calm g h" "\<And>w. w \<in> set ws \<Longrightarrow> w \<in> dom (comets_of g)" for ws h
    using that
  proof (induction ws arbitrary: h)
    case (Cons w ws)
    have "returns (StronglySee S x w h) (\<lambda>_. calm g)" by (rule ss) (use Cons.prems in simp_all)
    then show ?case using Cons by (auto elim!: returns_mono)
  qed simp
  show ?thesis
    unfolding RoundInc_with_def
  proof (rule returns_bindI [OF ParentRound_with_returns [OF inv x rnd]], goal_cases)
    case (3 pr h1)
    show ?case
    proof (cases "pri_IsRoot pr")
      case False
      have "returns (sRoundWitnesses S (pri_Round pr) h1) (\<lambda>ws h. calm g h \<and> (\<forall>w \<in> set ws. w \<in> dom (comets_of g)))"
        by (rule read_witnesses [OF 3]) (use witness_known [OF inv(1)] in blast)
      then show ?thesis
        using False by (auto elim!: returns_mono intro!: returns_mono [OF filt])
    qed (use 3 in simp)
  qed
qed

lemma round_with_returns:
  assumes inv: "cinv ch g" "calm g h" and x: "x \<in> dom (comets_of g) \<or> x = []"
    and rnd: "\<And>y h. (x, y) \<in> par (comets_of g) \<Longrightarrow> calm g h \<Longrightarrow> returns (rnd y h) (\<lambda>_. calm g)"
  shows "returns (round_with rnd S x h) (\<lambda>_. calm g)"
  unfolding round_with_def
  by (rule returns_bindI [OF ParentRound_with_returns [OF inv x rnd]])
    (auto intro!: returns_mono [OF RoundInc_with_returns [OF inv(1) _ x rnd]])

text \<open>\<^verbatim>\<open>Round\<close> returns when it has fuel for every comet it can visit.\<close>

lemma Round_returns:
  assumes "cinv ch g" "calm g h" "x \<in> dom (comets_of g) \<or> x = []" "depth (comets_of g) x < n"
  shows "returns (Round S n x h) (\<lambda>_. calm g)"
  using assms(2-4)
proof (induction n arbitrary: x h)
  case (Suc n)
  have rnd: "returns (Round S n y h) (\<lambda>_. calm g)" if "(x, y) \<in> par (comets_of g)" "calm g h" for y h
    by (rule Suc.IH [OF that(2)])
      (use that(1) depth_par [OF cinvD(5) [OF assms(1)] that(1)] Suc.prems(3) in \<open>auto simp: par_def\<close>)
  obtain hit c where get: "LRU_Get (cg_roundCache h) x = (hit, c)" by fastforce
  have "returns (round_with (Round S n) S x (h\<lparr>cg_roundCache := c\<rparr>)) (\<lambda>_. calm g)"
    by (rule round_with_returns [OF assms(1) _ Suc.prems(2) rnd]) (use Suc.prems(1) in simp_all)
  then show ?case
    using get Suc.prems(1) by (cases hit) (auto elim!: returns_mono)
qed simp

lemma enough_fuel:
  assumes "cinv ch g" "card (dom (comets_of g)) < n"
  shows "depth (comets_of g) x < n"
  using depth_le [OF cinvD(5) [OF assms(1)], of x] assms(2) by simp

lemma Witness_returns:
  assumes inv: "cinv ch g" "calm g h" and x: "x \<in> dom (comets_of g)" and n: "card (dom (comets_of g)) < n"
  shows "returns (Witness S n x h) (\<lambda>_. calm g)"
  unfolding Witness_def
proof (rule returns_bindI [where P = "\<lambda>r h. calm g h \<and> (\<exists>c. r = Inr c \<and> comets_of g x = Some (core c))"], goal_cases)
  case 1
  show ?case by (rule read_comet [OF inv]) (use x in auto)
next
  case (2 r h1)
  then obtain c where c: "calm g h1" "r = Inr c" "comets_of g x = Some (core c)" by blast
  have r: "returns (Round S n y h) (\<lambda>_. calm g)" if "y = x \<or> y = Comet_SelfParent c" "calm g h" for y h
  proof (rule Round_returns [OF inv(1) that(2) _ enough_fuel [OF inv(1) n]])
    show "y \<in> dom (comets_of g) \<or> y = []"
      using that(1) x self_parent_par [OF cinvD(7) [OF inv(1)] c(3)] by (auto simp: par_def)
  qed
  show ?case
    using base_root [OF inv(1) c(1,3)] c(1) r
    by (auto simp: c(2) intro!: returns_mono [OF r])
qed

end

section \<open>Filling rounds\<close>

context consensus_store
begin

text \<open>What the methods before \<^verbatim>\<open>FindOrder\<close> leave alone.\<close>

definition stable :: "'st CometGraph \<Rightarrow> 'st CometGraph \<Rightarrow> bool" where
  "stable g g' \<longleftrightarrow> comets_of g' = comets_of g \<and> Participants g' = Participants g \<and>
     mostPlurality g' = mostPlurality g \<and> UndeterminedEvents g' = UndeterminedEvents g \<and>
     topologicalIndex g' = topologicalIndex g \<and> commitCh g' = commitCh g \<and> LastBlockIndex g' = LastBlockIndex g"

lemma stable_refl: "stable g g"
  by (simp add: stable_def)

lemma stable_trans: "stable g h \<Longrightarrow> stable h k \<Longrightarrow> stable g k"
  by (simp add: stable_def)

lemma calm_stable: "calm g h \<Longrightarrow> stable g h"
  by (auto simp: calm_def stable_def frozen_def comets_of_def)

lemma read_round:
  assumes "calm g h" and "\<And>g'. calm g g' \<Longrightarrow> Q (case v_rounds (view (cgStore g)) i of
      None \<Rightarrow> (NewRoundInfo, Some (NewStoreErr KeyNotFound (itoa i))) | Some ri \<Rightarrow> (ri, None)) g'"
  shows "returns (sGetRound S i h) Q"
proof -
  obtain r st where e: "st_GetRound S i (cgStore h) = (r, st)" by fastforce
  note l = GetRound_law [OF calmD(7) [OF assms(1)] e]
  have "calm h (h\<lparr>cgStore := st\<rparr>)"
    using l calmD(10) [OF assms(1)] by (simp add: calm_def frozen_def caches_ok_def comets_of_def)
  then show ?thesis
    using l assms(2) [OF calm_trans [OF assms(1)]] calmD(8) [OF assms(1)] e by (simp add: sGetRound_def)
qed

lemma write_round:
  assumes inv: "cinv ch h" and ri: "distinct (map fst (Events ri))" "fst ` set (Events ri) \<subseteq> dom (comets_of h)"
  shows "returns (sSetRound S i ri h) (\<lambda>e g'. e = None \<and> cinv ch g' \<and> stable h g' \<and>
    UndecidedRounds g' = UndecidedRounds h \<and> LastConsensusRound g' = LastConsensusRound h \<and>
    v_rounds (view (cgStore g')) i = Some ri \<and>
    (\<forall>k u. v_rounds (view (cgStore g')) k = Some u \<longrightarrow> k = i \<or> v_rounds (view (cgStore h)) k = Some u))"
proof -
  obtain e st where e: "st_SetRound S i ri (cgStore h) = (e, st)" by fastforce
  obtain m where m: "e = None" "ok st" "m i = Some ri"
    "\<And>k u. m k = Some u \<Longrightarrow> k = i \<or> v_rounds (view (cgStore h)) k = Some u"
    "view st = (view (cgStore h))\<lparr>v_rounds := m, v_lastRound := max (v_lastRound (view (cgStore h))) i\<rparr>"
    using SetRound_law [OF cinvD(6) [OF inv] e] by blast
  have ok: "distinct (map fst (Events r)) \<and> (\<forall>x \<in> fst ` set (Events r). v_comets (view (cgStore h)) x \<noteq> None)"
    if r: "m k = Some r" for k r
  proof (cases "k = i")
    case True
    then show ?thesis using r m(3) ri by (force simp: comets_of_def domIff)
  next
    case False
    then show ?thesis using m(4) [OF r] cinvD(3) [OF inv] by (simp add: known_rounds_def)
  qed
  have "known_rounds (view st)" unfolding known_rounds_def m(5) using ok by simp
  then have "cinv ch (h\<lparr>cgStore := st\<rparr>)"
    using inv m(2,5) by (simp add: cinv_def ginv_def view_ok_def signed_def caches_ok_def comets_of_def)
  then show ?thesis
    using m e by (auto simp: sSetRound_def stable_def comets_of_def)
qed

lemma AddEvent_keys:
  "fst ` set (Events (RoundInfo_AddEvent r x w)) = insert x (fst ` set (Events r))"
  "distinct (map fst (Events r)) \<Longrightarrow> distinct (map fst (Events (RoundInfo_AddEvent r x w)))"
  by (auto simp: RoundInfo_AddEvent_def dom_map_of_conv_image_fst [symmetric] map_of_update distinct_keys_update
      split: option.splits)

lemma cinv_undecided [simp]:
  "cinv ch (g\<lparr>UndecidedRounds := u\<rparr>) = cinv ch g"
  by (simp add: cinv_def ginv_def caches_ok_def comets_of_def)

lemma stable_undecided [simp]: "stable g (h\<lparr>UndecidedRounds := u\<rparr>) = stable g h" "stable (g\<lparr>UndecidedRounds := u\<rparr>) h = stable g h"
  by (simp_all add: stable_def comets_of_def)

lemma divideRound_returns:
  assumes inv: "cinv ch g" and x: "x \<in> dom (comets_of g)" and n: "card (dom (comets_of g)) < n"
  shows "returns (divideRound S n x g) (\<lambda>r g'. r = Inr () \<and> cinv ch g' \<and> stable g g')"
proof -
  have rest: "returns (sSetRound S i (RoundInfo_AddEvent (ri\<lparr>Queued := True\<rparr>) x w)
        (if \<not> Queued ri then h\<lparr>UndecidedRounds := UndecidedRounds h @ [i]\<rparr> else h))
      (\<lambda>e g'. e = None \<and> cinv ch g' \<and> stable g g')"
    if h: "calm g h" and ri: "ri = NewRoundInfo \<or> v_rounds (view (cgStore g)) i = Some ri" for h i ri w
  proof -
    let ?h = "if \<not> Queued ri then h\<lparr>UndecidedRounds := UndecidedRounds h @ [i]\<rparr> else h"
    have h': "cinv ch ?h" "comets_of ?h = comets_of g" "stable g ?h"
      using calmD(11) [OF h inv] calmD(9) [OF h] calm_stable [OF h] by (simp_all add: comets_of_def)
    have k: "distinct (map fst (Events ri)) \<and> (\<forall>x \<in> fst ` set (Events ri). x \<in> dom (comets_of g))"
      using ri cinvD(3) [OF inv] by (auto simp: known_rounds_def NewRoundInfo_def comets_of_def domIff)
    have k': "distinct (map fst (Events (RoundInfo_AddEvent (ri\<lparr>Queued := True\<rparr>) x w)))"
      by (rule AddEvent_keys(2)) (use k in simp)
    have k'': "fst ` set (Events (RoundInfo_AddEvent (ri\<lparr>Queued := True\<rparr>) x w)) \<subseteq> dom (comets_of ?h)"
      using k x h'(2) by (auto simp: AddEvent_keys(1))
    show ?thesis
      by (rule returns_mono [OF write_round [OF h'(1) k' k'']]) (use stable_trans [OF h'(3)] in blast)
  qed
  have r: "returns (Round S n x g) (\<lambda>_. calm g)"
    by (rule Round_returns [OF inv calm_refl [OF inv] _ enough_fuel [OF inv n]]) (use x in simp)
  show ?thesis
    unfolding divideRound_def
  proof (rule returns_bindI [OF r], unfold split_conv, goal_cases)
    case (1 i h1)
    show ?case
    proof (rule returns_bindI [OF Witness_returns [OF inv 1 x n]], unfold split_conv, goal_cases)
      case (1 w h2)
      show ?case
      proof (rule returns_bindI [where P = "\<lambda>q h. calm g h \<and> (snd q = None \<or> err_Is (snd q) KeyNotFound) \<and>
            (fst q = NewRoundInfo \<or> v_rounds (view (cgStore g)) i = Some (fst q))"], goal_cases)
        case 1
        show ?case by (rule read_round [OF \<open>calm g h2\<close>]) (simp split: option.splits)
      next
        case (2 q h3)
        then have "returns (sSetRound S i (RoundInfo_AddEvent ((fst q)\<lparr>Queued := True\<rparr>) x w)
            (if \<not> Queued (fst q) then h3\<lparr>UndecidedRounds := UndecidedRounds h3 @ [i]\<rparr> else h3))
          (\<lambda>e g'. e = None \<and> cinv ch g' \<and> stable g g')" using rest by blast
        then show ?case using 2 by (cases q) (auto simp: Let_def elim!: returns_mono)
      qed
    qed
  qed
qed

lemma DivideRounds_returns:
  assumes inv: "cinv ch g" and n: "card (dom (comets_of g)) < n"
  shows "returns (DivideRounds S n g) (\<lambda>r g'. r = Inr () \<and> cinv ch g' \<and> stable g g')"
proof -
  have "returns (forE (UndeterminedEvents g) (divideRound S n) g)
      (\<lambda>r g'. case r of Inl e \<Rightarrow> False | Inr _ \<Rightarrow> cinv ch g' \<and> stable g g')"
  proof (rule returns_forE)
    show "cinv ch g \<and> stable g g" using inv stable_refl by blast
    fix don x rest h assume l: "UndeterminedEvents g = don @ x # rest" and h: "cinv ch h \<and> stable g h"
    then have "comets_of h = comets_of g" by (simp add: stable_def)
    moreover have "x \<in> dom (comets_of g)" using cinvD(9) [OF inv] l by simp
    ultimately have "returns (divideRound S n x h) (\<lambda>r g'. r = Inr () \<and> cinv ch g' \<and> stable h g')"
      using divideRound_returns [of ch h x n] h n by simp
    then show "returns (divideRound S n x h) (\<lambda>r g'. case r of Inl e \<Rightarrow> False | Inr _ \<Rightarrow> cinv ch g' \<and> stable g g')"
      by (rule returns_mono) (use h stable_trans in auto)
  qed
  then show ?thesis unfolding DivideRounds_def by (rule returns_mono) (auto split: sum.splits)
qed

end

end
