(* ===== verification/Fame.thy ===== *)
theory Fame
  imports ConsensusInv
begin

text \<open>
  Deciding fame.  The vote of a witness is a function of the graph and the earlier votes, \<open>vote_spec\<close>;
  \<^verbatim>\<open>DecideFame\<close> computes it, never touches a fame that is decided, and takes a round off the list of
  undecided rounds only when all its witnesses are decided.  If one witness decides in a round, every
  witness of that round that strongly sees a supermajority votes the same way.
\<close>

section \<open>Votes\<close>

definition vote_spec :: "comets \<Rightarrow> int \<Rightarrow> int \<Rightarrow> string list \<Rightarrow> int \<Rightarrow> string \<Rightarrow> int \<Rightarrow> string \<Rightarrow> votes \<Rightarrow> bool \<times> bool" where
  "vote_spec C n plurality ws i x j y votes =
     (if j - i = 1 then (False, anc C y x)
      else let (v, t) = tally votes x (filter (\<lambda>w. int (card (between C y w)) \<ge> plurality) ws)
           in if normal_round (j - i) n then (t \<ge> plurality, v)
              else (False, if t \<ge> plurality then v else the (middleBit y)))"

definition round_witnesses :: "store_view \<Rightarrow> int \<Rightarrow> string list" where
  "round_witnesses v i = (case v_rounds v i of None \<Rightarrow> [] | Some ri \<Rightarrow> RoundInfo_Witnesses ri)"

text \<open>A later version of a round: the same comets and witnesses, and every decided fame as it was.\<close>

definition event_keeps :: "RoundEvent \<Rightarrow> RoundEvent \<Rightarrow> bool" where
  "event_keeps e e' \<longleftrightarrow> re_Witness e' = re_Witness e \<and> (Famous e \<noteq> Undefined \<longrightarrow> Famous e' = Famous e)"

definition fame_keeps :: "RoundInfo \<Rightarrow> RoundInfo \<Rightarrow> bool" where
  "fame_keeps r r' \<longleftrightarrow> distinct (map fst (Events r')) \<and>
     (\<forall>x. rel_option event_keeps (map_of (Events r) x) (map_of (Events r') x))"

lemma fame_keepsD:
  assumes "fame_keeps r r'"
  shows "map_of (Events r) x = Some e \<Longrightarrow> \<exists>e'. map_of (Events r') x = Some e' \<and> event_keeps e e'"
    and "map_of (Events r') x = Some e' \<Longrightarrow> \<exists>e. map_of (Events r) x = Some e \<and> event_keeps e e'"
    and "map_of (Events r') x = None \<longleftrightarrow> map_of (Events r) x = None"
proof -
  have "rel_option event_keeps (map_of (Events r) x) (map_of (Events r') x)" using assms by (simp add: fame_keeps_def)
  then show "map_of (Events r) x = Some e \<Longrightarrow> \<exists>e'. map_of (Events r') x = Some e' \<and> event_keeps e e'"
    and "map_of (Events r') x = Some e' \<Longrightarrow> \<exists>e. map_of (Events r) x = Some e \<and> event_keeps e e'"
    and "map_of (Events r') x = None \<longleftrightarrow> map_of (Events r) x = None"
    by (auto simp: option_rel_Some1 option_rel_Some2 elim: option.rel_cases)
qed

lemma fame_keeps_refl: "distinct (map fst (Events r)) \<Longrightarrow> fame_keeps r r"
  by (simp add: fame_keeps_def event_keeps_def option.rel_refl)

lemma fame_keeps_trans:
  assumes "fame_keeps a b" "fame_keeps b c"
  shows "fame_keeps a c"
proof -
  have "rel_option event_keeps (map_of (Events a) x) (map_of (Events c) x)" for x
  proof (cases "map_of (Events a) x")
    case None
    then show ?thesis using fame_keepsD(3) [OF assms(1), of x] fame_keepsD(3) [OF assms(2), of x] by simp
  next
    case (Some e)
    obtain e' where e': "map_of (Events b) x = Some e'" "event_keeps e e'" using fame_keepsD(1) [OF assms(1) Some] by blast
    obtain e'' where "map_of (Events c) x = Some e''" "event_keeps e' e''" using fame_keepsD(1) [OF assms(2) e'(1)] by blast
    then show ?thesis using Some e'(2) by (auto simp: event_keeps_def)
  qed
  then show ?thesis using assms(2) by (simp add: fame_keeps_def)
qed

lemma fame_keeps_keys:
  assumes "fame_keeps r r'"
  shows "fst ` set (Events r') = fst ` set (Events r)"
  using fame_keepsD(3) [OF assms] by (auto simp: map_of_eq_None_iff)

lemma fame_keeps_SetFame:
  assumes "distinct (map fst (Events r))" "map_of (Events r) x = Some e" "Famous e = Undefined"
  shows "fame_keeps r (RoundInfo_SetFame r x v)"
  using assms
  by (auto simp: fame_keeps_def RoundInfo_SetFame_def event_keeps_def Let_def map_of_update distinct_keys_update
      option.rel_refl)

lemma WitnessesDecided_map:
  assumes "distinct (map fst (Events r))"
  shows "RoundInfo_WitnessesDecided r \<longleftrightarrow> (\<forall>x e. map_of (Events r) x = Some e \<longrightarrow> re_Witness e \<longrightarrow> Famous e \<noteq> Undefined)"
  using assms by (auto simp: RoundInfo_WitnessesDecided_def list_all_iff)

lemma fame_keeps_decided:
  assumes "fame_keeps r r'" "distinct (map fst (Events r))" "RoundInfo_WitnessesDecided r"
  shows "RoundInfo_WitnessesDecided r'"
proof -
  have d: "distinct (map fst (Events r'))" using assms(1) by (simp add: fame_keeps_def)
  have "Famous e' \<noteq> Undefined" if r': "map_of (Events r') x = Some e'" and w: "re_Witness e'" for x e'
  proof -
    obtain e where "map_of (Events r) x = Some e" "event_keeps e e'" using fame_keepsD(2) [OF assms(1) r'] by blast
    then show ?thesis using w assms(3) by (auto simp: WitnessesDecided_map [OF assms(2)] event_keeps_def)
  qed
  then show ?thesis by (simp add: WitnessesDecided_map [OF d])
qed

lemma witness_undecided:
  assumes "distinct (map fst (Events r))" "x \<in> set (RoundInfo_Witnesses r)" "fame_keeps r r'"
    and "\<not> RoundInfo_IsDecided r' x"
  obtains e where "map_of (Events r') x = Some e" "Famous e = Undefined"
proof -
  obtain e0 where "map_of (Events r) x = Some e0" "re_Witness e0"
    using assms(1,2) by (auto simp: RoundInfo_Witnesses_def)
  then obtain e where "map_of (Events r') x = Some e" "re_Witness e"
    using fame_keepsD(1) [OF assms(3)] by (auto simp: event_keeps_def)
  then show ?thesis using that assms(4) by (simp add: RoundInfo_IsDecided_def)
qed

section \<open>The loops of \<^verbatim>\<open>DecideFame\<close>\<close>

lemma middleBit_hash: "\<exists>b. middleBit (Comet_Hex cr c) = Some b"
  by (simp add: middleBit_def Comet_Hex_def Sprintf_0xX_def Let_def)

context consensus_store
begin

lemma hash_middleBit:
  assumes "cinv ch g" "y \<in> dom (comets_of g)"
  shows "middleBit y = Some (the (middleBit y))"
proof -
  obtain c where "comets_of g y = Some c" using assms(2) by blast
  then have "Comet_Hex cr c = y" using view_okD(5) [OF cinvD(10) [OF assms(1)]] by (simp add: comets_of_def)
  then show ?thesis using middleBit_hash [of cr c] by auto
qed

definition vote :: "'st CometGraph \<Rightarrow> int \<Rightarrow> string \<Rightarrow> int \<Rightarrow> string \<Rightarrow> votes \<Rightarrow> bool \<times> bool" where
  "vote g i x j y votes = vote_spec (comets_of g) (int (length (Participants g))) (mostPlurality g)
     (round_witnesses (view (cgStore g)) (j - 1)) i x j y votes"

lemma fameVote_returns:
  assumes inv: "cinv ch g" "calm g h" and xy: "x \<in> dom (comets_of g)" "y \<in> dom (comets_of g)"
    and d: "(d, b) = vote g i x j y votes"
  shows "returns (fameVote S i x j y votes ri h) (\<lambda>r h'. calm g h' \<and>
    r = (d, setVote votes y x b, if d then RoundInfo_SetFame ri x b else ri))"
proof (cases "j - i = 1")
  case True
  then show ?thesis
    using d by (auto simp: fameVote_def vote_def vote_spec_def intro!: returns_mono [OF See_calm [OF inv xy(2,1)]])
next
  case False
  define ws where "ws = round_witnesses (view (cgStore g)) (j - 1)"
  let ?p = "\<lambda>w. int (card (between (comets_of g) y w)) \<ge> mostPlurality g"
  have known: "w \<in> dom (comets_of g)" if "w \<in> set ws" for w
    using witness_known [OF inv(1)] that by (simp add: ws_def round_witnesses_def)
  have filt: "returns (filterM (StronglySee S y) ws h) (\<lambda>ss h'. ss = filter ?p ws \<and> calm g h')" if "calm g h" for h
    using that by (intro filterM_returns) (auto intro!: StronglySee_calm [OF inv(1)] xy(2) known)
  have rd: "returns (sRoundWitnesses S (j - 1) h) (\<lambda>r h'. r = ws \<and> calm g h')"
    by (rule read_witnesses [OF inv(2)]) (simp add: ws_def round_witnesses_def)
  obtain v t where vt: "tally votes x (filter ?p ws) = (v, t)" by fastforce
  have b: "(d, b) = (if normal_round (j - i) (int (length (Participants g))) then (t \<ge> mostPlurality g, v)
      else (False, if t \<ge> mostPlurality g then v else the (middleBit y)))"
    using d False vt by (simp add: vote_def vote_spec_def ws_def)
  obtain m where m: "middleBit y = Some m" "the (middleBit y) = m"
    using hash_middleBit [OF inv(1) xy(2)] by metis
  show ?thesis
    unfolding fameVote_def Let_def if_not_P [OF False]
  proof (rule returns_bindI [OF rd], unfold split_conv, elim conjE, hypsubst, rule returns_bindI [OF filt],
      assumption, unfold split_conv, elim conjE, hypsubst, goal_cases)
    case (1 r h1 ss h2)
    show ?case
      using 1 b m calmD(2,3) [OF \<open>calm g h2\<close>] by (auto simp: vt split: if_splits)
  qed
qed

lemma fameYs_returns:
  assumes "cinv ch g" "calm g h" "x \<in> dom (comets_of g)" "\<And>y. y \<in> set ys \<Longrightarrow> y \<in> dom (comets_of g)"
  shows "returns (fameYs S i x j ys votes ri h) (\<lambda>(d, votes', ri') h'. calm g h' \<and>
    ri' \<in> (if d then range (RoundInfo_SetFame ri x) else {ri}))"
  using assms(2,4)
proof (induction ys arbitrary: votes h)
  case (Cons y ys)
  obtain d b where d: "(d, b) = vote g i x j y votes" by (metis surj_pair)
  show ?case
    unfolding fameYs.simps
  proof (rule returns_bindI [OF fameVote_returns [OF assms(1) Cons.prems(1) assms(3) _ d]], goal_cases)
    case 1
    show ?case using Cons.prems(2) by simp
  next
    case (2 r h1)
    then show ?case
    proof (cases d)
      case False
      then show ?thesis using 2 Cons.IH [of h1 "setVote votes y x b"] Cons.prems(2) by simp
    qed auto
  qed
qed simp

lemma fameJs_returns:
  assumes "cinv ch g" "calm g h" "x \<in> dom (comets_of g)"
  shows "returns (fameJs S i x js votes ri h) (\<lambda>(votes', ri') h'. calm g h' \<and>
    (ri' = ri \<or> ri' \<in> range (RoundInfo_SetFame ri x)))"
  using assms(2)
proof (induction js arbitrary: votes h)
  case (Cons j js)
  have rd: "returns (sRoundWitnesses S j h) (\<lambda>ys h'. calm g h' \<and> (\<forall>y \<in> set ys. y \<in> dom (comets_of g)))"
    by (rule read_witnesses [OF Cons.prems]) (use witness_known [OF assms(1)] in blast)
  show ?case
    unfolding fameJs.simps
  proof (rule returns_bindI [OF rd], unfold split_conv, goal_cases)
    case (1 ys h1)
    show ?case
    proof (rule returns_bindI [OF fameYs_returns [OF assms(1) _ assms(3)]], goal_cases)
      case (3 r h2)
      then show ?case
        using Cons.IH [of h2] by (cases r) (auto split: if_splits)
    qed (use 1 in auto)
  qed
qed simp

lemma fameXs_returns:
  assumes inv: "cinv ch g" "calm g h" and r0: "distinct (map fst (Events r0))" "fame_keeps r0 ri"
    and xs: "set xs \<subseteq> set (RoundInfo_Witnesses r0)" "fst ` set (Events r0) \<subseteq> dom (comets_of g)"
  shows "returns (fameXs S i xs votes ri h) (\<lambda>(votes', ri') h'. calm g h' \<and> fame_keeps r0 ri')"
  using inv(2) r0(2) xs(1)
proof (induction xs arbitrary: votes ri h)
  case (Cons x xs)
  have x: "x \<in> dom (comets_of g)" using Cons.prems(3) xs(2) by (auto simp: RoundInfo_Witnesses_def)
  show ?case
  proof (cases "RoundInfo_IsDecided ri x")
    case True
    then show ?thesis using Cons by simp
  next
    case False
    obtain e where e: "map_of (Events ri) x = Some e" "Famous e = Undefined"
      using witness_undecided [OF r0(1) _ Cons.prems(2) False] Cons.prems(3) by auto
    have d: "distinct (map fst (Events ri))" using Cons.prems(2) by (simp add: fame_keeps_def)
    have keep: "fame_keeps r0 ri'" if "ri' = ri \<or> ri' \<in> range (RoundInfo_SetFame ri x)" for ri'
      using that fame_keeps_trans [OF Cons.prems(2)] fame_keeps_SetFame [OF d e] Cons.prems(2) by auto
    show ?thesis
      unfolding fameXs.simps if_not_P [OF False]
    proof (rule returns_bindI [OF fameJs_returns [OF inv(1) Cons.prems(1) x]], goal_cases)
      case (1 r h1)
      then show ?case using Cons.IH [of h1 "snd r" "fst r"] keep Cons.prems(3) by (cases r) auto
    qed
  qed
qed simp

end

section \<open>\<^verbatim>\<open>DecideFame\<close>\<close>

definition rounds_keep :: "store_view \<Rightarrow> store_view \<Rightarrow> bool" where
  "rounds_keep v v' \<longleftrightarrow> (\<forall>i r'. v_rounds v' i = Some r' \<longrightarrow> (\<exists>r. v_rounds v i = Some r \<and> fame_keeps r r'))"

definition decided_in :: "int list \<Rightarrow> store_view \<Rightarrow> bool" where
  "decided_in is v \<longleftrightarrow> (\<forall>i \<in> set is. \<forall>r. v_rounds v i = Some r \<longrightarrow> RoundInfo_WitnessesDecided r)"

lemma rounds_keep_refl: "known_rounds v \<Longrightarrow> rounds_keep v v"
  by (auto simp: rounds_keep_def known_rounds_def intro: fame_keeps_refl)

lemma rounds_keep_trans: "rounds_keep u v \<Longrightarrow> rounds_keep v w \<Longrightarrow> rounds_keep u w"
  unfolding rounds_keep_def by (meson fame_keeps_trans)

lemma decided_in_mono:
  assumes "decided_in is v" "rounds_keep v w" "known_rounds v"
  shows "decided_in is w"
  unfolding decided_in_def
proof (intro ballI allI impI)
  fix i r' assume i: "i \<in> set is" "v_rounds w i = Some r'"
  obtain r where r: "v_rounds v i = Some r" "fame_keeps r r'" using assms(2) i(2) by (auto simp: rounds_keep_def)
  have "distinct (map fst (Events r))" using assms(3) r(1) by (simp add: known_rounds_def)
  then show "RoundInfo_WitnessesDecided r'"
    using fame_keeps_decided [OF r(2)] assms(1) i(1) r(1) by (simp add: decided_in_def)
qed

context consensus_store
begin

lemma cinv_consensus [simp]:
  "cinv ch (g\<lparr>LastConsensusRound := a\<rparr>) = cinv ch g" "cinv ch (g\<lparr>LastCommitedRoundEvents := b\<rparr>) = cinv ch g"
  by (simp_all add: cinv_def ginv_def caches_ok_def comets_of_def)

lemma stable_consensus [simp]:
  "stable g (h\<lparr>LastConsensusRound := a\<rparr>) = stable g h" "stable g (h\<lparr>LastCommitedRoundEvents := b\<rparr>) = stable g h"
  "stable (g\<lparr>LastConsensusRound := a\<rparr>) h = stable g h"
  by (simp_all add: stable_def comets_of_def)

text \<open>Progress of the loop over the undecided rounds.\<close>

definition voted :: "chains \<Rightarrow> 'st CometGraph \<Rightarrow> 'st CometGraph \<Rightarrow> bool" where
  "voted ch g g' \<longleftrightarrow> cinv ch g' \<and> stable g g' \<and> UndecidedRounds g' = UndecidedRounds g \<and>
     rounds_keep (view (cgStore g)) (view (cgStore g'))"

lemma voted_trans: "voted ch g h \<Longrightarrow> voted ch h k \<Longrightarrow> voted ch g k"
  by (auto simp: voted_def intro: stable_trans rounds_keep_trans)

lemma calm_voted: "cinv ch g \<Longrightarrow> calm g h \<Longrightarrow> voted ch g h"
  using calmD(5,8,11) [of g h] calm_stable [of g h] cinvD(3) [of ch g] rounds_keep_refl
  by (auto simp: voted_def)

lemma setLastConsensusRound_returns:
  assumes "cinv ch h"
  shows "returns (setLastConsensusRound S i h) (\<lambda>_ g'. voted ch h g' \<and> view (cgStore g') = view (cgStore h))"
proof -
  let ?h = "h\<lparr>LastConsensusRound := Some i\<rparr>"
  obtain n st where e: "st_RoundEvents S (i - 1) (cgStore h) = (n, st)" by fastforce
  note l = RoundEvents_law [OF cinvD(6) [OF assms] e]
  have "calm ?h (?h\<lparr>cgStore := st\<rparr>)"
    using l cinvD(2) [OF assms] by (simp add: calm_def frozen_def caches_ok_def comets_of_def)
  from calm_voted [OF _ this, of ch] have "voted ch ?h (?h\<lparr>cgStore := st\<rparr>)" using assms by simp
  then show ?thesis
    using l e by (simp add: setLastConsensusRound_def sRoundEvents_def voted_def)
qed

lemma stored_round:
  assumes inv: "cinv ch h" and r0: "v_rounds (view (cgStore h)) i = Some r0" and ri: "fame_keeps r0 ri"
    and h3: "voted ch h h3" "view (cgStore h3) = view (cgStore h)"
    and g': "cinv ch g'" "stable h3 g'" "UndecidedRounds g' = UndecidedRounds h3"
      "v_rounds (view (cgStore g')) i = Some ri"
      "\<And>k u. v_rounds (view (cgStore g')) k = Some u \<Longrightarrow> k = i \<or> v_rounds (view (cgStore h3)) k = Some u"
    and D: "decided_in D (view (cgStore h))"
  shows "voted ch h g'" "decided_in (if RoundInfo_WitnessesDecided ri then D @ [i] else D) (view (cgStore g'))"
proof -
  note kr = cinvD(3) [OF inv]
  have rk: "rounds_keep (view (cgStore h)) (view (cgStore g'))"
    unfolding rounds_keep_def
  proof (intro allI impI)
    fix k r' assume k: "v_rounds (view (cgStore g')) k = Some r'"
    show "\<exists>r. v_rounds (view (cgStore h)) k = Some r \<and> fame_keeps r r'"
    proof (cases "k = i")
      case True
      then show ?thesis using k g'(4) r0 ri by simp
    next
      case False
      then have "v_rounds (view (cgStore h)) k = Some r'" using g'(5) [OF k] h3(2) by simp
      then show ?thesis using fame_keeps_refl kr by (auto simp: known_rounds_def)
    qed
  qed
  show "voted ch h g'" using h3(1) g' rk stable_trans [of h h3 g'] by (simp add: voted_def)
  have "decided_in D (view (cgStore g'))" by (rule decided_in_mono [OF D rk kr])
  then show "decided_in (if RoundInfo_WitnessesDecided ri then D @ [i] else D) (view (cgStore g'))"
    using g'(4) by (auto simp: decided_in_def)
qed

lemma fameRounds_returns:
  assumes "cinv ch h" "decided_in D (view (cgStore h))"
  shows "returns (fameRounds S is votes D h) (\<lambda>(D', r) g'. voted ch h g' \<and>
    set D' \<subseteq> set D \<union> set is \<and> decided_in D' (view (cgStore g')))"
  using assms
proof (induction "is" arbitrary: votes D h)
  case Nil
  then show ?case using calm_voted [OF _ calm_refl] by auto
next
  case (Cons i rest)
  note inv = Cons.prems(1)
  have rd: "returns (sGetRound S i h) (\<lambda>(ri, e) h'. calm h h' \<and>
      (e = None \<longrightarrow> v_rounds (view (cgStore h)) i = Some ri))"
    by (rule read_round [OF calm_refl [OF inv]]) (simp split: option.splits)
  show ?case
    unfolding fameRounds.simps
  proof (rule returns_bindI [OF rd], goal_cases)
    case (1 q h1)
    obtain r0 e where q: "q = (r0, e)" by fastforce
    show ?case
    proof (cases e)
      case (Some er)
      have "voted ch h h1" using calm_voted [OF inv] 1 q by simp
      moreover have "decided_in D (view (cgStore h1))"
        using 1 q calmD(8) [of h h1] Cons.prems(2) by simp
      ultimately show ?thesis by (auto simp: q Some)
    next
      case None
      have c1: "calm h h1" and r0: "v_rounds (view (cgStore h)) i = Some r0" using 1 q None by simp_all
      have d0: "distinct (map fst (Events r0))" "fst ` set (Events r0) \<subseteq> dom (comets_of h)"
        using cinvD(3) [OF inv] r0 by (auto simp: known_rounds_def comets_of_def domIff)
      have fx: "returns (fameXs S i (RoundInfo_Witnesses r0) votes r0 h1) (\<lambda>(votes', ri') h'. calm h h' \<and> fame_keeps r0 ri')"
        by (rule fameXs_returns [OF inv c1 d0(1) fame_keeps_refl [OF d0(1)] subset_refl d0(2)])
      show ?thesis
        unfolding q None split_conv option.case
      proof (rule returns_bindI [OF fx], goal_cases)
        case (1 p h2)
        obtain votes' ri where p: "p = (votes', ri)" by fastforce
        have c2: "calm h h2" and ri: "fame_keeps r0 ri" using 1 p by simp_all
        have mid: "returns (if RoundInfo_WitnessesDecided ri then do {
               (_, g) \<leftarrow> (if (case LastConsensusRound h2 of None \<Rightarrow> True | Some l \<Rightarrow> i > l)
                  then setLastConsensusRound S i h2 else Some ((), h2));
               Some (D @ [i], g)
             } else Some (D, h2)) (\<lambda>D' h3. voted ch h h3 \<and> view (cgStore h3) = view (cgStore h) \<and>
               D' = (if RoundInfo_WitnessesDecided ri then D @ [i] else D))"
          using calmD(8,11) [OF c2] calm_voted [OF inv c2] inv voted_trans [of ch h h2]
          by (auto intro!: returns_mono [OF setLastConsensusRound_returns])
        show ?case
          unfolding p split_conv
        proof (rule returns_bindI [OF mid], unfold split_conv, goal_cases)
          case (1 D' h3)
          note v = 1
          then have h3: "cinv ch h3" "comets_of h3 = comets_of h" by (auto simp: voted_def stable_def)
          have keys: "distinct (map fst (Events ri))" "fst ` set (Events ri) \<subseteq> dom (comets_of h3)"
            using ri d0(2) h3(2) fame_keeps_keys [OF ri] by (simp_all add: fame_keeps_def)
          show ?case
          proof (rule returns_bindI [OF write_round [OF h3(1) keys, of i]], unfold split_conv, goal_cases)
            case (1 e g')
            have w: "voted ch h g'" "decided_in D' (view (cgStore g'))"
              using stored_round [OF inv r0 ri, of h3 g' D] 1 v Cons.prems(2) by auto
            have "returns (fameRounds S rest votes' D' g') (\<lambda>(D'', r) g''. voted ch g' g'' \<and>
                set D'' \<subseteq> set D' \<union> set rest \<and> decided_in D'' (view (cgStore g'')))"
              by (rule Cons.IH) (use w in \<open>simp_all add: voted_def\<close>)
            moreover have "set D' \<subseteq> insert i (set D)" using v by auto
            moreover have "e = None" using 1 by blast
            ultimately show ?case
              using voted_trans [OF w(1)] by (auto elim!: returns_mono)
          qed
        qed
      qed
    qed
  qed
qed

end

context consensus_store
begin

lemma DecideFame_returns:
  assumes "cinv ch g"
  shows "returns (DecideFame S g) (\<lambda>r g'. cinv ch g' \<and> stable g g' \<and>
    rounds_keep (view (cgStore g)) (view (cgStore g')) \<and>
    (\<exists>D. UndecidedRounds g' = filter (\<lambda>i. i \<notin> set D) (UndecidedRounds g) \<and> decided_in D (view (cgStore g'))))"
proof -
  have "decided_in [] (view (cgStore g))" by (simp add: decided_in_def)
  then show ?thesis
    unfolding DecideFame_def
    by (intro returns_bindI [OF fameRounds_returns [OF assms]])
      (auto simp: voted_def updateUndecidedRounds_def)
qed

end

section \<open>Agreement\<close>

lemma length_filter_card: "distinct xs \<Longrightarrow> length (filter P xs) = card {x \<in> set xs. P x}"
  using distinct_card [of "filter P xs"] by simp

text \<open>If a witness decides, every witness of the same round that strongly sees a supermajority votes alike.\<close>

lemma vote_spec_agree:
  assumes ws: "distinct ws" "length ws \<le> n"
    and dec: "vote_spec C (int n) (2 * int n div 3 + 1) ws i x j y votes = (True, v)"
    and y': "2 * int n div 3 + 1 \<le> int (length (filter (\<lambda>w. int (card (between C y' w)) \<ge> 2 * int n div 3 + 1) ws))"
  shows "snd (vote_spec C (int n) (2 * int n div 3 + 1) ws i x j y' votes) = v"
proof -
  let ?pl = "2 * int n div 3 + 1"
  let ?A = "filter (\<lambda>w. int (card (between C y w)) \<ge> ?pl) ws"
  let ?B = "filter (\<lambda>w. int (card (between C y' w)) \<ge> ?pl) ws"
  have ne: "j - i \<noteq> 1" using dec by (auto simp: vote_spec_def)
  have nr: "normal_round (j - i) (int n)" and A: "tally votes x ?A = (v, snd (tally votes x ?A))"
    and t: "snd (tally votes x ?A) \<ge> ?pl"
    using dec ne by (auto simp: vote_spec_def split: prod.splits if_splits)
  define V where "V = {w \<in> set ?A. votes w x = v}"
  have "?pl \<le> int (length (filter (\<lambda>w. votes w x = v) ?A))" using tally_cases [OF A] t by simp
  then have V: "2 * n div 3 < card V"
    using length_filter_card [of ?A "\<lambda>w. votes w x = v"] ws(1) by (simp add: V_def zdiv_int)
  have B: "2 * n div 3 < card (set ?B)" using y' distinct_card [of ?B] ws(1) by (simp add: zdiv_int)
  have "card {w \<in> set ?B. \<not> votes w x = v} < card {w \<in> set ?B. votes w x = v}"
    by (rule supermajority_majority [where W = "set ws" and V = V and n = n])
      (use V B ws distinct_card [of ws] in \<open>auto simp: V_def\<close>)
  then have "fst (tally votes x ?B) = v"
    using ws(1) by (intro tally_fst) (simp add: length_filter_card)
  then show ?thesis using ne nr by (auto simp: vote_spec_def split: prod.splits)
qed

end
