(* ===== verification/Receive.thy ===== *)
theory Receive
  imports Fame
begin

text \<open>
  Receiving and ordering comets.  \<^verbatim>\<open>DecideRoundReceived\<close> changes nothing about a comet but its received
  round and consensus timestamp, and \<^verbatim>\<open>FindOrder\<close> moves the received comets from the undetermined
  ones into blocks.  Both return on every graph that satisfies the invariant and keep it.
\<close>

section \<open>Comets that differ in their received round only\<close>

definition fixed_part :: "Comet \<Rightarrow> _" where
  "fixed_part c = (Body c, cSignature c, LastAncestors c, FirstDescendants c)"

definition alike :: "comets \<Rightarrow> comets \<Rightarrow> bool" where
  "alike C C' \<longleftrightarrow> (\<forall>k. map_option fixed_part (C' k) = map_option fixed_part (C k))"

lemma alike_refl: "alike C C"
  by (simp add: alike_def)

lemma alike_trans: "alike A B \<Longrightarrow> alike B C \<Longrightarrow> alike A C"
  by (simp add: alike_def)

lemma alike_sym: "alike A B \<Longrightarrow> alike B A"
  by (simp add: alike_def)

lemma alikeD:
  assumes "alike C C'" "C k = Some c"
  shows "\<exists>c'. C' k = Some c' \<and> fixed_part c' = fixed_part c"
proof -
  have "map_option fixed_part (C' k) = map_option fixed_part (C k)" using assms(1) by (simp add: alike_def)
  then show ?thesis using assms(2) by auto
qed

lemma fixed_part_eqD:
  assumes "fixed_part c' = fixed_part c"
  shows "Comet_Creator c' = Comet_Creator c" "Comet_SelfParent c' = Comet_SelfParent c"
    "Comet_OtherParent c' = Comet_OtherParent c" "Comet_Index c' = Comet_Index c"
    "LastAncestors c' = LastAncestors c" "FirstDescendants c' = FirstDescendants c"
    "Comet_Hex cr c' = Comet_Hex cr c" "sig_r c' = sig_r c"
  using assms by (simp_all add: fixed_part_def Comet_Creator_def Comet_SelfParent_def Comet_OtherParent_def
      Comet_Index_def Comet_Hex_def Comet_Hash_def sig_r_def)

lemma alike_None: "alike C C' \<Longrightarrow> C' k = None \<longleftrightarrow> C k = None"
  unfolding alike_def by (metis map_option_is_None)

lemma alike_dom: "alike C C' \<Longrightarrow> dom C' = dom C"
  by (simp add: dom_def alike_None)

lemma alike_par_le:
  assumes "alike C C'"
  shows "par C \<subseteq> par C'"
proof (rule subrelI)
  fix x y assume "(x, y) \<in> par C"
  then obtain c where c: "C x = Some c" "y \<in> dom C" "y = Comet_SelfParent c \<or> y = Comet_OtherParent c"
    by (auto simp: par_def)
  obtain c' where "C' x = Some c'" "fixed_part c' = fixed_part c" using alikeD [OF assms c(1)] by blast
  then show "(x, y) \<in> par C'" using c(2,3) alike_dom [OF assms] fixed_part_eqD(2,3) [of c' c] by (auto simp: par_def)
qed

lemma alike_par: "alike C C' \<Longrightarrow> par C' = par C"
  using alike_par_le alike_sym by blast

lemma alike_anc: "alike C C' \<Longrightarrow> anc C' = anc C"
  by (intro ext) (simp add: anc_def alike_dom alike_par)

lemma between_iff:
  "p \<in> between C x y \<longleftrightarrow> (\<exists>z. anc C x z \<and> anc C z y \<and> map_option Comet_Creator (C z) = Some p)"
  unfolding between_def by auto

lemma alike_creator:
  assumes "alike C C'"
  shows "map_option Comet_Creator (C' z) = map_option Comet_Creator (C z)"
proof (cases "C z")
  case None
  then show ?thesis using alike_None [OF assms, of z] by simp
next
  case (Some c)
  obtain c' where "C' z = Some c'" "fixed_part c' = fixed_part c" using alikeD [OF assms Some] by blast
  then show ?thesis using Some fixed_part_eqD(1) [of c' c] by simp
qed

lemma alike_between: "alike C C' \<Longrightarrow> between C' x y = between C x y"
  by (rule set_eqI) (simp add: between_iff alike_anc alike_creator)

lemma alike_graph_ok:
  assumes a: "alike C C'" and g: "graph_ok ps C ch"
  shows "graph_ok ps C' ch"
proof -
  have ok: "chains_ok ps C ch" "coords_ok ps C ch" "members_ok ps" using g by (simp_all add: graph_ok_def)
  have bk: "\<exists>c. C k = Some c \<and> fixed_part c' = fixed_part c" if "C' k = Some c'" for k c'
    using alikeD [OF alike_sym [OF a] that] by auto
  have "in_chain ps ch k c'" if c': "C' k = Some c'" for k c'
  proof -
    obtain c where c: "C k = Some c" "fixed_part c' = fixed_part c" using bk [OF c'] by blast
    then show ?thesis using chains_okD(1) [OF ok(1) c(1)] fixed_part_eqD [OF c(2)] by (simp add: in_chain_def)
  qed
  moreover have "link_ok C' p (ch p) j" if j: "j < length (ch p)" for p j
  proof -
    obtain c where c: "C (ch p ! j) = Some c" "Comet_Creator c = p" "Comet_Index c = int j"
      "Comet_SelfParent c = (if j = 0 then [] else ch p ! (j - 1))"
      using chains_okD(2) [OF ok(1) j] by (auto simp: link_ok_def)
    obtain c' where c': "C' (ch p ! j) = Some c'" "fixed_part c' = fixed_part c" using alikeD [OF a c(1)] by blast
    then show ?thesis using c fixed_part_eqD [OF c'(2)] by (auto simp: link_ok_def)
  qed
  moreover have "Comet_OtherParent c' = [] \<or> Comet_OtherParent c' \<in> dom C'" if c': "C' k = Some c'" for k c'
    using bk [OF c'] chains_okD(4) [OF ok(1)] fixed_part_eqD(3) alike_dom [OF a] by metis
  moreover have "C' [] = None" using alike_None [OF a] chains_okD(5) [OF ok(1)] by simp
  ultimately have "chains_ok ps C' ch" using chains_okD(3) [OF ok(1)] by (simp add: chains_ok_def)
  moreover have "coords_ok ps C' ch"
    unfolding coords_ok_def
  proof (intro allI impI)
    fix k c' assume c': "C' k = Some c'"
    obtain c where c: "C k = Some c" "fixed_part c' = fixed_part c" using bk [OF c'] by blast
    show "length (LastAncestors c') = length ps \<and> length (FirstDescendants c') = length ps \<and>
      (\<forall>p i. map_of ps p = Some i \<longrightarrow>
        la_spec C' (ch p) k (LastAncestors c' ! nat i) \<and> fd_spec C' (ch p) k (FirstDescendants c' ! nat i))"
      using coords_okD [OF ok(2) c(1)] fixed_part_eqD(5,6) [OF c(2)] alike_anc [OF a]
      by (simp add: la_spec_def fd_spec_def)
  qed
  ultimately show ?thesis using ok(3) by (simp add: graph_ok_def)
qed

section \<open>Receiving comets\<close>

context consensus_store
begin

text \<open>What receiving comets leaves alone.\<close>

definition moved :: "'st CometGraph \<Rightarrow> 'st CometGraph \<Rightarrow> bool" where
  "moved g g' \<longleftrightarrow> alike (comets_of g) (comets_of g') \<and> Participants g' = Participants g \<and>
     mostPlurality g' = mostPlurality g \<and> UndeterminedEvents g' = UndeterminedEvents g \<and>
     topologicalIndex g' = topologicalIndex g \<and> commitCh g' = commitCh g \<and> LastBlockIndex g' = LastBlockIndex g"

lemma moved_trans: "moved g h \<Longrightarrow> moved h k \<Longrightarrow> moved g k"
  by (auto simp: moved_def intro: alike_trans)

lemma stable_moved: "stable g h \<Longrightarrow> moved g h"
  by (simp add: stable_def moved_def alike_refl)

lemma write_alike:
  assumes inv: "cinv ch h" and x: "comets_of h x = Some c0" and c: "fixed_part (core c) = fixed_part c0"
  shows "returns (sSetComet S c h) (\<lambda>e g'. e = None \<and> cinv ch g' \<and> moved h g')"
proof -
  obtain e st where e: "st_SetComet S c (cgStore h) = (e, st)" by fastforce
  note v = cinvD(10) [OF inv]
  have hx: "Comet_Hex cr c = x"
    using fixed_part_eqD(7) [OF c, of cr] view_okD(5) [OF v] x by (simp add: comets_of_def)
  let ?C = "(comets_of h)(x \<mapsto> core c)"
  have st: "e = None" "ok st" "view st = (view (cgStore h))\<lparr>v_comets := ?C\<rparr>"
    using SetComet_old [OF cinvD(6) [OF inv] e] hx x by (auto simp: comets_of_def)
  have a: "alike (comets_of h) ?C" using x c by (simp add: alike_def)
  have "graph_ok (Participants h) ?C ch"
    using alike_graph_ok [OF a] view_okD(1) [OF v] by (simp add: comets_of_def)
  moreover have "Comet_Hex cr d = k" if "?C k = Some d" for k d
    using that hx view_okD(5) [OF v, of k d] by (auto simp: comets_of_def split: if_splits)
  ultimately have "view_ok cr (Participants h) (view st) ch"
    using view_okD(6,7) [OF v] unfolding view_ok_def st(3) by simp
  moreover have "signed (view st)"
    using cinvD(4) [OF inv] fixed_part_eqD(8) [OF c] x by (auto simp: signed_def st(3) comets_of_def)
  moreover have "known_rounds (view st)" using cinvD(3) [OF inv] by (auto simp: known_rounds_def st(3) comets_of_def)
  moreover have "dag ?C" using cinvD(5) [OF inv] alike_par [OF a] alike_dom [OF a] by (simp add: dag_def)
  moreover have "caches_ok (h\<lparr>cgStore := st\<rparr>)"
    using cinvD(2) [OF inv] alike_dom [OF a] alike_anc [OF a] alike_between [OF a]
    by (simp add: caches_ok_def comets_of_def st(3))
  ultimately have "cinv ch (h\<lparr>cgStore := st\<rparr>)"
    using inv st(2) alike_dom [OF a] by (simp add: cinv_def ginv_def) (simp add: comets_of_def st(3))
  moreover have "moved h (h\<lparr>cgStore := st\<rparr>)" using a by (simp add: moved_def comets_of_def st(3))
  ultimately show ?thesis using st(1) e by (simp add: sSetComet_def)
qed

lemma OldestSelfAncestorToSee_calm:
  assumes inv: "cinv ch g" "calm g h" and y: "y \<in> dom (comets_of g)" and x: "x \<in> dom (comets_of g)"
  shows "returns (OldestSelfAncestorToSee S x y h) (\<lambda>_. calm g)"
proof -
  obtain hit c where get: "LRU_Get (oldestSelfAncestorCache h) (x, y) = (hit, c)" by fastforce
  let ?h = "h\<lparr>oldestSelfAncestorCache := c\<rparr>"
  have h: "calm g ?h" using inv(2) by simp
  have "returns (oldestSelfAncestorToSee S x y ?h) (\<lambda>_. calm g)"
    unfolding oldestSelfAncestorToSee_def
  proof (rule returns_bindI [where P = "\<lambda>r h. calm g h \<and> (\<exists>c. r = Inr c \<and> comets_of g x = Some (core c))"], goal_cases)
    case 1
    show ?case by (rule read_comet [OF inv(1) h]) (use x in auto)
  next
    case (2 r h1)
    then obtain ex where ex: "calm g h1" "r = Inr ex" "comets_of g x = Some (core ex)" by blast
    show ?case
      unfolding ex(2) split_conv sum.case
    proof (rule returns_bindI [where P = "\<lambda>r h. calm g h \<and> (\<exists>c. r = Inr c \<and> comets_of g y = Some (core c))"], goal_cases)
      case 1
      show ?case by (rule read_comet [OF inv(1) ex(1)]) (use y in auto)
    next
      case (2 r h2)
      then obtain ey where ey: "calm g h2" "r = Inr ey" "comets_of g y = Some (core ey)" by blast
      note v = cinvD(10) [OF inv(1)]
      obtain i where i: "map_of (Participants g) (Comet_Creator ex) = Some i"
        using chains_okD(1) [OF cinvD(7) [OF inv(1)] ex(3)] by (auto simp: in_chain_def)
      have "length (FirstDescendants ey) = length (Participants g)"
        using coords_okD(2) [OF view_okD(4) [OF v, folded comets_of_def] ey(3)] by simp
      then have "slice_at (FirstDescendants ey) (lookup0 (Participants g) (Comet_Creator ex)) \<noteq> None"
        using members_ok_id [OF view_okD(2) [OF v] i] i by (simp add: slice_at_def lookup0_def)
      then show ?case using ey(1) calmD(2) [OF ey(1)] by (auto simp: ey(2))
    qed
  qed
  then show ?thesis
    using get h by (cases hit) (auto simp: OldestSelfAncestorToSee_def elim!: returns_mono)
qed

lemma core_received: "fixed_part (core (c\<lparr>ConsensusTimestamp := t\<rparr>)) = fixed_part (core c)"
  "fixed_part (core (Comet_SetRoundReceived c i)) = fixed_part (core c)"
  by (simp_all add: fixed_part_def core_def Comet_SetWireInfo_def Comet_SetRoundReceived_def)

lemma mapM_calm:
  assumes "calm g h" "\<And>x h. x \<in> set xs \<Longrightarrow> calm g h \<Longrightarrow> returns (f x h) (\<lambda>_. calm g)"
  shows "returns (mapM f xs h) (\<lambda>ys h'. length ys = length xs \<and> calm g h')"
proof -
  have "returns (mapM f xs h) (\<lambda>ys h'. list_all2 (\<lambda>_ _. True) xs ys \<and> calm g h')"
    by (rule mapM_returns) (use assms in simp_all)
  then show ?thesis by (rule returns_mono) (auto dest: list_all2_lengthD)
qed

lemma receiveIn_returns:
  assumes inv: "cinv ch g" and x: "x \<in> dom (comets_of g)"
  shows "calm g h \<Longrightarrow> returns (receiveIn S x is h) (\<lambda>r g'. r = Inr () \<and> cinv ch g' \<and> moved g g')"
proof (induction "is" arbitrary: h)
  case Nil
  then show ?case using calmD(11) [OF Nil inv] stable_moved [OF calm_stable [OF Nil]] by simp
next
  case (Cons i "is")
  have rd: "returns (sGetRound S i h) (\<lambda>(tr, e) h'. calm g h' \<and> (e = None \<or> err_Is e KeyNotFound) \<and>
      set (RoundInfo_FamousWitnesses tr) \<subseteq> dom (comets_of g))"
    by (rule read_round [OF Cons.prems])
      (use cinvD(3) [OF inv] in \<open>auto simp: RoundInfo_FamousWitnesses_def NewRoundInfo_def known_rounds_def comets_of_def domIff
        split: option.splits\<close>)
  show ?case
    unfolding receiveIn.simps
  proof (rule returns_bindI [OF rd], goal_cases)
    case (1 q h1)
    obtain tr e where q: "q = (tr, e)" by fastforce
    have c1: "calm g h1" and e: "e = None \<or> err_Is e KeyNotFound"
      and fw: "\<And>w. w \<in> set (RoundInfo_FamousWitnesses tr) \<Longrightarrow> w \<in> dom (comets_of g)"
      using 1 q by (auto simp: subset_iff)
    define fws where "fws = RoundInfo_FamousWitnesses tr"
    define s where "s = filter (\<lambda>w. anc (comets_of g) w x) fws"
    have sees: "returns (filterM (\<lambda>w. See S w x) fws h1) (\<lambda>r h'. r = s \<and> calm g h')"
      unfolding s_def using c1 fw by (intro filterM_returns) (auto intro!: See_calm [OF inv] x simp: fws_def)
    have s: "a \<in> dom (comets_of g)" if "a \<in> set s" for a using that fw by (auto simp: s_def fws_def)
    have cut: "returns (if length s > length fws div 2 then do {
         (r, g) \<leftarrow> sGetComet S x h2;
         (case r of
            Inl e \<Rightarrow> Some (Inl (SErr e), g)
          | Inr ex \<Rightarrow> do {
              (t, g) \<leftarrow> mapM (\<lambda>a. OldestSelfAncestorToSee S a x) s g;
              (median, g) \<leftarrow> MedianTimestamp S t g;
              (err, g) \<leftarrow> sSetComet S ((Comet_SetRoundReceived ex i)\<lparr>ConsensusTimestamp := median\<rparr>) g;
              Some (case err of Some e \<Rightarrow> Inl (SErr e) | None \<Rightarrow> Inr (), g)
            })
       } else receiveIn S x is h2) (\<lambda>r g'. r = Inr () \<and> cinv ch g' \<and> moved g g')" if c2: "calm g h2" for h2
    proof (cases "length s > length fws div 2")
      case False
      then show ?thesis using Cons.IH [OF c2] by simp
    next
      case True
      then have ne: "s \<noteq> []" by auto
      show ?thesis
        unfolding if_P [OF True]
      proof (rule returns_bindI [where P = "\<lambda>r h. calm g h \<and> (\<exists>c. r = Inr c \<and> comets_of g x = Some (core c))"], goal_cases)
        case 1
        show ?case by (rule read_comet [OF inv c2]) (use x in auto)
      next
        case (2 r h3)
        then obtain ex where ex: "calm g h3" "r = Inr ex" "comets_of g x = Some (core ex)" by blast
        have m: "returns (mapM (\<lambda>a. OldestSelfAncestorToSee S a x) s h3) (\<lambda>t h'. length t = length s \<and> calm g h')"
          by (rule mapM_calm [OF ex(1)]) (rule OldestSelfAncestorToSee_calm [OF inv _ x s])
        show ?case
          unfolding ex(2) split_conv sum.case
        proof (rule returns_bindI [OF m], unfold split_conv, goal_cases)
          case (1 t h4)
          then have t: "t \<noteq> []" and h4: "calm g h4" using ne by auto
          show ?case
          proof (rule returns_bindI [OF MedianTimestamp_returns [OF calmD(7) [OF h4] t]], unfold split_conv, goal_cases)
            case (1 med h5)
            then have h5: "calm g h5" using calm_trans [OF h4 same_calm [OF _ calmD(10) [OF h4]]] by blast
            have "returns (sSetComet S ((Comet_SetRoundReceived ex i)\<lparr>ConsensusTimestamp := med\<rparr>) h5)
                (\<lambda>e g'. e = None \<and> cinv ch g' \<and> moved h5 g')"
              by (rule write_alike [OF calmD(11) [OF h5 inv], of x "core ex"])
                (use ex(3) calmD(9) [OF h5] in \<open>simp_all add: core_received\<close>)
            then show ?case
              using moved_trans [OF stable_moved [OF calm_stable [OF h5]]] by (auto elim!: returns_mono)
          qed
        qed
      qed
    qed
    have noerr: "\<not> (e \<noteq> None \<and> \<not> err_Is e KeyNotFound)" using e by auto
    show ?case
    proof (cases "RoundInfo_WitnessesDecided tr \<and> UndecidedRounds h1 \<noteq> [] \<and> hd (UndecidedRounds h1) > i")
      case False
      then show ?thesis unfolding q split_conv if_not_P [OF noerr] using Cons.IH [OF c1] by simp
    next
      case True
      then have "\<not> \<not> (RoundInfo_WitnessesDecided tr \<and> UndecidedRounds h1 \<noteq> [] \<and> hd (UndecidedRounds h1) > i)" by simp
      then show ?thesis
        unfolding q split_conv if_not_P [OF noerr] Let_def fws_def [symmetric]
        by (subst if_not_P, assumption, intro returns_bindI [OF sees], unfold split_conv) (elim conjE, hypsubst, rule cut)
    qed
  qed
qed

lemma DecideRoundReceived_returns:
  assumes inv: "cinv ch g" and n: "card (dom (comets_of g)) < n"
  shows "returns (DecideRoundReceived S n g) (\<lambda>r g'. r = Inr () \<and> cinv ch g' \<and> moved g g')"
proof -
  have "returns (DecideRoundReceived S n g) (\<lambda>r g'. case r of Inl e \<Rightarrow> False | Inr _ \<Rightarrow> cinv ch g' \<and> moved g g')"
    unfolding DecideRoundReceived_def
  proof (rule returns_forE)
    show "cinv ch g \<and> moved g g" using inv stable_moved [OF stable_refl] by blast
    fix don x rest h assume l: "UndeterminedEvents g = don @ x # rest" and h: "cinv ch h \<and> moved g h"
    then have d: "dom (comets_of h) = dom (comets_of g)" by (simp add: moved_def alike_dom)
    have x: "x \<in> dom (comets_of h)" using cinvD(9) [OF inv, of x] l d by simp
    have hh: "cinv ch h" using h by simp
    have r: "returns (Round S n x h) (\<lambda>_. calm h)"
      by (rule Round_returns [OF hh calm_refl [OF hh] _ enough_fuel [OF hh]]) (use x n d in simp_all)
    show "returns (do { (r, g) \<leftarrow> Round S n x h; receiveIn S x [r + 1 .. st_LastRound S (cgStore g)] g })
        (\<lambda>r g'. case r of Inl e \<Rightarrow> False | Inr _ \<Rightarrow> cinv ch g' \<and> moved g g')"
    proof (rule returns_bindI [OF r], unfold split_conv, goal_cases)
      case (1 i h1)
      show ?case
        by (rule returns_mono [OF receiveIn_returns [OF conjunct1 [OF h] x 1]]) (use h moved_trans in auto)
    qed
  qed
  then show ?thesis by (rule returns_mono) (auto split: sum.splits)
qed

end

section \<open>Finding the order\<close>

definition received :: "comets \<Rightarrow> string \<Rightarrow> bool" where
  "received C x \<longleftrightarrow> (\<exists>c. C x = Some c \<and> RoundReceived c \<noteq> None)"

lemma core_RoundReceived [simp]: "RoundReceived (core c) = RoundReceived c" "sig_r (core c) = sig_r c"
  by (simp_all add: core_def Comet_SetWireInfo_def sig_r_def)

lemma blocks_irrelevant [simp]:
  "known_rounds (v\<lparr>v_blocks := m\<rparr>) = known_rounds v" "signed (v\<lparr>v_blocks := m\<rparr>) = signed v"
  by (simp_all add: known_rounds_def signed_def)

context consensus_store
begin

lemma splitReceived_returns:
  assumes inv: "cinv ch g" and xs: "\<And>x. x \<in> set xs \<Longrightarrow> x \<in> dom (comets_of g)"
  shows "calm g h \<Longrightarrow> returns (splitReceived S xs es us h) (\<lambda>r h'. calm g h' \<and>
    (\<exists>es'. r = Inr (es @ es', us @ filter (\<lambda>x. \<not> received (comets_of g) x) xs) \<and>
      map (Comet_Hex cr) es' = filter (received (comets_of g)) xs \<and>
      (\<forall>e \<in> set es'. RoundReceived e \<noteq> None \<and> sig_r e \<noteq> None)))"
  using xs
proof (induction xs arbitrary: es us h)
  case (Cons x xs)
  have known: "\<And>x. x \<in> set xs \<Longrightarrow> x \<in> dom (comets_of g)" using Cons.prems(2) by simp
  have rd: "returns (sGetComet S x h) (\<lambda>r h'. calm g h' \<and> (\<exists>c. r = Inr c \<and> comets_of g x = Some (core c)))"
    by (rule read_comet [OF inv Cons.prems(1)]) (use Cons.prems(2) [of x] in auto)
  show ?case
    unfolding splitReceived.simps
  proof (rule returns_bindI [OF rd], goal_cases)
    case (1 r h1)
    then obtain c where c: "calm g h1" "r = Inr c" "comets_of g x = Some (core c)" by blast
    have hx: "Comet_Hex cr c = x"
      using view_okD(5) [OF cinvD(10) [OF inv], of x "core c"] c(3) by (simp add: comets_of_def)
    have sg: "sig_r c \<noteq> None"
    proof -
      have "sig_r (core c) \<noteq> None" using cinvD(4) [OF inv] c(3) unfolding signed_def comets_of_def by blast
      then show ?thesis by simp
    qed
    show ?case
    proof (cases "RoundReceived c = None")
      case True
      then have nr: "\<not> received (comets_of g) x" using c(3) by (simp add: received_def)
      show ?thesis
        using True nr Cons.IH [OF c(1), of es "us @ [x]"] known by (simp add: c(2))
    next
      case False
      then have nr: "received (comets_of g) x" using c(3) by (simp add: received_def)
      have "returns (splitReceived S xs (es @ [c]) us h1) (\<lambda>r h'. calm g h' \<and>
          (\<exists>es'. r = Inr ((es @ [c]) @ es', us @ filter (\<lambda>x. \<not> received (comets_of g) x) xs) \<and>
            map (Comet_Hex cr) es' = filter (received (comets_of g)) xs \<and>
            (\<forall>e \<in> set es'. RoundReceived e \<noteq> None \<and> sig_r e \<noteq> None)))"
        by (rule Cons.IH [OF c(1)]) (rule known)
      then have "returns (splitReceived S xs (es @ [c]) us h1) (\<lambda>r h'. calm g h' \<and>
          (\<exists>es'. r = Inr (es @ es', us @ filter (\<lambda>x. \<not> received (comets_of g) x) (x # xs)) \<and>
            map (Comet_Hex cr) es' = filter (received (comets_of g)) (x # xs) \<and>
            (\<forall>e \<in> set es'. RoundReceived e \<noteq> None \<and> sig_r e \<noteq> None)))"
      proof (rule returns_mono, elim conjE exE, goal_cases)
        case (1 r s es')
        then show ?case using nr hx sg False by (intro conjI exI [of _ "c # es'"]) simp_all
      qed
      then show ?thesis using False by (simp add: c(2) del: filter.simps)
    qed
  qed
qed simp

lemma cinv_undetermined:
  "cinv ch g \<Longrightarrow> set us \<subseteq> set (UndeterminedEvents g) \<Longrightarrow> cinv ch (g\<lparr>UndeterminedEvents := us\<rparr>)"
  by (auto simp: cinv_def ginv_def caches_ok_def comets_of_def)

lemma counted_cinv:
  assumes "cinv ch g" "counted es g g'"
  shows "cinv ch g'" "view (cgStore g') = view (cgStore g)" "Participants g' = Participants g"
    "mostPlurality g' = mostPlurality g" "UndeterminedEvents g' = UndeterminedEvents g"
    "topologicalIndex g' = topologicalIndex g"
  using assms by (auto simp: counted_def cinv_def ginv_def caches_ok_def comets_of_def)

lemma cut_cinv:
  assumes "cinv ch g" "cut bs g g'"
  shows "cinv ch g'" "comets_of g' = comets_of g" "Participants g' = Participants g"
    "mostPlurality g' = mostPlurality g" "UndeterminedEvents g' = UndeterminedEvents g"
    "topologicalIndex g' = topologicalIndex g"
  using assms by (auto simp: cut_def cinv_def ginv_def caches_ok_def comets_of_def)

lemma FindOrder_returns:
  assumes inv: "cinv ch g" and n: "card (dom (comets_of g)) < n"
  shows "returns (FindOrder cr S n g) (\<lambda>r g'. r = Inr () \<and> cinv ch g' \<and> alike (comets_of g) (comets_of g') \<and>
    Participants g' = Participants g \<and> mostPlurality g' = mostPlurality g \<and>
    topologicalIndex g' = topologicalIndex g \<and>
    UndeterminedEvents g' = filter (\<lambda>x. \<not> received (comets_of g') x) (UndeterminedEvents g))"
  unfolding FindOrder_def
proof (rule returns_bindI [OF DecideRoundReceived_returns [OF inv n]], goal_cases)
  case (1 r h)
  then have h: "r = Inr ()" "cinv ch h" "moved g h" by auto
  have sp: "returns (splitReceived S (UndeterminedEvents h) [] [] h) (\<lambda>r h'. calm h h' \<and>
    (\<exists>es'. r = Inr ([] @ es', [] @ filter (\<lambda>x. \<not> received (comets_of h) x) (UndeterminedEvents h)) \<and>
      map (Comet_Hex cr) es' = filter (received (comets_of h)) (UndeterminedEvents h) \<and>
      (\<forall>e \<in> set es'. RoundReceived e \<noteq> None \<and> sig_r e \<noteq> None)))"
    by (rule splitReceived_returns [OF h(2) cinvD(9) [OF h(2)] calm_refl [OF h(2)]])
  show ?case
    unfolding h(1) split_conv sum.case
  proof (rule returns_bindI [OF sp], goal_cases)
    case (1 q h1)
    define us where "us = filter (\<lambda>x. \<not> received (comets_of h) x) (UndeterminedEvents h)"
    obtain es where es: "q = Inr (es, us)" "\<forall>e \<in> set es. RoundReceived e \<noteq> None \<and> sig_r e \<noteq> None"
      using 1 by (auto simp: us_def)
    have c1: "calm h h1" using 1 by blast
    obtain srt where srt: "sortM (ConsensusSorter_Less (NewConsensusSorter es)) es = Some srt" "mset srt = mset es"
      using sortM_total [of es "ConsensusSorter_Less (NewConsensusSorter es)" consensus_key] Less_key es(2)
      by (auto simp: orderable_def)
    have srt': "e \<in> set srt \<Longrightarrow> RoundReceived e \<noteq> None" for e
      using srt(2) es(2) by (metis mset_eq_setD)
    let ?h = "h1\<lparr>UndeterminedEvents := us\<rparr>"
    have h1: "cinv ch ?h"
      by (rule cinv_undetermined [OF calmD(11) [OF c1 h(2)]]) (auto simp: us_def calmD(4) [OF c1])
    have "returns (handleNewConsensusEvents cr S srt ?h) (\<lambda>r g'. r = Inr () \<and>
        (\<exists>g1. counted srt ?h g1 \<and> cut (blocks_of (LastBlockIndex ?h) srt) g1 g'))"
      by (rule handleNewConsensusEvents_returns [OF cinvD(6) [OF h1] srt'])
    then have "returns (handleNewConsensusEvents cr S srt ?h) (\<lambda>r g'. r = Inr () \<and> cinv ch g' \<and>
        comets_of g' = comets_of h \<and> Participants g' = Participants h \<and> mostPlurality g' = mostPlurality h \<and>
        topologicalIndex g' = topologicalIndex h \<and> UndeterminedEvents g' = us)"
    proof (rule returns_mono, elim conjE exE, goal_cases)
      case (1 r g' g1)
      note c = counted_cinv [OF h1 1(3)]
      note d = cut_cinv [OF c(1) 1(4)]
      show ?case
        using 1(2) d c calmD(2,3,8) [OF c1] calmD(1) [OF c1] by (simp add: comets_of_def frozen_def)
    qed
    then show ?case
      unfolding es(1) split_conv sum.case Let_def srt(1) Option.bind.simps
      by (rule returns_mono) (use h(3) in \<open>auto simp: moved_def us_def\<close>)
  qed
qed

end

end
