(* ===== verification/GraphProps.thy ===== *)
theory GraphProps
  imports Receive
begin

text \<open>
  The comet graph over time.  A graph evolves by insertions, by the memoised queries and by the three
  consensus methods, in any order; \<open>reachable\<close> says which states it can reach from a fresh graph.  The
  invariant is shown to hold in every reachable state of a graph over any store that keeps the
  contract, and the properties are the consequences for the in-memory store: the queries compute
  reachability at any time, the memo caches never go stale, and no consensus method panics.
\<close>

section \<open>Steps\<close>

text \<open>
  The comet \<open>c\<close> comes from an honest creator: its hash is new, its index is the next one of its creator
  and not the sentinel of the coordinates, its block signatures can be read, and the store has room.
  The last two conditions give the walk of \<^verbatim>\<open>UpdateAncestorFirstDescendant\<close> fuel for the longest
  chain.
\<close>

definition next_index :: "store_view \<Rightarrow> string \<Rightarrow> int" where
  "next_index v p = (case v_last v p of Some (Some (h, i)) \<Rightarrow> i + 1 | _ \<Rightarrow> 0)"

definition honest :: "crypto \<Rightarrow> (string, int) gomap \<Rightarrow> store_view \<Rightarrow> nat \<Rightarrow> Comet \<Rightarrow> bool" where
  "honest cr ps v fuel c \<longleftrightarrow>
     v_comets v (Comet_Hex cr c) = None \<and>
     Comet_Index c = next_index v (Comet_Creator c) \<and> Comet_Index c < MaxInt32 \<and>
     (\<forall>bs \<in> set (Comet_BlockSignatures c). readable cr bs) \<and>
     roomy v \<and>
     1 < fuel \<and> (\<forall>p \<in> set (map fst ps). next_index v p + 1 < int fuel)"

inductive reachable ::
    "crypto \<Rightarrow> 'st Store \<Rightarrow> ('st \<Rightarrow> store_view) \<Rightarrow> 'st CometGraph \<Rightarrow> 'st CometGraph \<Rightarrow> bool"
  for cr S view g0 where
  start: "reachable cr S view g0 g0"
| insertion: "reachable cr S view g0 g \<Longrightarrow> honest cr (Participants g) (view (cgStore g)) fuel c \<Longrightarrow>
    InsertComet cr S fuel c w g = Some (Inr (), g') \<Longrightarrow> reachable cr S view g0 g'"
| ancestry: "reachable cr S view g0 g \<Longrightarrow>
    x \<in> dom (v_comets (view (cgStore g))) \<Longrightarrow> y \<in> dom (v_comets (view (cgStore g))) \<Longrightarrow>
    AncestorOf S x y g = Some (b, g') \<Longrightarrow> reachable cr S view g0 g'"
| strong_sight: "reachable cr S view g0 g \<Longrightarrow>
    x \<in> dom (v_comets (view (cgStore g))) \<Longrightarrow> y \<in> dom (v_comets (view (cgStore g))) \<Longrightarrow>
    StronglySee S x y g = Some (b, g') \<Longrightarrow> reachable cr S view g0 g'"
| dividing: "reachable cr S view g0 g \<Longrightarrow> card (dom (v_comets (view (cgStore g)))) < n \<Longrightarrow>
    DivideRounds S n g = Some (r, g') \<Longrightarrow> reachable cr S view g0 g'"
| voting: "reachable cr S view g0 g \<Longrightarrow> DecideFame S g = Some (r, g') \<Longrightarrow> reachable cr S view g0 g'"
| ordering: "reachable cr S view g0 g \<Longrightarrow> card (dom (v_comets (view (cgStore g)))) < n \<Longrightarrow>
    FindOrder cr S n g = Some (r, g') \<Longrightarrow> reachable cr S view g0 g'"

section \<open>Lemmas\<close>

lemma between_mono_eq:
  assumes an: "\<And>a b. a \<in> dom C \<Longrightarrow> anc C' a b = anc C a b"
    and cr: "\<And>k c. C k = Some c \<Longrightarrow> \<exists>c'. C' k = Some c' \<and> Comet_Creator c' = Comet_Creator c"
    and x: "x \<in> dom C"
  shows "between C' x y = between C x y"
proof (rule set_eqI)
  fix p
  have "anc C' x z \<and> anc C' z y \<and> map_option Comet_Creator (C' z) = Some p \<longleftrightarrow>
      anc C x z \<and> anc C z y \<and> map_option Comet_Creator (C z) = Some p" for z
  proof (cases "anc C x z")
    case True
    then have z: "z \<in> dom C" using anc_dom by simp
    then obtain c where c: "C z = Some c" by blast
    then have "map_option Comet_Creator (C' z) = map_option Comet_Creator (C z)" using cr [OF c] by auto
    then show ?thesis by (simp add: an [OF x] an [OF z])
  qed (simp add: an [OF x])
  then show "p \<in> between C' x y \<longleftrightarrow> p \<in> between C x y" by (simp add: between_iff)
qed

context comet_store
begin

text \<open>Ancestry between known comets is unchanged by an insertion, so the caches stay coherent.\<close>

lemma inserted_anc:
  assumes "inserted ch x c g g'" "x \<notin> dom (comets_of g)" "a \<in> dom (comets_of g)"
  shows "anc (comets_of g') a b = anc (comets_of g) a b"
proof -
  let ?C = "comets_of g" and ?C' = "comets_of g'"
  have p: "par ?C' = par ?C \<union> {x} \<times> ({Comet_SelfParent c, Comet_OtherParent c} \<inter> dom ?C)"
    and d: "dom ?C' = insert x (dom ?C)" using assms(1) by (simp_all add: inserted_def)
  have "(a, b) \<in> (par ?C')\<^sup>* \<Longrightarrow> (a, b) \<in> (par ?C)\<^sup>* \<and> b \<in> dom ?C"
  proof (induction rule: rtrancl_induct)
    case base
    then show ?case using assms(3) by simp
  next
    case (step y z)
    then have "(y, z) \<in> par ?C" using assms(2) unfolding p by auto
    then show ?case using step.IH by (auto simp: par_def intro: rtrancl_into_rtrancl)
  qed
  moreover have "(par ?C)\<^sup>* \<subseteq> (par ?C')\<^sup>*" unfolding p by (rule rtrancl_mono) blast
  ultimately show ?thesis using assms(3) d by (auto simp: anc_def)
qed

lemma ginv_creator:
  assumes "ginv ch g" "ginv ch' g'" "inserted ch x c g g'" "comets_of g k = Some d"
    and ch': "ch' = ch(Comet_Creator c := ch (Comet_Creator c) @ [x])"
  shows "\<exists>d'. comets_of g' k = Some d' \<and> Comet_Creator d' = Comet_Creator d"
proof -
  have chs: "chains_ok (Participants g) (comets_of g) ch" "chains_ok (Participants g') (comets_of g') ch'"
    using assms(1,2) view_okD(3) by (auto simp: ginv_def comets_of_def)
  obtain j i where j: "j < length (ch (Comet_Creator d))" "ch (Comet_Creator d) ! j = k"
    using dom_in_chain [OF chs(1) assms(4)] by metis
  have "j < length (ch' (Comet_Creator d))" "ch' (Comet_Creator d) ! j = k"
    using j by (auto simp: ch' nth_append)
  then show ?thesis using chains_okD(2) [OF chs(2), of j "Comet_Creator d"] by (auto simp: link_ok_def)
qed

lemma honest_insert_ok:
  assumes inv: "ginv ch g" and h: "honest cr (Participants g) (view (cgStore g)) fuel c"
    and c: "map_of (Participants g) (Comet_Creator c) \<noteq> None"
      "Comet_SelfParent c = tip ch (Comet_Creator c)"
      "Comet_OtherParent c = [] \<or> Comet_OtherParent c \<in> dom (comets_of g)"
  shows "insert_ok (Participants g) (comets_of g) ch (Comet_Hex cr c) c" "length (ch q) + 1 < fuel"
proof -
  have v: "view_ok cr (Participants g) (view (cgStore g)) ch" using inv by (simp add: ginv_def)
  have "Comet_Index c = int (length (ch (Comet_Creator c)))"
    using h view_okD(6) [OF v, of "Comet_Creator c"] c(1) by (auto simp: honest_def next_index_def)
  then show "insert_ok (Participants g) (comets_of g) ch (Comet_Hex cr c) c"
    using h c by (auto simp: honest_def insert_ok_def comets_of_def tip_def)
  show "length (ch q) + 1 < fuel"
  proof (cases "ch q = []")
    case True
    then show ?thesis using h by (simp add: honest_def)
  next
    case False
    have "link_ok (comets_of g) q (ch q) 0"
      using chains_okD(2) [OF view_okD(3) [OF v], of 0 q] False by (simp add: comets_of_def)
    then obtain d where d: "comets_of g (ch q ! 0) = Some d" "Comet_Creator d = q" by (auto simp: link_ok_def)
    then have "map_of (Participants g) q \<noteq> None"
      using chains_okD(1) [OF view_okD(3) [OF v]] by (auto simp: comets_of_def in_chain_def)
    then have "v_last (view (cgStore g)) q = Some (Some (last (ch q), int (length (ch q)) - 1))"
      using view_okD(6) [OF v, of q] False by auto
    moreover have "q \<in> set (map fst (Participants g))"
      using \<open>map_of (Participants g) q \<noteq> None\<close> by (simp add: map_of_eq_None_iff)
    ultimately show ?thesis using h unfolding honest_def next_index_def by fastforce
  qed
qed

lemma insertion_keeps:
  assumes inv: "ginv ch g" "caches_ok g" and h: "honest cr (Participants g) (view (cgStore g)) fuel c"
    and i: "InsertComet cr S fuel c w g = Some (Inr (), g')"
  shows "inserted ch (Comet_Hex cr c) c g g'" "caches_ok g'"
    "topologicalIndex g' = topologicalIndex g + 1"
proof -
  note acc = InsertComet_accepted [OF inv(1) i]
  note hi = honest_insert_ok [OF inv(1) h acc(3-5)]
  have "returns (InsertComet cr S fuel c w g) (\<lambda>r g'. r = Inr () \<and> inserted ch (Comet_Hex cr c) c g g' \<and>
      topologicalIndex g' = topologicalIndex g + 1)"
    by (rule InsertComet_returns [OF inv(1) refl acc(1,2) hi(1) _ hi(2)]) (use h in \<open>auto simp: honest_def\<close>)
  then show ins: "inserted ch (Comet_Hex cr c) c g g'" and "topologicalIndex g' = topologicalIndex g + 1"
    using i by simp_all
  have fresh: "Comet_Hex cr c \<notin> dom (comets_of g)" using hi(1) by (auto simp: insert_ok_def)
  let ?ch = "ch(Comet_Creator c := ch (Comet_Creator c) @ [Comet_Hex cr c])"
  have g': "ginv ?ch g'" "ancestorCache g' = ancestorCache g" "stronglySeeCache g' = stronglySeeCache g"
    "mostPlurality g' = mostPlurality g" "dom (comets_of g') = insert (Comet_Hex cr c) (dom (comets_of g))"
    using ins by (simp_all add: inserted_def)
  have an: "anc (comets_of g') x y = anc (comets_of g) x y" if "x \<in> dom (comets_of g)" for x y
    using inserted_anc [OF ins fresh that] .
  have be: "between (comets_of g') x y = between (comets_of g) x y" if "x \<in> dom (comets_of g)" for x y
    by (rule between_mono_eq [OF an ginv_creator [OF inv(1) g'(1) ins _ refl] that])
  note co = inv(2) [unfolded caches_ok_def]
  show "caches_ok g'"
    unfolding caches_ok_def g'(2-5)
    by (intro conjI lru.coherent_mono [OF conjunct1 [OF co]] lru.coherent_mono [OF conjunct2 [OF co]])
      (simp_all add: an be split: prod.splits)
qed

lemma InsertComet_rejected:
  assumes inv: "ginv ch g" and sig: "Comet_Verify cr c = Some v" and len: "2 \<le> length (Parents (Body c))"
    and bad: "v \<noteq> Inr True \<or> map_of (Participants g) (Comet_Creator c) = None \<or>
      Comet_SelfParent c \<noteq> tip ch (Comet_Creator c) \<or>
      Comet_OtherParent c \<noteq> [] \<and> Comet_OtherParent c \<notin> dom (comets_of g)"
  shows "returns (InsertComet cr S fuel c w g) (\<lambda>r g'. (\<exists>e. r = Inl e) \<and> same g g')"
proof -
  have ok: "same g g" using inv by (simp add: same_refl ginv_def)
  have p: "Parents (Body c) \<noteq> []" using len by auto
  consider (verdict) "v \<noteq> Inr True"
    | (self) "v = Inr True" "map_of (Participants g) (Comet_Creator c) = None \<or>
        Comet_SelfParent c \<noteq> tip ch (Comet_Creator c)"
    | (other) "v = Inr True" "map_of (Participants g) (Comet_Creator c) \<noteq> None"
        "Comet_SelfParent c = tip ch (Comet_Creator c)"
        "Comet_OtherParent c \<noteq> []" "Comet_OtherParent c \<notin> dom (comets_of g)"
    using bad by blast
  then show ?thesis
  proof cases
    case verdict
    then show ?thesis
      using ok sig by (cases v) (auto simp: InsertComet_def split: bool.splits)
  next
    case self
    then show ?thesis
      using ok sig p by (auto simp: InsertComet_def CheckSelfParent_eq [OF inv])
  next
    case other
    have "returns (CheckOtherParent cr S c g) (\<lambda>r g'. same g g' \<and> r = Inl (Errorf ''Other-parent not known''))"
      using CheckOtherParent_returns [OF inv len other(2)] other by simp
    then show ?thesis
      using sig p other by (simp add: InsertComet_def CheckSelfParent_eq [OF inv])
        (auto elim!: returns_mono)
  qed
qed

text \<open>A comet whose index skips one passes the checks and fails in the store, after it took a topological index.\<close>

lemma store_comet_gap:
  assumes inv: "ginv ch g" and cid: "map_of (Participants g) (Comet_Creator c) = Some cid"
    and new: "Comet_Hex cr c \<notin> dom (comets_of g)"
    and gap: "ch (Comet_Creator c) \<noteq> []" "int (length (ch (Comet_Creator c))) < Comet_Index c"
  shows "returns (store_comet cr S fuel c g) (\<lambda>r g'. r = Inl (Errorf (''SetEvent: '' @
      StoreErr_Error (NewStoreErr SkippedIndex (itoa (Comet_Index c))))) \<and> same g g')"
proof -
  let ?p = "Comet_Creator c"
  have ok: "ok (cgStore g)" and v: "view_ok cr (Participants g) (view (cgStore g)) ch"
    using inv by (simp_all add: ginv_def)
  have last: "v_last (view (cgStore g)) ?p = Some (Some (last (ch ?p), int (length (ch ?p)) - 1))"
    using view_okD(6) [OF v, of ?p] cid gap(1) by simp
  have set: "\<exists>st. sSetComet S d g1 = Some (Some (NewStoreErr SkippedIndex (itoa (Comet_Index c))), g1\<lparr>cgStore := st\<rparr>) \<and>
      ok st \<and> view st = view (cgStore g1)"
    if g1: "same g g1" and d: "d = placed ps C i coord c" for g1 d ps C i coord
  proof -
    obtain e st where e: "st_SetComet S d (cgStore g1) = (e, st)" by fastforce
    note s = sameD [OF g1]
    have "e = Some (NewStoreErr SkippedIndex (itoa (Comet_Index d))) \<and> ok st \<and> view st = view (cgStore g1)"
      using gap last new s(4) by (intro SetComet_gap [OF s(3) e]) (auto simp: d comets_of_def domIff Suc_leI)
    then show ?thesis using e by (auto simp: sSetComet_def d)
  qed
  have "returns (InitEventCoordinates cr S c g) (\<lambda>r g'. same g g' \<and>
      (\<exists>ps C i coord. r = Inr (placed ps C i coord c)))"
    using InitEventCoordinates_returns [OF inv cid] by (elim returns_mono) blast
  then show ?thesis
    unfolding store_comet_def returns_bind [where c = "InitEventCoordinates cr S c g"] split_conv
  proof (rule returns_mono, elim conjE exE, goal_cases)
    case (1 r g1 ps C i coord)
    obtain st where "sSetComet S (placed ps C i coord c) g1 =
        Some (Some (NewStoreErr SkippedIndex (itoa (Comet_Index c))), g1\<lparr>cgStore := st\<rparr>)"
      "ok st" "view st = view (cgStore g1)" using set [OF 1(2) refl] by metis
    moreover from this have "same g (g1\<lparr>cgStore := st\<rparr>)" using 1(2) by (auto simp: same_def)
    ultimately show ?case by (simp add: 1(3))
  qed
qed

lemma InsertComet_gap:
  assumes inv: "ginv ch g" and sig: "Comet_Verify cr c = Some (Inr True)"
    and len: "2 \<le> length (Parents (Body c))" and new: "Comet_Hex cr c \<notin> dom (comets_of g)"
    and known: "map_of (Participants g) (Comet_Creator c) \<noteq> None"
      "Comet_SelfParent c = tip ch (Comet_Creator c)"
      "Comet_OtherParent c = [] \<or> Comet_OtherParent c \<in> dom (comets_of g)"
    and gap: "ch (Comet_Creator c) \<noteq> []" "int (length (ch (Comet_Creator c))) < Comet_Index c"
  shows "returns (InsertComet cr S fuel c False g) (\<lambda>r g'. r = Inl (Errorf (''SetEvent: '' @
      StoreErr_Error (NewStoreErr SkippedIndex (itoa (Comet_Index c))))) \<and>
    same (g\<lparr>topologicalIndex := topologicalIndex g + 1\<rparr>) g')"
proof -
  obtain cid where cid: "map_of (Participants g) (Comet_Creator c) = Some cid" using known(1) by blast
  let ?R = "\<lambda>r g'. r = Inl (Errorf (''SetEvent: '' @
      StoreErr_Error (NewStoreErr SkippedIndex (itoa (Comet_Index c))))) \<and>
    same (g\<lparr>topologicalIndex := topologicalIndex g + 1\<rparr>) g'"
  have store: "returns (store_comet cr S fuel (c\<lparr>TopologicalIndex := t\<rparr>)
      (g1\<lparr>topologicalIndex := topologicalIndex g1 + 1\<rparr>)) ?R" if g1: "same g g1" for g1 t
  proof -
    let ?g = "g1\<lparr>topologicalIndex := topologicalIndex g1 + 1\<rparr>"
    obtain st where "g1 = g\<lparr>cgStore := st\<rparr>" "ok st" "view st = view (cgStore g)"
      using g1 by (auto simp: same_def)
    then have s: "same (g\<lparr>topologicalIndex := topologicalIndex g + 1\<rparr>) ?g"
      unfolding same_def by (intro exI [of _ st]) simp
    have "ginv ch ?g" "comets_of ?g = comets_of g" "Participants ?g = Participants g"
      using sameD [OF g1] inv by (simp_all add: ginv_def comets_of_def)
    then have "returns (store_comet cr S fuel (c\<lparr>TopologicalIndex := t\<rparr>) ?g) (\<lambda>r g'.
        r = Inl (Errorf (''SetEvent: '' @ StoreErr_Error (NewStoreErr SkippedIndex (itoa (Comet_Index c))))) \<and>
        same ?g g')"
      using store_comet_gap [of ch ?g "c\<lparr>TopologicalIndex := t\<rparr>" cid fuel] cid new gap by simp
    then show ?thesis by (rule returns_mono) (use same_trans [OF s] in blast)
  qed
  have "returns (CheckOtherParent cr S c g) (\<lambda>r g'. same g g' \<and> r = Inr ())"
    using CheckOtherParent_returns [OF inv len known(1)] known(3) by simp
  moreover have "Parents (Body c) \<noteq> []" using len by auto
  ultimately show ?thesis
    using store known by (auto simp: InsertComet_def sig CheckSelfParent_eq [OF inv] Let_def elim!: returns_mono)
qed

end

lemma verified_sig_r: "Comet_Verify cr c = Some (Inr True) \<Longrightarrow> sig_r c \<noteq> None"
  by (auto simp: Comet_Verify_def sig_r_def crypto_Verify_def Let_def split: sum.splits option.splits)

lemma acyclic_insert:
  assumes "acyclic r" "x \<notin> Field r" "x \<notin> B"
  shows "acyclic (r \<union> {x} \<times> B)"
proof -
  have "(a, b) \<in> (r \<union> {x} \<times> B)\<^sup>+ \<Longrightarrow> b \<noteq> x \<and> (a \<noteq> x \<longrightarrow> (a, b) \<in> r\<^sup>+)" for a b
  proof (induction rule: trancl_induct)
    case (base y)
    then show ?case using assms(2,3) by (auto simp: Field_def)
  next
    case (step y z)
    then show ?case using assms(2,3) by (auto simp: Field_def intro: trancl_into_trancl)
  qed
  then show ?thesis using assms(1) by (auto simp: acyclic_def)
qed

context consensus_store
begin

lemma insertion_cinv:
  assumes inv: "cinv ch g" and h: "honest cr (Participants g) (view (cgStore g)) fuel c"
    and i: "InsertComet cr S fuel c w g = Some (Inr (), g')"
  shows "cinv (ch(Comet_Creator c := ch (Comet_Creator c) @ [Comet_Hex cr c])) g'"
    "Participants g' = Participants g" "mostPlurality g' = mostPlurality g"
proof -
  let ?x = "Comet_Hex cr c"
  note k = insertion_keeps [OF cinvD(1,2) [OF inv] h i]
  note n = k(1) [unfolded inserted_def]
  have fresh: "?x \<notin> dom (comets_of g)" using h by (auto simp: honest_def comets_of_def)
  have sig: "sig_r c \<noteq> None" using InsertComet_accepted(1) [OF cinvD(1) [OF inv] i] by (rule verified_sig_r)
  have "sig_r d \<noteq> None" if d: "comets_of g' k = Some d" for k d
  proof (cases "k = ?x")
    case True
    then show ?thesis using n d sig by (auto simp: sig_r_def)
  next
    case False
    then obtain e where "comets_of g k = Some e" "cSignature d = cSignature e" using n d by metis
    then show ?thesis using cinvD(4) [OF inv] by (auto simp: signed_def comets_of_def sig_r_def)
  qed
  then have "signed (view (cgStore g'))" by (auto simp: signed_def comets_of_def)
  moreover have "known_rounds (view (cgStore g'))"
  proof -
    have "v_comets (view (cgStore g)) x \<noteq> None \<Longrightarrow> v_comets (view (cgStore g')) x \<noteq> None" for x
      using n by (auto simp: comets_of_def dom_def set_eq_iff)
    then show ?thesis using cinvD(3) [OF inv] n unfolding known_rounds_def by metis
  qed
  moreover have "dag (comets_of g')"
  proof -
    have "?x \<notin> Field (par (comets_of g))" using fresh by (auto simp: Field_def par_def)
    then show ?thesis
      using acyclic_insert [of "par (comets_of g)" ?x] cinvD(5) [OF inv] fresh n by (auto simp: dag_def)
  qed
  moreover have "set (UndeterminedEvents g') \<subseteq> dom (comets_of g')" using n cinvD(9) [OF inv] by auto
  ultimately show "cinv (ch(Comet_Creator c := ch (Comet_Creator c) @ [?x])) g'"
    using n k(2) by (simp add: cinv_def)
  show "Participants g' = Participants g" "mostPlurality g' = mostPlurality g" using n by simp_all
qed

definition alive :: "'st CometGraph \<Rightarrow> 'st CometGraph \<Rightarrow> bool" where
  "alive g0 g \<longleftrightarrow> (\<exists>ch. cinv ch g) \<and> mostPlurality g = mostPlurality g0 \<and> Participants g = Participants g0"

lemma alive_calm: "alive g0 g \<Longrightarrow> calm g g' \<Longrightarrow> alive g0 g'"
  unfolding alive_def using calmD(2,3,11) by metis

lemma alive_stable: "alive g0 g \<Longrightarrow> stable g g' \<Longrightarrow> cinv ch g' \<Longrightarrow> alive g0 g'"
  by (auto simp: alive_def stable_def)

lemma reachable_alive:
  assumes "reachable cr S view g0 g" "cinv ch0 g0"
  shows "alive g0 g"
  using assms(1)
proof induction
  case start
  then show ?case using assms(2) by (auto simp: alive_def)
next
  case (insertion g fuel c w g')
  then obtain ch where "cinv ch g" by (auto simp: alive_def)
  from insertion_cinv [OF this insertion.hyps(2,3)] insertion.IH show ?case by (auto simp: alive_def)
next
  case (ancestry g x y b g')
  then obtain ch where ch: "cinv ch g" by (auto simp: alive_def)
  then show ?case
    using See_calm [OF ch calm_refl [OF ch], of x y] ancestry.hyps(2-4) alive_calm [OF ancestry.IH]
    by (auto simp: See_def comets_of_def)
next
  case (strong_sight g x y b g')
  then obtain ch where ch: "cinv ch g" by (auto simp: alive_def)
  then show ?case
    using StronglySee_calm [OF ch calm_refl [OF ch], of x y] strong_sight.hyps(2-4) alive_calm [OF strong_sight.IH]
    by (auto simp: comets_of_def)
next
  case (dividing g n r g')
  then obtain ch where ch: "cinv ch g" by (auto simp: alive_def)
  then show ?case
    using DivideRounds_returns [OF ch, of n] dividing.hyps(2,3) alive_stable [OF dividing.IH] by (auto simp: comets_of_def)
next
  case (voting g r g')
  then obtain ch where ch: "cinv ch g" by (auto simp: alive_def)
  then show ?case
    using DecideFame_returns [OF ch] voting.hyps(2) alive_stable [OF voting.IH] by auto
next
  case (ordering g n r g')
  then obtain ch where ch: "cinv ch g" by (auto simp: alive_def)
  have "cinv ch g' \<and> Participants g' = Participants g \<and> mostPlurality g' = mostPlurality g"
    using FindOrder_returns [OF ch, of n] ordering.hyps(2,3) by (simp add: comets_of_def)
  then show ?case using ordering.IH by (auto simp: alive_def)
qed

end

section \<open>Graphs over the in-memory store\<close>

text \<open>A graph over an empty in-memory store of the given size.\<close>

definition inmem_graph :: "crypto \<Rightarrow> (string, int) gomap \<Rightarrow> int \<Rightarrow> InmemStore CometGraph" where
  "inmem_graph cr ps sz = fresh_graph (inmem cr) ps (NewInmemStore ps sz) True"

abbreviation comets_in :: "InmemStore CometGraph \<Rightarrow> comets" where
  "comets_in g \<equiv> v_comets (inmem_view (cgStore g))"

abbreviation inmem_reachable ::
    "crypto \<Rightarrow> (string, int) gomap \<Rightarrow> int \<Rightarrow> InmemStore CometGraph \<Rightarrow> bool" where
  "inmem_reachable cr ps sz g \<equiv> reachable cr (inmem cr) inmem_view (inmem_graph cr ps sz) g"

lemma new_LRU_Peek [simp]: "LRU_Peek (NewLRU sz) k = None"
  by (simp add: NewLRU_def LRU_Peek_def)

lemma inmem_graph_inv:
  assumes "members_ok ps" "1 \<le> sz"
  shows "inmem_store.ginv cr (\<lambda>_. []) (inmem_graph cr ps sz)" "inmem_store.caches_ok (inmem_graph cr ps sz)"
proof -
  have ok: "inmem_ok (NewInmemStore ps sz)" using assms by (simp add: NewInmemStore_ok members_ok_def)
  have roots: "map_of (fold (\<lambda>pk rs. AList.update pk NewBaseRoot rs) (map fst ps) []) p = Some NewBaseRoot"
    if "map_of ps p \<noteq> None" for p
    using that map_of_fold_update [of NewBaseRoot "map fst ps" "[]" p]
    by (auto simp: map_of_eq_None_iff)
  have last: "inmem_last (NewInmemStore ps sz) p = (if map_of ps p = None then None else Some None)" for p
  proof (cases "map_of ps p")
    case (Some pid)
    then have "pid \<in> set (getValues ps)" by (force simp: getValues_def dest: map_of_SomeD)
    then show ?thesis
      using Some by (simp add: inmem_last_def NewInmemStore_def NewParticipantEventsCache_def
          NewRollingIndexMap_def map_of_rim_fresh last_of_def NewRollingIndex_def)
  qed (simp add: inmem_last_def NewInmemStore_def)
  have "view_ok cr ps (inmem_view (NewInmemStore ps sz)) (\<lambda>_. [])"
    using assms roots last
    by (simp add: view_ok_def inmem_view_def graph_ok_def chains_ok_def coords_ok_def MaxInt32_def)
      (simp add: NewInmemStore_def)
  then show "inmem_store.ginv cr (\<lambda>_. []) (inmem_graph cr ps sz)"
    using ok by (simp add: inmem_store.ginv_def inmem_graph_def fresh_graph_def Let_def)
  show "inmem_store.caches_ok (inmem_graph cr ps sz)"
    by (simp add: inmem_store.caches_ok_def lru.coherent_def inmem_graph_def fresh_graph_def Let_def)
qed

lemma inmem_graph_cinv:
  assumes "members_ok ps" "1 \<le> sz"
  shows "inmem_consensus.cinv cr (\<lambda>_. []) (inmem_graph cr ps sz)"
proof -
  let ?g = "inmem_graph cr ps sz"
  have v: "comets_in ?g = (\<lambda>_. None)" "v_rounds (inmem_view (cgStore ?g)) = (\<lambda>_. None)" "UndeterminedEvents ?g = []"
    by (simp_all add: inmem_graph_def fresh_graph_def Let_def inmem_view_def NewInmemStore_def fun_eq_iff)
  then show ?thesis
    using inmem_graph_inv [OF assms, of cr]
    by (simp add: inmem_consensus.cinv_def known_rounds_def signed_def dag_def inmem_store.comets_of_def par_def acyclic_def)
qed

text \<open>The hash of the latest event of a participant, empty when there is none.\<close>

definition latest :: "store_view \<Rightarrow> string \<Rightarrow> string" where
  "latest v p = (case v_last v p of Some (Some (h, i)) \<Rightarrow> h | _ \<Rightarrow> [])"

text \<open>What the signature check and the two parent checks of \<^verbatim>\<open>InsertComet\<close> ask of a comet.\<close>

definition passes_checks :: "crypto \<Rightarrow> (string, int) gomap \<Rightarrow> store_view \<Rightarrow> Comet \<Rightarrow> bool" where
  "passes_checks cr ps v c \<longleftrightarrow>
     Comet_Verify cr c = Some (Inr True) \<and> 2 \<le> length (Parents (Body c)) \<and>
     map_of ps (Comet_Creator c) \<noteq> None \<and> Comet_SelfParent c = latest v (Comet_Creator c) \<and>
     (Comet_OtherParent c = [] \<or> v_comets v (Comet_OtherParent c) \<noteq> None)"

text \<open>
  A small network for examples: two participants, a hash that shows creator, index and time, and
  signatures that are always valid.  The second comet has the first one as its other-parent.
\<close>

definition sample_cr :: crypto where
  "sample_cr = \<lparr>sha_body = (\<lambda>b. cb_Creator b @ [word_of_int (cb_Index b), word_of_int (Timestamp b)]), sha_block = (\<lambda>b. []),
     ecdsa_Verify = (\<lambda>_ _ _ _. True)\<rparr>"

definition sample_ps :: "(string, int) gomap" where
  "sample_ps = [(''0x01'', 0), (''0x02'', 1)]"

definition sample_comet :: "byte \<Rightarrow> int \<Rightarrow> int \<Rightarrow> string \<Rightarrow> string \<Rightarrow> Comet" where
  "sample_comet p i t sp op = (NewComet t None None [sp, op] [p] i)\<lparr>cSignature := ''1|1''\<rparr>"

definition sample_insert :: "Comet \<Rightarrow> InmemStore CometGraph \<Rightarrow> InmemStore CometGraph" where
  "sample_insert c g = snd (the (InsertComet sample_cr (inmem sample_cr) 9 c True g))"

definition sample_a :: Comet where
  "sample_a = sample_comet 1 0 0 [] []"

definition sample_b :: Comet where
  "sample_b = sample_comet 2 0 0 [] ''0x010000''"

definition sample_0 :: "InmemStore CometGraph" where
  "sample_0 = inmem_graph sample_cr sample_ps 9"

definition sample_1 :: "InmemStore CometGraph" where
  "sample_1 = sample_insert sample_a sample_0"

definition sample_2 :: "InmemStore CometGraph" where
  "sample_2 = sample_insert sample_b sample_1"

lemma sample_outcome:
  "map_option fst (InsertComet sample_cr (inmem sample_cr) 9 sample_a True sample_0) = Some (Inr ())"
  "map_option fst (InsertComet sample_cr (inmem sample_cr) 9 sample_b True sample_1) = Some (Inr ())"
  by code_simp+

lemma sample_insert_step:
  assumes "map_option fst (InsertComet sample_cr (inmem sample_cr) 9 c True g) = Some (Inr ())"
  shows "InsertComet sample_cr (inmem sample_cr) 9 c True g = Some (Inr (), sample_insert c g)"
  using assms by (auto simp: sample_insert_def)

lemma sample_members: "members_ok sample_ps"
  by code_simp

lemma roomy_inmem:
  assumes "inmem_ok s"
  shows "roomy (inmem_view s) \<longleftrightarrow> LRU_Len (eventCache s) < cacheSize s"
proof -
  have "dom (\<lambda>k. map_option core (LRU_Peek (eventCache s) k)) = dom (LRU_Peek (eventCache s))" by auto
  then show ?thesis
    using assms LRU_Len_card [of "eventCache s"] by (simp add: roomy_def inmem_view_def inmem_ok_def LRU_inv_def)
qed

lemma inmem_reachable_inv:
  assumes "members_ok ps" "1 \<le> sz" "inmem_reachable cr ps sz g"
  shows "\<exists>ch. inmem_consensus.cinv cr ch g \<and> inmem_store.ginv cr ch g \<and> inmem_store.caches_ok g \<and>
    Participants g = ps \<and> mostPlurality g = 2 * int (length ps) div 3 + 1"
  using inmem_consensus.reachable_alive [OF assms(3) inmem_graph_cinv [OF assms(1,2)]]
  by (auto simp: inmem_graph_def fresh_graph_def Let_def inmem_consensus.alive_def inmem_consensus.cinv_def)

lemma inmem_reachable_ok:
  assumes "members_ok ps" "1 \<le> sz" "inmem_reachable cr ps sz g"
  shows "inmem_ok (cgStore g)"
  using inmem_reachable_inv [OF assms] by (auto simp: inmem_store.ginv_def)

lemma sample_honest:
  "inmem_ok (cgStore sample_0) \<Longrightarrow> honest sample_cr (Participants sample_0) (inmem_view (cgStore sample_0)) 9 sample_a"
  "inmem_ok (cgStore sample_1) \<Longrightarrow> honest sample_cr (Participants sample_1) (inmem_view (cgStore sample_1)) 9 sample_b"
proof -
  let ?h = "\<lambda>c g. v_comets (inmem_view (cgStore g)) (Comet_Hex sample_cr c) = None \<and>
     Comet_Index c = next_index (inmem_view (cgStore g)) (Comet_Creator c) \<and> Comet_Index c < MaxInt32 \<and>
     Comet_BlockSignatures c = [] \<and> LRU_Len (eventCache (cgStore g)) < cacheSize (cgStore g) \<and>
     (\<forall>p \<in> set (map fst (Participants g)). next_index (inmem_view (cgStore g)) p + 1 < 9)"
  have "?h sample_a sample_0" "?h sample_b sample_1" by code_simp+
  then show "inmem_ok (cgStore sample_0) \<Longrightarrow> honest sample_cr (Participants sample_0) (inmem_view (cgStore sample_0)) 9 sample_a"
    "inmem_ok (cgStore sample_1) \<Longrightarrow> honest sample_cr (Participants sample_1) (inmem_view (cgStore sample_1)) 9 sample_b"
    by (simp_all add: honest_def roomy_inmem)
qed

lemma sample_reachable:
  "inmem_reachable sample_cr sample_ps 9 sample_0"
  "inmem_reachable sample_cr sample_ps 9 sample_1"
  "inmem_reachable sample_cr sample_ps 9 sample_2"
proof -
  have step: "inmem_reachable sample_cr sample_ps 9 (sample_insert c g)"
    if "inmem_reachable sample_cr sample_ps 9 g"
      and "inmem_ok (cgStore g) \<Longrightarrow> honest sample_cr (Participants g) (inmem_view (cgStore g)) 9 c"
      and "map_option fst (InsertComet sample_cr (inmem sample_cr) 9 c True g) = Some (Inr ())" for g c
    using reachable.insertion [OF that(1) that(2) sample_insert_step [OF that(3)]]
      inmem_reachable_ok [OF sample_members _ that(1)] by simp
  show 0: "inmem_reachable sample_cr sample_ps 9 sample_0" unfolding sample_0_def by (rule reachable.start)
  show 1: "inmem_reachable sample_cr sample_ps 9 sample_1"
    unfolding sample_1_def by (rule step [OF 0 sample_honest(1) sample_outcome(1)])
  show "inmem_reachable sample_cr sample_ps 9 sample_2"
    unfolding sample_2_def by (rule step [OF 1 sample_honest(2) sample_outcome(2)])
qed

lemma latest_tip:
  assumes "inmem_store.ginv cr ch g" "map_of (Participants g) p \<noteq> None"
  shows "latest (inmem_view (cgStore g)) p = inmem_store.tip ch p"
  using assms view_okD(6) [of cr "Participants g" "inmem_view (cgStore g)" ch p]
  by (auto simp: inmem_store.ginv_def latest_def inmem_store.tip_def)

lemma orphan_anc:
  assumes "C x = Some c" "C (Comet_SelfParent c) = None" "C (Comet_OtherParent c) = None" "x \<noteq> y"
  shows "\<not> anc C x y"
proof
  assume "anc C x y"
  then have "(x, y) \<in> (par C)\<^sup>*" by (simp add: anc_def)
  then show False using assms by (cases rule: converse_rtranclE) (auto simp: par_def)
qed

section \<open>Properties\<close>

text \<open>
  Claim C1. In every state a graph over the in-memory store can reach by insertions and memoised
  queries, \<^verbatim>\<open>AncestorOf\<close> returns for any two known comets, and its answer is reachability along the
  self-parent and other-parent edges, whether it comes from the memo cache or from the coordinates.
\<close>

theorem AncestorOf_correct:
  assumes "members_ok ps" "1 \<le> sz" "inmem_reachable cr ps sz g"
    and "x \<in> dom (comets_in g)" "y \<in> dom (comets_in g)"
  shows "\<exists>g'. AncestorOf (inmem cr) x y g = Some (anc (comets_in g) x y, g') \<and>
    inmem_reachable cr ps sz g' \<and> comets_in g' = comets_in g"
proof -
  obtain ch where ch: "inmem_store.ginv cr ch g" "inmem_store.caches_ok g"
    using inmem_reachable_inv [OF assms(1-3)] by blast
  obtain b g' where g': "AncestorOf (inmem cr) x y g = Some (b, g')" "b = anc (comets_in g) x y"
    "comets_in g' = comets_in g"
    using inmem_store.AncestorOf_returns [OF ch, of x y] assms(4,5) inmem_store.quietD(5) [of g]
    by (auto simp: returns_iff inmem_store.comets_of_def)
  then show ?thesis using reachable.ancestry [OF assms(3-5) g'(1)] by simp
qed

theorem AncestorOf_correct_witness:
  "\<exists>g'. AncestorOf (inmem sample_cr) ''0x020000'' ''0x010000'' sample_2 =
     Some (anc (comets_in sample_2) ''0x020000'' ''0x010000'', g') \<and>
     inmem_reachable sample_cr sample_ps 9 g' \<and> comets_in g' = comets_in sample_2"
proof -
  have "''0x020000'' \<in> dom (comets_in sample_2)" "''0x010000'' \<in> dom (comets_in sample_2)"
    unfolding domIff by code_simp+
  then show ?thesis using AncestorOf_correct [OF sample_members _ sample_reachable(3)] by simp
qed

text \<open>
  Claim C2. In every reachable state \<^verbatim>\<open>StronglySee\<close> returns for any two known comets, and says
  whether more than two thirds of the participants have a comet on a path from the one to the other.
\<close>

theorem StronglySee_correct:
  assumes "members_ok ps" "1 \<le> sz" "inmem_reachable cr ps sz g"
    and "x \<in> dom (comets_in g)" "y \<in> dom (comets_in g)"
  shows "\<exists>g'. StronglySee (inmem cr) x y g =
      Some (3 * card (between (comets_in g) x y) > 2 * length ps, g') \<and>
    inmem_reachable cr ps sz g' \<and> comets_in g' = comets_in g"
proof -
  obtain ch where ch: "inmem_store.ginv cr ch g" "inmem_store.caches_ok g"
      "mostPlurality g = 2 * int (length ps) div 3 + 1"
    using inmem_reachable_inv [OF assms(1-3)] by blast
  have "mostPlurality g \<le> int k \<longleftrightarrow> 3 * k > 2 * length ps" for k
    unfolding ch(3) by linarith
  then obtain b g' where g': "StronglySee (inmem cr) x y g = Some (b, g')"
    "b \<longleftrightarrow> 3 * card (between (comets_in g) x y) > 2 * length ps" "comets_in g' = comets_in g"
    using inmem_store.StronglySee_returns [OF ch(1,2), of x y] assms(4,5) inmem_store.quietD(5) [of g]
    by (auto simp: returns_iff inmem_store.comets_of_def)
  then show ?thesis using reachable.strong_sight [OF assms(3-5) g'(1)] by simp
qed

theorem StronglySee_correct_witness:
  "\<exists>g'. StronglySee (inmem sample_cr) ''0x020000'' ''0x010000'' sample_2 =
     Some (3 * card (between (comets_in sample_2) ''0x020000'' ''0x010000'') > 2 * length sample_ps, g') \<and>
     inmem_reachable sample_cr sample_ps 9 g' \<and> comets_in g' = comets_in sample_2"
proof -
  have "''0x020000'' \<in> dom (comets_in sample_2)" "''0x010000'' \<in> dom (comets_in sample_2)"
    unfolding domIff by code_simp+
  then show ?thesis using StronglySee_correct [OF sample_members _ sample_reachable(3)] by simp
qed

text \<open>
  Claim C3. In every reachable state \<^verbatim>\<open>InsertComet\<close> accepts a comet of an honest creator exactly
  when its signature is valid, its creator is a participant, its self-parent is the latest event of
  its creator and its other-parent is empty or known.  Accepting it adds one node and its parent edges
  to the graph, appends it to the undetermined events and takes one topological index.
\<close>

theorem InsertComet_correct:
  assumes "members_ok ps" "1 \<le> sz" "inmem_reachable cr ps sz g"
    and "honest cr ps (inmem_view (cgStore g)) fuel c" "x = Comet_Hex cr c"
  shows "if passes_checks cr ps (inmem_view (cgStore g)) c
    then \<exists>g'. InsertComet cr (inmem cr) fuel c w g = Some (Inr (), g') \<and> inmem_reachable cr ps sz g' \<and>
      dom (comets_in g') = insert x (dom (comets_in g)) \<and>
      par (comets_in g') = par (comets_in g) \<union>
        {x} \<times> ({Comet_SelfParent c, Comet_OtherParent c} \<inter> dom (comets_in g)) \<and>
      UndeterminedEvents g' = UndeterminedEvents g @ [x] \<and> topologicalIndex g' = topologicalIndex g + 1
    else \<nexists>g'. InsertComet cr (inmem cr) fuel c w g = Some (Inr (), g')"
proof -
  obtain ch where ch: "inmem_store.ginv cr ch g" "inmem_store.caches_ok g" "Participants g = ps"
    using inmem_reachable_inv [OF assms(1-3)] by blast
  note tip = latest_tip [OF ch(1), unfolded ch(3)]
  show ?thesis
  proof (cases "passes_checks cr ps (inmem_view (cgStore g)) c")
    case True
    then have ok: "Comet_Verify cr c = Some (Inr True)" "2 \<le> length (Parents (Body c))"
      "map_of ps (Comet_Creator c) \<noteq> None" "Comet_SelfParent c = inmem_store.tip ch (Comet_Creator c)"
      "Comet_OtherParent c = [] \<or> Comet_OtherParent c \<in> dom (inmem_store.comets_of g)"
      using tip by (auto simp: passes_checks_def inmem_store.comets_of_def)
    note h = assms(4) [folded ch(3)]
    note hi = inmem_store.honest_insert_ok [OF ch(1) h ok(3-5) [folded ch(3)]]
    obtain g' where i: "InsertComet cr (inmem cr) fuel c w g = Some (Inr (), g')"
      using inmem_store.InsertComet_returns [OF ch(1) refl ok(1,2) hi(1) _ hi(2), of w] h
      by (auto simp: returns_iff honest_def)
    note k = inmem_store.insertion_keeps [OF ch(1,2) h i]
    show ?thesis
      using True i k(3) k(1) [unfolded inmem_store.inserted_def inmem_store.comets_of_def]
        reachable.insertion [OF assms(3) h i] assms(5) by auto
  next
    case False
    have "\<not> InsertComet cr (inmem cr) fuel c w g = Some (Inr (), g')" for g'
      using False inmem_store.InsertComet_accepted [OF ch(1), of fuel c w g'] tip ch(3)
      by (auto simp: passes_checks_def inmem_store.comets_of_def)
    then show ?thesis using False by simp
  qed
qed

theorem InsertComet_correct_witness:
  "\<exists>g'. InsertComet sample_cr (inmem sample_cr) 9 sample_b True sample_1 = Some (Inr (), g') \<and>
     topologicalIndex g' = topologicalIndex sample_1 + 1"
proof -
  have "Participants sample_1 = sample_ps" "passes_checks sample_cr sample_ps (inmem_view (cgStore sample_1)) sample_b"
    by code_simp+
  then show ?thesis
    using InsertComet_correct [OF sample_members _ sample_reachable(2) _ refl, of 9 sample_b True]
      sample_honest(2) inmem_reachable_ok [OF sample_members _ sample_reachable(2)] by auto
qed



text \<open>
  Claim C36. A comet that passes the checks but whose index skips one of its creator is refused by the
  store only after \<^verbatim>\<open>InsertComet\<close> has taken a topological index for it: the call fails with
  a skipped-index error, the stored comets are unchanged and the topological index has grown by one, so
  the indices of the stored comets have a gap.
\<close>

theorem InsertComet_gap_takes_index:
  assumes "members_ok ps" "1 \<le> sz" "inmem_reachable cr ps sz g"
    and "passes_checks cr ps (inmem_view (cgStore g)) c" "Comet_Hex cr c \<notin> dom (comets_in g)"
    and "latest (inmem_view (cgStore g)) (Comet_Creator c) \<noteq> []"
    and "next_index (inmem_view (cgStore g)) (Comet_Creator c) < Comet_Index c"
  shows "\<exists>st. InsertComet cr (inmem cr) fuel c False g =
      Some (Inl (Errorf (''SetEvent: '' @ StoreErr_Error (NewStoreErr SkippedIndex (itoa (Comet_Index c))))),
        g\<lparr>topologicalIndex := topologicalIndex g + 1, cgStore := st\<rparr>) \<and>
    inmem_view st = inmem_view (cgStore g)"
proof -
  obtain ch where ch: "inmem_store.ginv cr ch g" "Participants g = ps"
    using inmem_reachable_inv [OF assms(1-3)] by blast
  let ?p = "Comet_Creator c"
  have known: "map_of (Participants g) ?p \<noteq> None" using assms(4) ch(2) by (simp add: passes_checks_def)
  have tip: "latest (inmem_view (cgStore g)) ?p = inmem_store.tip ch ?p" by (rule latest_tip [OF ch(1) known])
  have ne: "ch ?p \<noteq> []" using assms(6) tip by (auto simp: inmem_store.tip_def)
  have "view_ok cr (Participants g) (inmem_view (cgStore g)) ch" using ch(1) by (simp add: inmem_store.ginv_def)
  from view_okD(6) [OF this, of ?p] have "next_index (inmem_view (cgStore g)) ?p = int (length (ch ?p))"
    using known ne by (simp add: next_index_def)
  then show ?thesis
    using inmem_store.InsertComet_gap [OF ch(1), of c fuel] assms(4,5,7) known tip ne ch(2)
    by (auto simp: passes_checks_def inmem_store.comets_of_def returns_iff inmem_store.same_def)
qed

theorem InsertComet_gap_takes_index_witness:
  "\<exists>st. InsertComet sample_cr (inmem sample_cr) 9 (sample_comet 1 5 0 ''0x010000'' []) False sample_1 =
     Some (Inl (Errorf ''SetEvent: 5, Skipped Index''),
       sample_1\<lparr>topologicalIndex := topologicalIndex sample_1 + 1, cgStore := st\<rparr>) \<and>
     inmem_view st = inmem_view (cgStore sample_1)"
proof -
  let ?c = "sample_comet 1 5 0 ''0x010000'' []" and ?v = "inmem_view (cgStore sample_1)"
  have "passes_checks sample_cr sample_ps ?v ?c" "comets_in sample_1 (Comet_Hex sample_cr ?c) = None"
    "latest ?v (Comet_Creator ?c) \<noteq> []" "next_index ?v (Comet_Creator ?c) < Comet_Index ?c"
    "''SetEvent: '' @ StoreErr_Error (NewStoreErr SkippedIndex (itoa (Comet_Index ?c))) = ''SetEvent: 5, Skipped Index''"
    by code_simp+
  then show ?thesis
    using InsertComet_gap_takes_index [OF sample_members _ sample_reachable(2), of ?c 9] by (simp add: domIff)
qed

text \<open>
  Claim C37. The checks of \<^verbatim>\<open>InsertComet\<close> do not compare a comet's index with the index of its
  self-parent: a creator can have two comets accepted at the same height, and then \<^verbatim>\<open>AncestorOf\<close>
  calls the later of the two an ancestor of the earlier one, which it is not.
\<close>

theorem InsertComet_same_height:
  "let c = sample_comet 1 0 1 ''0x010000'' []; g = sample_insert c sample_1 in
     map_option fst (InsertComet sample_cr (inmem sample_cr) 9 c True sample_1) = Some (Inr ()) \<and>
     map_option Comet_Index (comets_in g ''0x010000'') = Some 0 \<and>
     map_option Comet_Index (comets_in g ''0x010001'') = Some 0 \<and>
     map_option fst (AncestorOf (inmem sample_cr) ''0x010000'' ''0x010001'' g) = Some True \<and>
     \<not> anc (comets_in g) ''0x010000'' ''0x010001''"
proof -
  let ?c = "sample_comet 1 0 1 ''0x010000'' []" let ?g = "sample_insert ?c sample_1"
  have "map_option fst (InsertComet sample_cr (inmem sample_cr) 9 ?c True sample_1) = Some (Inr ())"
    "map_option Comet_Index (comets_in ?g ''0x010000'') = Some 0"
    "map_option Comet_Index (comets_in ?g ''0x010001'') = Some 0"
    "map_option fst (AncestorOf (inmem sample_cr) ''0x010000'' ''0x010001'' ?g) = Some True"
    by code_simp+
  moreover have e: "comets_in ?g [] = None" and "map_option (\<lambda>d. (Comet_SelfParent d, Comet_OtherParent d))
      (comets_in ?g ''0x010000'') = Some ([], [])" by code_simp+
  then obtain z where "comets_in ?g ''0x010000'' = Some z" "Comet_SelfParent z = []" "Comet_OtherParent z = []"
    by auto
  with e have "\<not> anc (comets_in ?g) ''0x010000'' ''0x010001''"
    using orphan_anc [of "comets_in ?g" "''0x010000''" z "''0x010001''"] by simp
  ultimately show ?thesis by (simp add: Let_def)
qed


end
