(* ===== verification/ConsensusProps.thy ===== *)
theory ConsensusProps
  imports GraphProps
begin

text \<open>Properties of the consensus methods on graphs over the in-memory store.\<close>

section \<open>A longer sample run\<close>

text \<open>
  Eight comets of the two sample participants, each built on the one before, so that rounds 0 to 3 come
  into being; the checks that make an insertion an honest step are evaluated on the way.
\<close>

definition sample_step_ok :: "Comet \<Rightarrow> InmemStore CometGraph \<Rightarrow> bool" where
  "sample_step_ok c g \<longleftrightarrow> comets_in g (Comet_Hex sample_cr c) = None \<and>
     Comet_Index c = next_index (inmem_view (cgStore g)) (Comet_Creator c) \<and> Comet_Index c < MaxInt32 \<and>
     Comet_BlockSignatures c = [] \<and> LRU_Len (eventCache (cgStore g)) < cacheSize (cgStore g) \<and>
     (\<forall>p \<in> set (map fst (Participants g)). next_index (inmem_view (cgStore g)) p + 1 < 9) \<and>
     map_option fst (InsertComet sample_cr (inmem sample_cr) 9 c True g) = Some (Inr ())"

fun sample_run :: "Comet list \<Rightarrow> InmemStore CometGraph \<Rightarrow> InmemStore CometGraph option" where
  "sample_run [] g = Some g"
| "sample_run (c # cs) g = (if sample_step_ok c g then sample_run cs (sample_insert c g) else None)"

lemma sample_run_reachable:
  assumes "inmem_reachable sample_cr sample_ps 9 g" "sample_run cs g = Some g'"
  shows "inmem_reachable sample_cr sample_ps 9 g'"
  using assms
proof (induction cs arbitrary: g)
  case (Cons c cs)
  have ok: "sample_step_ok c g" using Cons.prems(2) by (simp split: if_splits)
  have "inmem_ok (cgStore g)" using inmem_reachable_ok [OF sample_members _ Cons.prems(1)] by simp
  then have "honest sample_cr (Participants g) (inmem_view (cgStore g)) 9 c"
    using ok by (simp add: sample_step_ok_def honest_def roomy_inmem)
  moreover have "InsertComet sample_cr (inmem sample_cr) 9 c True g = Some (Inr (), sample_insert c g)"
    by (rule sample_insert_step) (use ok in \<open>simp add: sample_step_ok_def\<close>)
  ultimately have "inmem_reachable sample_cr sample_ps 9 (sample_insert c g)"
    by (rule reachable.insertion [OF Cons.prems(1)])
  then show ?case using Cons.IH Cons.prems(2) ok by simp
qed simp

definition sample_comets :: "Comet list" where
  "sample_comets = [sample_a, sample_b,
     sample_comet 1 1 1 ''0x010000'' ''0x020000'', sample_comet 2 1 1 ''0x020000'' ''0x010101'',
     sample_comet 1 2 2 ''0x010101'' ''0x020101'', sample_comet 2 2 2 ''0x020101'' ''0x010202'',
     sample_comet 1 3 3 ''0x010202'' ''0x020202'', sample_comet 2 3 3 ''0x020202'' ''0x010303'']"

definition sample_8 :: "InmemStore CometGraph" where
  "sample_8 = the (sample_run sample_comets sample_0)"

definition sample_rounds :: "InmemStore CometGraph" where
  "sample_rounds = snd (the (DivideRounds (inmem sample_cr) 9 sample_8))"

definition sample_checks :: "InmemStore CometGraph \<Rightarrow> bool" where
  "sample_checks g \<longleftrightarrow>
     (\<forall>x \<in> set [''0x010000'', ''0x010303'', ''0x020303'']. comets_in g x \<noteq> None) \<and>
     map_option (\<lambda>ri. length (RoundInfo_Witnesses ri)) (v_rounds (inmem_view (cgStore g)) 2) = Some 2 \<and>
     map_option (fst \<circ> fst) (fameVote (inmem sample_cr) 0 ''0x010000'' 3 ''0x010303'' (\<lambda>_ _. True) NewRoundInfo g) = Some True \<and>
     map_option (length \<circ> fst) (filterM (StronglySee (inmem sample_cr) ''0x020303'')
       (RoundInfo_Witnesses (the (v_rounds (inmem_view (cgStore g)) 2))) g) = Some 2 \<and>
     (case DecideFame (inmem sample_cr) g of None \<Rightarrow> False
      | Some (r, g') \<Rightarrow> v_rounds (inmem_view (cgStore g')) 0 \<noteq> None \<and> 0 \<in> set (UndecidedRounds g) \<and> 0 \<notin> set (UndecidedRounds g'))"

lemma sample_eval:
  "case sample_run sample_comets sample_0 of None \<Rightarrow> False
   | Some g \<Rightarrow> LRU_Len (eventCache (cgStore g)) = 8 \<and>
       (case DivideRounds (inmem sample_cr) 9 g of None \<Rightarrow> False | Some (r, h) \<Rightarrow> r = Inr () \<and> sample_checks h)"
  by code_simp

lemma inmem_card:
  assumes "inmem_ok s"
  shows "int (card (dom (v_comets (inmem_view s)))) = LRU_Len (eventCache s)"
proof -
  have "dom (\<lambda>k. map_option core (LRU_Peek (eventCache s) k)) = dom (LRU_Peek (eventCache s))" by auto
  then show ?thesis
    using assms LRU_Len_card [of "eventCache s"] by (simp add: inmem_view_def inmem_ok_def LRU_inv_def)
qed

lemma sample_rounds_ok: "inmem_reachable sample_cr sample_ps 9 sample_rounds" "sample_checks sample_rounds"
proof -
  obtain g h where g: "sample_run sample_comets sample_0 = Some g" "LRU_Len (eventCache (cgStore g)) = 8"
    and h: "DivideRounds (inmem sample_cr) 9 g = Some (Inr (), h)" "sample_checks h"
    using sample_eval by (auto split: option.splits)
  have r: "inmem_reachable sample_cr sample_ps 9 g" by (rule sample_run_reachable [OF sample_reachable(1) g(1)])
  have "card (dom (comets_in g)) < 9"
    using inmem_card [OF inmem_reachable_ok [OF sample_members _ r]] g(2) by simp
  from reachable.dividing [OF r this h(1)] h(2) show "inmem_reachable sample_cr sample_ps 9 sample_rounds" "sample_checks sample_rounds"
    using g(1) h(1) by (simp_all add: sample_rounds_def sample_8_def)
qed

section \<open>Properties\<close>

text \<open>
  Claim C15. Sorting received comets with the consensus order never panics when every comet has a received
  round and a signature that can be read, and gives a permutation sorted by received round, then
  consensus timestamp, then signature number.  The pseudo-random number of a round, which the order
  mixes into the signatures, has no influence.
\<close>

theorem consensus_sort_correct:
  assumes "\<forall>c \<in> set comets. RoundReceived c \<noteq> None \<and> sig_r c \<noteq> None"
  shows "\<exists>sorted_comets. sortM (ConsensusSorter_Less (NewConsensusSorter comets)) comets = Some sorted_comets \<and>
    mset sorted_comets = mset comets \<and> sorted (map consensus_key sorted_comets)"
  by (rule sortM_total) (use assms Less_key in \<open>simp add: orderable_def\<close>)

theorem consensus_sort_correct_witness:
  "\<exists>cs. sortM (ConsensusSorter_Less (NewConsensusSorter [sample_b\<lparr>RoundReceived := Some 2\<rparr>, sample_a\<lparr>RoundReceived := Some 1\<rparr>]))
      [sample_b\<lparr>RoundReceived := Some 2\<rparr>, sample_a\<lparr>RoundReceived := Some 1\<rparr>] = Some cs \<and>
    mset cs = mset [sample_b\<lparr>RoundReceived := Some 2\<rparr>, sample_a\<lparr>RoundReceived := Some 1\<rparr>] \<and>
    sorted (map consensus_key cs)"
proof -
  have "\<forall>c \<in> set [sample_b\<lparr>RoundReceived := Some 2\<rparr>, sample_a\<lparr>RoundReceived := Some 1\<rparr>].
      RoundReceived c \<noteq> None \<and> sig_r c \<noteq> None" by code_simp
  from consensus_sort_correct [OF this] show ?thesis .
qed

text \<open>
  Claim C14. Handling new consensus events that are sorted by received round never fails and cuts them
  into blocks: their indices follow the last block index without a gap, their received rounds
  increase strictly, their transactions, one block after the other, are exactly the transactions
  of the events in order, and these blocks are what is sent on the commit channel.
\<close>

theorem handleNewConsensusEvents_in_order:
  assumes "inmem_ok (cgStore g)" "\<forall>e \<in> set es. RoundReceived e \<noteq> None"
    and "sorted (map (the \<circ> RoundReceived) es)"
  shows "\<exists>bs g'. handleNewConsensusEvents cr (inmem cr) es g = Some (Inr (), g') \<and>
    commitCh g' = map_option (\<lambda>sent. sent @ bs) (commitCh g) \<and>
    LastBlockIndex g' = LastBlockIndex g + int (length bs) \<and>
    map Block_Index bs = map (\<lambda>k. LastBlockIndex g + 1 + int k) [0..<length bs] \<and>
    sorted_wrt (<) (map (bb_RoundReceived \<circ> block_Body) bs) \<and>
    concat (map (bb_Transactions \<circ> block_Body) bs) = concat (map Comet_Transactions es) \<and>
    ConsensusTransactions g' = ConsensusTransactions g + int (length (concat (map Comet_Transactions es))) \<and>
    comets_in g' = comets_in g"
proof -
  let ?bs = "blocks_of (LastBlockIndex g) es"
  have rr: "\<And>e. e \<in> set es \<Longrightarrow> RoundReceived e \<noteq> None" using assms(2) by blast
  obtain g' g1 where g': "handleNewConsensusEvents cr (inmem cr) es g = Some (Inr (), g')"
    "inmem_consensus.counted es g g1" "inmem_consensus.cut ?bs g1 g'"
    using inmem_consensus.handleNewConsensusEvents_returns [OF assms(1), where es = es and cr = cr] rr by (auto simp: returns_iff)
  have "commitCh g' = map_option (\<lambda>sent. sent @ ?bs) (commitCh g)"
    "LastBlockIndex g' = LastBlockIndex g + int (length ?bs)" "comets_in g' = comets_in g"
    "ConsensusTransactions g' = ConsensusTransactions g + int (length (concat (map Comet_Transactions es)))"
    using g'(2,3) by (auto simp: inmem_consensus.counted_def inmem_consensus.cut_def)
  then show ?thesis using g'(1) blocks_of_sorted [OF assms(3) rr] by blast
qed

theorem handleNewConsensusEvents_in_order_witness:
  "\<exists>bs g'. handleNewConsensusEvents sample_cr (inmem sample_cr)
      [sample_a\<lparr>RoundReceived := Some 1\<rparr>, sample_b\<lparr>RoundReceived := Some 2\<rparr>] sample_2 = Some (Inr (), g') \<and>
    commitCh g' = map_option (\<lambda>sent. sent @ bs) (commitCh sample_2)"
proof -
  let ?es = "[sample_a\<lparr>RoundReceived := Some 1\<rparr>, sample_b\<lparr>RoundReceived := Some 2\<rparr>]"
  have "inmem_ok (cgStore sample_2)" using inmem_reachable_ok [OF sample_members _ sample_reachable(3)] by simp
  then show ?thesis
    using handleNewConsensusEvents_in_order [of sample_2 ?es sample_cr] by auto
qed

text \<open>
  Claim C16. The median timestamp of a non-empty list of comets is the middle element of their timestamps in
  ascending order, a comet the store does not have counting as the zero time; for no comets at all
  the call panics.
\<close>

theorem MedianTimestamp_correct:
  assumes "inmem_ok (cgStore g)"
  shows "case MedianTimestamp (inmem cr) xs g of
      None \<Rightarrow> xs = []
    | Some (t, g') \<Rightarrow> xs \<noteq> [] \<and> t = sort (map (time_of (comets_in g)) xs) ! (length xs div 2) \<and>
        comets_in g' = comets_in g"
proof (cases "xs = []")
  case True
  then show ?thesis by (simp add: MedianTimestamp_def slice_at_def sort_by_def)
next
  case False
  obtain t g' where "MedianTimestamp (inmem cr) xs g = Some (t, g')" "inmem_store.same g g'"
    "t = sort (map (time_of (comets_in g)) xs) ! (length xs div 2)"
    using inmem_consensus.MedianTimestamp_returns [OF assms False, where cr = cr]
    by (auto simp: returns_iff inmem_store.comets_of_def)
  then show ?thesis using False inmem_store.sameD(5) [of g g'] by (simp add: inmem_store.comets_of_def)
qed

theorem MedianTimestamp_correct_witness:
  "case MedianTimestamp (inmem sample_cr) [''0x010000'', ''0x020000''] sample_2 of
      None \<Rightarrow> [''0x010000'', ''0x020000''] = []
    | Some (t, g') \<Rightarrow> [''0x010000'', ''0x020000''] \<noteq> [] \<and>
        t = sort (map (time_of (comets_in sample_2)) [''0x010000'', ''0x020000'']) ! (length [''0x010000'', ''0x020000''] div 2) \<and>
        comets_in g' = comets_in sample_2"
proof -
  have "inmem_ok (cgStore sample_2)" using inmem_reachable_ok [OF sample_members _ sample_reachable(3)] by simp
  from MedianTimestamp_correct [OF this, where cr = sample_cr and xs = "[''0x010000'', ''0x020000'']"] show ?thesis .
qed

text \<open>
  Claim C5. In every reachable state a consensus pass runs to its end: with fuel above the number of
  comets the three methods return, \<^verbatim>\<open>DivideRounds\<close> and \<^verbatim>\<open>FindOrder\<close> without an error, and each leaves the
  graph in a reachable state; none of the recursions of \<^verbatim>\<open>Round\<close> runs away and no slice access panics.
\<close>

theorem consensus_pass_returns:
  assumes "members_ok ps" "1 \<le> sz" "inmem_reachable cr ps sz g" "card (dom (comets_in g)) < n"
  shows "\<exists>g1 r g2 g3. DivideRounds (inmem cr) n g = Some (Inr (), g1) \<and> DecideFame (inmem cr) g1 = Some (r, g2) \<and>
    FindOrder cr (inmem cr) n g2 = Some (Inr (), g3) \<and> inmem_reachable cr ps sz g3 \<and> dom (comets_in g3) = dom (comets_in g)"
proof -
  obtain ch where ch: "inmem_consensus.cinv cr ch g" using inmem_reachable_inv [OF assms(1-3)] by blast
  obtain g1 where g1: "DivideRounds (inmem cr) n g = Some (Inr (), g1)" "inmem_consensus.cinv cr ch g1"
      "comets_in g1 = comets_in g"
    using inmem_consensus.DivideRounds_returns [OF ch, of n] assms(4)
    by (auto simp: returns_iff inmem_consensus.stable_def inmem_store.comets_of_def)
  obtain r g2 where g2: "DecideFame (inmem cr) g1 = Some (r, g2)" "inmem_consensus.cinv cr ch g2"
      "comets_in g2 = comets_in g1"
    using inmem_consensus.DecideFame_returns [OF g1(2)]
    by (auto simp: returns_iff inmem_consensus.stable_def inmem_store.comets_of_def)
  obtain g3 where g3: "FindOrder cr (inmem cr) n g2 = Some (Inr (), g3)" "alike (comets_in g2) (comets_in g3)"
    using inmem_consensus.FindOrder_returns [OF g2(2), of n] assms(4) g1(3) g2(3)
    by (auto simp: returns_iff inmem_store.comets_of_def)
  have "inmem_reachable cr ps sz g2"
    by (rule reachable.voting [OF reachable.dividing [OF assms(3,4) g1(1)] g2(1)])
  then have "inmem_reachable cr ps sz g3" by (rule reachable.ordering) (use g1(3) g2(3) assms(4) g3(1) in auto)
  then show ?thesis using g1 g2 g3 alike_dom [OF g3(2)] by auto
qed

theorem consensus_pass_returns_witness:
  "\<exists>g1 r g2 g3. DivideRounds (inmem sample_cr) (Suc (card (dom (comets_in sample_2)))) sample_2 = Some (Inr (), g1) \<and>
    DecideFame (inmem sample_cr) g1 = Some (r, g2) \<and>
    FindOrder sample_cr (inmem sample_cr) (Suc (card (dom (comets_in sample_2)))) g2 = Some (Inr (), g3) \<and>
    inmem_reachable sample_cr sample_ps 9 g3 \<and> dom (comets_in g3) = dom (comets_in sample_2)"
  using consensus_pass_returns [OF sample_members _ sample_reachable(3) lessI] by simp

text \<open>
  Claim C7. Deciding fame in a reachable state is final: every fame that was decided stays as it was, the
  comets and witnesses of a round stay the same, and the rounds that leave the list of undecided rounds
  are rounds in which every witness is decided.
\<close>

theorem DecideFame_final:
  assumes "members_ok ps" "1 \<le> sz" "inmem_reachable cr ps sz g" "DecideFame (inmem cr) g = Some (r, g')"
    and "v_rounds (inmem_view (cgStore g')) i = Some ri'"
  shows "\<exists>ri. v_rounds (inmem_view (cgStore g)) i = Some ri \<and>
      (\<forall>x. map_option re_Witness (map_of (Events ri') x) = map_option re_Witness (map_of (Events ri) x)) \<and>
      (\<forall>x. RoundInfo_IsDecided ri x \<longrightarrow> map_of (Events ri') x = map_of (Events ri) x) \<and>
      (i \<in> set (UndecidedRounds g) - set (UndecidedRounds g') \<longrightarrow> RoundInfo_WitnessesDecided ri')"
proof -
  obtain ch where "inmem_consensus.cinv cr ch g" using inmem_reachable_inv [OF assms(1-3)] by blast
  from inmem_consensus.DecideFame_returns [OF this] assms(4)
  obtain D where k: "rounds_keep (inmem_view (cgStore g)) (inmem_view (cgStore g'))"
    and D: "UndecidedRounds g' = filter (\<lambda>i. i \<notin> set D) (UndecidedRounds g)" "decided_in D (inmem_view (cgStore g'))" by auto
  obtain ri where ri: "v_rounds (inmem_view (cgStore g)) i = Some ri" "fame_keeps ri ri'"
    using k assms(5) by (auto simp: rounds_keep_def)
  have "map_option re_Witness (map_of (Events ri') x) = map_option re_Witness (map_of (Events ri) x) \<and>
      (RoundInfo_IsDecided ri x \<longrightarrow> map_of (Events ri') x = map_of (Events ri) x)" for x
    using fame_keepsD(1,3) [OF ri(2), of x]
    by (cases "map_of (Events ri) x") (auto simp: event_keeps_def RoundInfo_IsDecided_def)
  moreover have "RoundInfo_WitnessesDecided ri'" if "i \<in> set (UndecidedRounds g) - set (UndecidedRounds g')"
    using D that assms(5) by (auto simp: decided_in_def)
  ultimately show ?thesis using ri(1) by blast
qed

theorem DecideFame_final_witness:
  "\<exists>r g' ri' ri. DecideFame (inmem sample_cr) sample_rounds = Some (r, g') \<and>
    v_rounds (inmem_view (cgStore g')) 0 = Some ri' \<and> v_rounds (inmem_view (cgStore sample_rounds)) 0 = Some ri \<and>
    0 \<in> set (UndecidedRounds sample_rounds) - set (UndecidedRounds g') \<and> RoundInfo_WitnessesDecided ri'"
proof -
  obtain r g' ri' where "DecideFame (inmem sample_cr) sample_rounds = Some (r, g')"
    "v_rounds (inmem_view (cgStore g')) 0 = Some ri'" "0 \<in> set (UndecidedRounds sample_rounds) - set (UndecidedRounds g')"
    using sample_rounds_ok(2) by (auto simp: sample_checks_def split: option.splits)
  then show ?thesis using DecideFame_final [OF sample_members _ sample_rounds_ok(1), of r g' 0 ri'] by auto
qed



end
