(* ===== verification/Bytes.thy ===== *)
theory Bytes
  imports Prelude
begin

text \<open>
  Byte strings of fixed-width integers: \<^verbatim>\<open>encoding/binary\<close> in little-endian order as the serialisers use
  it, and the checked arithmetic of \<^verbatim>\<open>src/common/safeMath.go\<close>.  Go's \<^verbatim>\<open>uint64\<close> is \<^typ>\<open>64 word\<close>; an \<^verbatim>\<open>int64\<close>
  is the same word read with \<^term>\<open>sint\<close>, and the conversion between the two keeps the bits.
\<close>

unbundle bit_operations_syntax

section \<open>Little-endian integers\<close>

definition le_put :: "nat \<Rightarrow> 'a::len word \<Rightarrow> byte list" where
  "le_put n w = map (\<lambda>i. ucast (drop_bit (8 * i) w)) [0..<n]"

fun le_get :: "byte list \<Rightarrow> 'a::len word" where
  "le_get [] = 0"
| "le_get (b # bs) = ucast b OR push_bit 8 (le_get bs)"

section \<open>Checked arithmetic\<close>

definition MAX_UINT64 :: "64 word" where
  "MAX_UINT64 = - 1"

definition SafeSub :: "64 word \<Rightarrow> 64 word \<Rightarrow> 64 word \<times> bool" where
  "SafeSub x y = (x - y, x < y)"

definition SafeAdd :: "64 word \<Rightarrow> 64 word \<Rightarrow> 64 word \<times> bool" where
  "SafeAdd x y = (x + y, y > MAX_UINT64 - x)"

definition SafeMul :: "64 word \<Rightarrow> 64 word \<Rightarrow> 64 word \<times> bool" where
  "SafeMul x y = (if x = 0 \<or> y = 0 then (0, False) else (x * y, y > MAX_UINT64 div x))"

section \<open>Lemmas\<close>

lemma length_le_put [simp]: "length (le_put n w) = n"
  by (simp add: le_put_def)

lemma le_put_0 [simp]: "le_put 0 w = []"
  by (simp add: le_put_def)

lemma le_put_Suc: "le_put (Suc n) w = ucast w # le_put n (drop_bit 8 w)"
proof -
  have "[0..<Suc n] = 0 # map Suc [0..<n]" by (simp add: upt_conv_Cons map_Suc_upt del: upt_Suc)
  then show ?thesis by (simp add: le_put_def add.commute)
qed

lemma le_get_put_bits: "le_get (le_put n w) = take_bit (8 * n) (w :: 'a::len word)"
proof (induction n arbitrary: w)
  case (Suc n)
  show ?case
    unfolding le_put_Suc le_get.simps Suc.IH
    by (rule bit_word_eqI) (auto simp: bit_or_iff bit_push_bit_iff bit_take_bit_iff bit_drop_bit_eq bit_ucast_iff)
qed simp

lemma le_get_put [simp]:
  "LENGTH('a) \<le> 8 * n \<Longrightarrow> le_get (le_put n w) = (w :: 'a::len word)"
  by (simp add: le_get_put_bits take_bit_word_eq_self)

lemma le_put_get [simp]:
  assumes "length bs = n" "8 * n \<le> LENGTH('a)"
  shows "le_put n (le_get bs :: 'a::len word) = bs"
  using assms
proof (induction bs arbitrary: n)
  case (Cons b bs)
  let ?g = "le_get bs :: 'a word"
  obtain m where m: "n = Suc m" "length bs = m" using Cons.prems(1) by auto
  have l: "8 + 8 * m \<le> LENGTH('a)" using Cons.prems(2) m by simp
  have 1: "ucast (ucast b OR push_bit 8 ?g) = b"
    using l by (intro bit_word_eqI) (auto simp: bit_or_iff bit_push_bit_iff bit_ucast_iff)
  have "le_put m (drop_bit 8 (ucast b OR push_bit 8 ?g)) = le_put m ?g"
    unfolding le_put_def
  proof (rule map_cong [OF refl], rule bit_word_eqI)
    fix i k assume "i \<in> set [0..<m]" "k < LENGTH(8)"
    then show "bit (ucast (drop_bit (8 * i) (drop_bit 8 (ucast b OR push_bit 8 ?g))) :: byte) k =
        bit (ucast (drop_bit (8 * i) ?g) :: byte) k"
      using l by (auto simp: bit_or_iff bit_push_bit_iff bit_ucast_iff bit_drop_bit_eq dest: bit_imp_le_length)
  qed
  also have "\<dots> = bs" by (rule Cons.IH) (use m l in simp_all)
  finally show ?case using 1 by (simp add: m le_put_Suc)
qed simp

lemma mod_neq: "(a :: nat) mod n \<noteq> a \<Longrightarrow> n \<le> a"
  by (meson leI mod_less)

lemma unat_MAX_UINT64: "unat MAX_UINT64 = 2 ^ 64 - 1"
  by (simp add: MAX_UINT64_def unsigned_minus_1_eq_mask mask_eq_exp_minus_1)

lemma SafeAdd_eq: "SafeAdd x y = (x + y, unat x + unat y \<ge> 2 ^ 64)"
proof -
  have x: "unat x < 2 ^ 64" using unsigned_less [of x, where 'a = nat] by simp
  then have "x \<le> MAX_UINT64" unfolding word_le_nat_alt unat_MAX_UINT64 by simp
  then have "unat (MAX_UINT64 - x) = 2 ^ 64 - 1 - unat x" by (simp add: unat_sub unat_MAX_UINT64)
  moreover note x
  ultimately show ?thesis by (auto simp: SafeAdd_def word_less_nat_alt)
qed

lemma SafeMul_eq: "SafeMul x y = (x * y, unat x * unat y \<ge> 2 ^ 64)"
proof (cases "x = 0 \<or> y = 0")
  case True
  then show ?thesis by (auto simp: SafeMul_def)
next
  case False
  then have "0 < unat x" by (simp add: unat_gt_0)
  have "y > MAX_UINT64 div x \<longleftrightarrow> (2 ^ 64 - 1) div unat x < unat y"
    by (simp add: word_less_nat_alt unat_div unat_MAX_UINT64)
  also have "\<dots> \<longleftrightarrow> 2 ^ 64 - 1 < unat y * unat x" by (rule div_less_iff_less_mult [OF \<open>0 < unat x\<close>])
  finally show ?thesis using False by (auto simp: SafeMul_def mult.commute)
qed

section \<open>Properties\<close>

text \<open>
  Claim C26. The overflow flags of the checked operations are exact: each is set precisely when the
  mathematical result does not fit into 64 bits, and without it the result is the mathematical one.
\<close>

theorem safe_arithmetic:
  "(case SafeAdd x y of (r, overflow) \<Rightarrow> (overflow \<longleftrightarrow> unat x + unat y \<ge> 2 ^ 64) \<and> (overflow \<or> unat r = unat x + unat y)) \<and>
   (case SafeSub x y of (r, underflow) \<Rightarrow> (underflow \<longleftrightarrow> unat x < unat y) \<and> (underflow \<or> unat r = unat x - unat y)) \<and>
   (case SafeMul x y of (r, overflow) \<Rightarrow> (overflow \<longleftrightarrow> unat x * unat y \<ge> 2 ^ 64) \<and> (overflow \<or> unat r = unat x * unat y))"
proof -
  have "2 ^ 64 \<le> unat x + unat y \<or> unat (x + y) = unat x + unat y"
    "2 ^ 64 \<le> unat x * unat y \<or> unat (x * y) = unat x * unat y"
    by (auto simp: unat_word_ariths intro: mod_neq)
  moreover have "\<not> x < y \<Longrightarrow> unat (x - y) = unat x - unat y" by (simp add: unat_sub not_less)
  ultimately show ?thesis
    by (auto simp: SafeAdd_eq SafeMul_eq SafeSub_def word_less_nat_alt not_le)
qed

end
