(* ===== verification/ZeroCopy.thy ===== *)
theory ZeroCopy
  imports Bytes
begin

text \<open>
  The serialiser of \<^verbatim>\<open>src/common/zero_copy_sink.go\<close> and the deserialiser of
  \<^verbatim>\<open>src/common/zero_copy_source.go\<close>.

  A sink is a Go slice: its backing array and how much of it is filled.  Slices that alias the array (the
  result of \<^verbatim>\<open>NextBytes\<close>) are offsets into it, so that a write through them is a write to the array and the
  stale bytes that reslicing uncovers are there.  A source is the slice it reads and a 64-bit offset.
  An operation is \<^term>\<open>None\<close> where the code panics: an index or slice bound out of range, or
  \<^verbatim>\<open>ErrTooLarge\<close>.  Memory that \<^verbatim>\<open>make\<close> asks for is taken to be available.
\<close>

section \<open>The sink\<close>

record ZeroCopySink =
  backing :: "byte list"
  filled :: int

text \<open>A Go slice: its length is at most the capacity, which is an \<^verbatim>\<open>int\<close>.\<close>

definition maxInt :: int where
  "maxInt = 2 ^ 63 - 1"

definition sink_ok :: "ZeroCopySink \<Rightarrow> bool" where
  "sink_ok s \<longleftrightarrow> 0 \<le> filled s \<and> filled s \<le> int (length (backing s)) \<and> int (length (backing s)) \<le> maxInt"

text \<open>\<^verbatim>\<open>NewZeroCopySink\<close> takes a slice, given here by its contents; nil is a fresh one of capacity 512.\<close>

definition NewZeroCopySink :: "byte list option \<Rightarrow> ZeroCopySink" where
  "NewZeroCopySink b = (case b of
     None \<Rightarrow> \<lparr>backing = replicate 512 0, filled = 0\<rparr>
   | Some bs \<Rightarrow> \<lparr>backing = bs, filled = int (length bs)\<rparr>)"

definition Sink_Bytes :: "ZeroCopySink \<Rightarrow> byte list" where
  "Sink_Bytes s = take (nat (filled s)) (backing s)"

definition Sink_Size :: "ZeroCopySink \<Rightarrow> 64 word" where
  "Sink_Size s = word_of_int (filled s)"

definition Sink_Reset :: "ZeroCopySink \<Rightarrow> ZeroCopySink" where
  "Sink_Reset s = s\<lparr>filled := 0\<rparr>"

text \<open>Reslicing to a negative length panics.\<close>

definition tryGrowByReslice :: "int \<Rightarrow> (ZeroCopySink, int \<times> bool) op" where
  "tryGrowByReslice n s =
     (let l = filled s
      in if n \<le> int (length (backing s)) - l
         then if l + n < 0 then None else Some ((l, True), s\<lparr>filled := l + n\<rparr>)
         else Some ((0, False), s))"

definition grow :: "int \<Rightarrow> (ZeroCopySink, int) op" where
  "grow n s = do {
     ((i, found), s) \<leftarrow> tryGrowByReslice n s;
     if found then Some (i, s)
     else
       let l = filled s; c = int (length (backing s))
       in if c > maxInt - c - n then None
          else Some (l, s\<lparr>backing := take (nat l) (backing s) @ replicate (nat (2 * c + n) - nat l) 0, filled := l + n\<rparr>)
   }"

text \<open>The offset at which the returned slice starts; it reaches to the end of the filled part.\<close>

definition Sink_NextBytes :: "64 word \<Rightarrow> (ZeroCopySink, int) op" where
  "Sink_NextBytes n s = do {
     ((m, found), s) \<leftarrow> tryGrowByReslice (sint n) s;
     (m, s) \<leftarrow> (if found then Some (m, s) else grow (sint n) s);
     if m \<le> filled s then Some (m, s) else None
   }"

definition Sink_BackUp :: "64 word \<Rightarrow> (ZeroCopySink, unit) op" where
  "Sink_BackUp n s =
     (let l = filled s - sint n
      in if 0 \<le> l \<and> l \<le> int (length (backing s)) then Some ((), s\<lparr>filled := l\<rparr>) else None)"

text \<open>
  Writing through the slice that starts at offset \<open>m\<close>: \<^verbatim>\<open>copy\<close> writes as much as fits, an assignment to
  fixed positions panics when they are not there.
\<close>

definition overwrite :: "int \<Rightarrow> byte list \<Rightarrow> ZeroCopySink \<Rightarrow> ZeroCopySink" where
  "overwrite m p s = s\<lparr>backing := take (nat m) (backing s) @ p @ drop (nat m + length p) (backing s)\<rparr>"

definition copy_to :: "int \<Rightarrow> byte list \<Rightarrow> ZeroCopySink \<Rightarrow> ZeroCopySink" where
  "copy_to m p s = overwrite m (take (nat (filled s - m)) p) s"

definition put_at :: "int \<Rightarrow> byte list \<Rightarrow> (ZeroCopySink, unit) op" where
  "put_at m p s = (if m + int (length p) \<le> filled s then Some ((), overwrite m p s) else None)"

definition WriteBytes :: "byte list \<Rightarrow> (ZeroCopySink, unit) op" where
  "WriteBytes p s = do {
     (data, s) \<leftarrow> Sink_NextBytes (of_nat (length p)) s;
     Some ((), copy_to data p s)
   }"

definition WriteUint8 :: "8 word \<Rightarrow> (ZeroCopySink, unit) op" where
  "WriteUint8 data s = do { (buf, s) \<leftarrow> Sink_NextBytes 1 s; put_at buf [data] s }"

definition WriteByte :: "byte \<Rightarrow> (ZeroCopySink, unit) op" where
  "WriteByte c = WriteUint8 c"

definition WriteBool :: "bool \<Rightarrow> (ZeroCopySink, unit) op" where
  "WriteBool data = (if data then WriteByte 1 else WriteByte 0)"

definition WriteUint16 :: "16 word \<Rightarrow> (ZeroCopySink, unit) op" where
  "WriteUint16 data s = do { (buf, s) \<leftarrow> Sink_NextBytes 2 s; put_at buf (le_put 2 data) s }"

definition WriteUint32 :: "32 word \<Rightarrow> (ZeroCopySink, unit) op" where
  "WriteUint32 data s = do { (buf, s) \<leftarrow> Sink_NextBytes 4 s; put_at buf (le_put 4 data) s }"

definition WriteUint64 :: "64 word \<Rightarrow> (ZeroCopySink, unit) op" where
  "WriteUint64 data s = do { (buf, s) \<leftarrow> Sink_NextBytes 8 s; put_at buf (le_put 8 data) s }"

definition WriteInt64 :: "64 word \<Rightarrow> (ZeroCopySink, unit) op" where
  "WriteInt64 data = WriteUint64 data"

definition WriteInt32 :: "32 word \<Rightarrow> (ZeroCopySink, unit) op" where
  "WriteInt32 data = WriteUint32 data"

definition WriteInt16 :: "16 word \<Rightarrow> (ZeroCopySink, unit) op" where
  "WriteInt16 data = WriteUint16 data"

definition WriteVarUint :: "64 word \<Rightarrow> (ZeroCopySink, 64 word) op" where
  "WriteVarUint data s = do {
     (buf, s) \<leftarrow> Sink_NextBytes 9 s;
     (size, s) \<leftarrow>
       (if data < 0xFD then do {
          (_, s) \<leftarrow> put_at buf [ucast data] s;
          Some (1, s)
        } else if data \<le> 0xFFFF then do {
          (_, s) \<leftarrow> put_at buf [0xFD] s;
          (_, s) \<leftarrow> put_at (buf + 1) (le_put 2 (ucast data :: 16 word)) s;
          Some (3, s)
        } else if data \<le> 0xFFFFFFFF then do {
          (_, s) \<leftarrow> put_at buf [0xFE] s;
          (_, s) \<leftarrow> put_at (buf + 1) (le_put 4 (ucast data :: 32 word)) s;
          Some (5, s)
        } else do {
          (_, s) \<leftarrow> put_at buf [0xFF] s;
          (_, s) \<leftarrow> put_at (buf + 1) (le_put 8 data) s;
          Some (9, s)
        });
     (_, s) \<leftarrow> Sink_BackUp (9 - size) s;
     Some (size, s)
   }"

definition WriteVarBytes :: "byte list \<Rightarrow> (ZeroCopySink, 64 word) op" where
  "WriteVarBytes data s = do {
     let l = of_nat (length data);
     (size, s) \<leftarrow> WriteVarUint l s;
     (_, s) \<leftarrow> WriteBytes data s;
     Some (size + l, s)
   }"

definition WriteString :: "byte list \<Rightarrow> (ZeroCopySink, 64 word) op" where
  "WriteString data = WriteVarBytes data"

text \<open>Addresses are arrays of 20 bytes and hashes arrays of 32.\<close>

definition WriteAddress :: "byte list \<Rightarrow> (ZeroCopySink, unit) op" where
  "WriteAddress addr = WriteBytes addr"

definition WriteHash :: "byte list \<Rightarrow> (ZeroCopySink, unit) op" where
  "WriteHash h = WriteBytes h"

section \<open>The source\<close>

definition ADDR_LEN :: nat where
  "ADDR_LEN = 20"

definition UINT256_SIZE :: nat where
  "UINT256_SIZE = 32"

record ZeroCopySource =
  src_s :: "byte list"
  src_off :: "64 word"

definition NewZeroCopySource :: "byte list \<Rightarrow> ZeroCopySource" where
  "NewZeroCopySource b = \<lparr>src_s = b, src_off = 0\<rparr>"

definition Source_Size :: "ZeroCopySource \<Rightarrow> 64 word" where
  "Source_Size r = of_nat (length (src_s r))"

definition Source_Len :: "ZeroCopySource \<Rightarrow> 64 word" where
  "Source_Len r = (let l = of_nat (length (src_s r)) in if src_off r \<ge> l then 0 else l - src_off r)"

definition Source_Pos :: "ZeroCopySource \<Rightarrow> 64 word" where
  "Source_Pos r = src_off r"

definition NextBytes :: "64 word \<Rightarrow> (ZeroCopySource, byte list \<times> bool) op" where
  "NextBytes n r =
     (let m = of_nat (length (src_s r)); (end, overflow) = SafeAdd (src_off r) n;
          eof = (overflow \<or> end > m); end = (if eof then m else end)
      in if src_off r \<le> end
         then Some ((take (unat end - unat (src_off r)) (drop (unat (src_off r)) (src_s r)), eof), r\<lparr>src_off := end\<rparr>)
         else None)"

definition Skip :: "64 word \<Rightarrow> ZeroCopySource \<Rightarrow> bool \<times> ZeroCopySource" where
  "Skip n r =
     (let m = of_nat (length (src_s r)); (end, overflow) = SafeAdd (src_off r) n;
          eof = (overflow \<or> end > m)
      in (eof, r\<lparr>src_off := (if eof then m else end)\<rparr>))"

definition NextByte :: "(ZeroCopySource, byte \<times> bool) op" where
  "NextByte r =
     (if src_off r \<ge> of_nat (length (src_s r)) then Some ((0, True), r)
      else do {
        b \<leftarrow> slice_at (src_s r) (uint (src_off r));
        Some ((b, False), r\<lparr>src_off := src_off r + 1\<rparr>)
      })"

definition NextUint8 :: "(ZeroCopySource, 8 word \<times> bool) op" where
  "NextUint8 = NextByte"

definition NextBool :: "(ZeroCopySource, bool \<times> bool \<times> bool) op" where
  "NextBool r = do {
     ((val, eof), r) \<leftarrow> NextByte r;
     Some ((if val = 0 then (False, False, eof) else if val = 1 then (True, False, eof) else (True, True, eof)), r)
   }"

definition Source_BackUp :: "64 word \<Rightarrow> ZeroCopySource \<Rightarrow> ZeroCopySource" where
  "Source_BackUp n r = r\<lparr>src_off := src_off r - n\<rparr>"

definition NextUint16 :: "(ZeroCopySource, 16 word \<times> bool) op" where
  "NextUint16 r = do {
     ((buf, eof), r) \<leftarrow> NextBytes 2 r;
     Some (if eof then (0, eof) else (le_get buf, eof), r)
   }"

definition NextUint32 :: "(ZeroCopySource, 32 word \<times> bool) op" where
  "NextUint32 r = do {
     ((buf, eof), r) \<leftarrow> NextBytes 4 r;
     Some (if eof then (0, eof) else (le_get buf, eof), r)
   }"

definition NextUint64 :: "(ZeroCopySource, 64 word \<times> bool) op" where
  "NextUint64 r = do {
     ((buf, eof), r) \<leftarrow> NextBytes 8 r;
     Some (if eof then (0, eof) else (le_get buf, eof), r)
   }"

definition NextInt32 :: "(ZeroCopySource, 32 word \<times> bool) op" where
  "NextInt32 = NextUint32"

definition NextInt64 :: "(ZeroCopySource, 64 word \<times> bool) op" where
  "NextInt64 = NextUint64"

definition NextInt16 :: "(ZeroCopySource, 16 word \<times> bool) op" where
  "NextInt16 = NextUint16"

definition getVarUintSize :: "64 word \<Rightarrow> 64 word" where
  "getVarUintSize v = (if v < 0xfd then 1 else if v \<le> 0xffff then 3 else if v \<le> 0xFFFFFFFF then 5 else 9)"

text \<open>The results are data, size, irregular, eof; a number cut short leaves them all at their zero values.\<close>

definition NextVarUint :: "(ZeroCopySource, 64 word \<times> 64 word \<times> bool \<times> bool) op" where
  "NextVarUint r = do {
     ((fb, eof), r) \<leftarrow> NextByte r;
     if eof then Some ((0, 0, False, eof), r)
     else if fb = 0xFD then do {
       ((val, e), r) \<leftarrow> NextUint16 r;
       Some (if e then (0, 0, False, eof) else (ucast val, 3, 3 \<noteq> getVarUintSize (ucast val), eof), r)
     } else if fb = 0xFE then do {
       ((val, e), r) \<leftarrow> NextUint32 r;
       Some (if e then (0, 0, False, eof) else (ucast val, 5, 5 \<noteq> getVarUintSize (ucast val), eof), r)
     } else if fb = 0xFF then do {
       ((val, e), r) \<leftarrow> NextUint64 r;
       Some (if e then (0, 0, False, eof) else (val, 9, 9 \<noteq> getVarUintSize val, eof), r)
     } else Some ((ucast fb, 1, 1 \<noteq> getVarUintSize (ucast fb), eof), r)
   }"

text \<open>The end-of-input flag of the length is overwritten by that of the data.\<close>

definition NextVarBytes :: "(ZeroCopySource, byte list \<times> 64 word \<times> bool \<times> bool) op" where
  "NextVarBytes r = do {
     ((count, size, irregular, eof), r) \<leftarrow> NextVarUint r;
     ((data, eof), r) \<leftarrow> NextBytes count r;
     Some ((data, size + count, irregular, eof), r)
   }"

definition NextString :: "(ZeroCopySource, byte list \<times> 64 word \<times> bool \<times> bool) op" where
  "NextString = NextVarBytes"

definition NextAddress :: "(ZeroCopySource, byte list \<times> bool) op" where
  "NextAddress r = do {
     ((buf, eof), r) \<leftarrow> NextBytes (of_nat ADDR_LEN) r;
     Some (if eof then (replicate ADDR_LEN 0, eof) else (buf, eof), r)
   }"

definition NextHash :: "(ZeroCopySource, byte list \<times> bool) op" where
  "NextHash r = do {
     ((buf, eof), r) \<leftarrow> NextBytes (of_nat UINT256_SIZE) r;
     Some (if eof then (replicate UINT256_SIZE 0, eof) else (buf, eof), r)
   }"

end
