(* ===== verification/ZeroCopyProps.thy ===== *)
theory ZeroCopyProps
  imports ZeroCopy
begin

text \<open>
  What is written to a sink can be read back.  The contract of a writer and its reader is the locale
  \<open>codec\<close>: the writer appends the encoding of a value, whatever stale bytes the backing array holds and
  whether or not it has to be reallocated, and the reader takes exactly that encoding off the input.  The
  operations of the sink and the source are its instances, and a sequence of fields of mixed kinds is
  handled once, inside the locale.
\<close>

section \<open>Sinks\<close>

text \<open>
  A sink whose capacity is far from overflowing.  Growth at most doubles the capacity and adds the request, so
  the bound is kept as long as the filled part stays below $2^{59}$ bytes.
\<close>

definition sink_small :: "ZeroCopySink \<Rightarrow> bool" where
  "sink_small s \<longleftrightarrow> 0 \<le> filled s \<and> filled s \<le> int (length (backing s)) \<and> int (length (backing s)) \<le> 2 ^ 61"

definition max_filled :: int where
  "max_filled = 2 ^ 59"

lemma max_filled_val: "max_filled = 576460752303423488"
  by (simp add: max_filled_def)

lemma length_Sink_Bytes: "sink_small s \<Longrightarrow> int (length (Sink_Bytes s)) = filled s"
  by (auto simp: Sink_Bytes_def sink_small_def min_def)

lemma sint_small: "0 \<le> i \<Longrightarrow> i < 2 ^ 63 \<Longrightarrow> sint (word_of_int i :: 64 word) = i"
  by (simp add: signed_of_int signed_take_bit_int_eq_self)

lemma sint_of_nat_small: "n < 2 ^ 63 \<Longrightarrow> sint (of_nat n :: 64 word) = int n"
  using sint_small [of "int n"] by simp

lemma Sink_NextBytes_returns:
  assumes "sink_small s" "0 \<le> sint n" "filled s + sint n \<le> max_filled"
  shows "returns (Sink_NextBytes n s) (\<lambda>m s'. m = filled s \<and> sink_small s' \<and> filled s' = filled s + sint n \<and>
    take (nat (filled s)) (backing s') = Sink_Bytes s)"
proof (cases "sint n \<le> int (length (backing s)) - filled s")
  case True
  then show ?thesis
    using assms by (simp add: Sink_NextBytes_def tryGrowByReslice_def sink_small_def Sink_Bytes_def Let_def)
next
  case False
  let ?c = "int (length (backing s))"
  have "2 * ?c + sint n \<le> 2 ^ 61" "\<not> ?c > maxInt - ?c - sint n" "filled s \<le> 2 * ?c + sint n"
    using assms False by (simp_all add: sink_small_def max_filled_def maxInt_def)
  moreover have "nat (filled s) \<le> length (backing s)" using assms(1) unfolding sink_small_def by linarith
  ultimately show ?thesis
    using assms False
    by (simp add: Sink_NextBytes_def grow_def tryGrowByReslice_def sink_small_def Sink_Bytes_def Let_def nat_le_iff)
qed

lemma overwrite_sel [simp]:
  "filled (overwrite m p s) = filled s" "0 \<le> m \<Longrightarrow> m + int (length p) \<le> int (length (backing s)) \<Longrightarrow>
     length (backing (overwrite m p s)) = length (backing s)"
  by (auto simp: overwrite_def)

lemma overwrite_take:
  assumes "0 \<le> m" "m + int (length p) \<le> int (length (backing s))"
  shows "take (nat m + length p) (backing (overwrite m p s)) = take (nat m) (backing s) @ p"
proof -
  have "nat m + length p \<le> length (backing s)" using assms by linarith
  then show ?thesis by (simp add: overwrite_def)
qed

lemma append_bytes:
  assumes s: "sink_small s" and n: "filled s' = filled s + int (length p)" "sink_small s'"
    and t: "take (nat (filled s)) (backing s') = Sink_Bytes s"
  shows "sink_small (overwrite (filled s) p s')" "Sink_Bytes (overwrite (filled s) p s') = Sink_Bytes s @ p"
proof -
  have "nat (filled s + int (length p)) = nat (filled s) + length p" using s by (simp add: sink_small_def nat_add_distrib)
  then show "Sink_Bytes (overwrite (filled s) p s') = Sink_Bytes s @ p"
    using overwrite_take [of "filled s" p s'] s n t by (simp add: sink_small_def Sink_Bytes_def)
  show "sink_small (overwrite (filled s) p s')" using s n by (simp add: sink_small_def)
qed

lemma put_returns:
  assumes "sink_small s" "sint n = int (length p)" "filled s + int (length p) \<le> max_filled"
  shows "returns (Sink_NextBytes n s) (\<lambda>m s'. returns (put_at m p s')
      (\<lambda>_ s''. sink_small s'' \<and> Sink_Bytes s'' = Sink_Bytes s @ p) \<and> copy_to m p s' = overwrite m p s')"
  by (rule returns_mono [OF Sink_NextBytes_returns])
    (use assms append_bytes [OF assms(1)] in \<open>auto simp: put_at_def copy_to_def\<close>)

lemma WriteBytes_returns:
  assumes "sink_small s" "filled s + int (length p) \<le> max_filled"
  shows "returns (WriteBytes p s) (\<lambda>_ s'. sink_small s' \<and> Sink_Bytes s' = Sink_Bytes s @ p)"
proof -
  have "sint (of_nat (length p) :: 64 word) = int (length p)"
    by (rule sint_of_nat_small) (use assms in \<open>simp add: sink_small_def max_filled_def\<close>)
  from put_returns [OF assms(1) this assms(2)] show ?thesis
    by (auto simp: WriteBytes_def put_at_def elim!: returns_mono split: if_splits)
qed

section \<open>The numbers of variable length\<close>

definition varuint :: "64 word \<Rightarrow> byte list" where
  "varuint v = (if v < 0xFD then [ucast v]
     else if v \<le> 0xFFFF then 0xFD # le_put 2 (ucast v :: 16 word)
     else if v \<le> 0xFFFFFFFF then 0xFE # le_put 4 (ucast v :: 32 word)
     else 0xFF # le_put 8 v)"

lemma varuint_length: "length (varuint v) = unat (getVarUintSize v)"
  by (simp add: varuint_def getVarUintSize_def)

lemma back_up:
  assumes s: "sink_small s" and n: "filled s' = filled s + 9" "sink_small s'" "length p \<le> 9"
    and t: "take (nat (filled s)) (backing s') = Sink_Bytes s" and k: "sint k = 9 - int (length p)"
  shows "returns (Sink_BackUp k (overwrite (filled s) p s')) (\<lambda>_ s''. sink_small s'' \<and> Sink_Bytes s'' = Sink_Bytes s @ p)"
proof -
  have "nat (filled s + int (length p)) = nat (filled s) + length p" using s by (simp add: sink_small_def nat_add_distrib)
  then show ?thesis
    using overwrite_take [of "filled s" p s'] assms by (simp add: Sink_BackUp_def sink_small_def Sink_Bytes_def)
qed

lemma overwrite_twice:
  assumes "0 \<le> m" "m + 1 + int (length q) \<le> int (length (backing s))"
  shows "overwrite (m + 1) q (overwrite m [b] s) = overwrite m (b # q) s"
proof -
  have "nat (m + 1) = Suc (nat m)" using assms by simp
  then show ?thesis using assms by (simp add: overwrite_def min_def add.commute)
qed

lemma WriteVarUint_returns:
  assumes "sink_small s" "filled s + 9 \<le> max_filled"
  shows "returns (WriteVarUint v s) (\<lambda>r s'. r = getVarUintSize v \<and> sink_small s' \<and> Sink_Bytes s' = Sink_Bytes s @ varuint v)"
  unfolding WriteVarUint_def returns_bind
proof (rule returns_mono [OF Sink_NextBytes_returns [OF assms(1)]], goal_cases)
  case (3 m s')
  then have s': "m = filled s" "sink_small s'" "filled s' = filled s + 9"
    "take (nat (filled s)) (backing s') = Sink_Bytes s" by auto
  have bounds: "0 \<le> m" "m + 9 \<le> int (length (backing s'))" using s' assms(1) by (auto simp: sink_small_def)
  note bu = back_up [OF assms(1) s'(3,2) _ s'(4)]
  show ?case
    using bounds bu [of "varuint v" "9 - getVarUintSize v"] s'(1,3)
    by (auto simp: put_at_def overwrite_twice varuint_def getVarUintSize_def split: if_splits elim!: returns_mono)
qed (use assms in simp_all)

section \<open>Sources\<close>

text \<open>A source at the start of some bytes of its input.\<close>

definition source_at :: "byte list \<Rightarrow> byte list \<Rightarrow> ZeroCopySource" where
  "source_at pre rest = \<lparr>src_s = pre @ rest, src_off = of_nat (length pre)\<rparr>"

definition input_small :: "byte list \<Rightarrow> byte list \<Rightarrow> bool" where
  "input_small pre rest \<longleftrightarrow> length (pre @ rest) < 2 ^ 63"

lemma unat_of_nat_small: "n < 2 ^ 63 \<Longrightarrow> unat (of_nat n :: 64 word) = n"
  by (simp add: unsigned_of_nat take_bit_nat_eq_self)

lemma of_nat_le_small: "m < 2 ^ 63 \<Longrightarrow> n < 2 ^ 63 \<Longrightarrow> (of_nat m :: 64 word) \<le> of_nat n \<longleftrightarrow> m \<le> n"
  by (simp add: word_le_nat_alt unat_of_nat_small)

lemma NextBytes_at:
  assumes "input_small pre (p @ rest)"
  shows "NextBytes (of_nat (length p)) (source_at pre (p @ rest)) = Some ((p, False), source_at (pre @ p) rest)"
proof -
  have l: "length pre < 2 ^ 63" "length p < 2 ^ 63" "length pre + length p < 2 ^ 63"
      "length pre + (length p + length rest) < 2 ^ 63"
    using assms by (simp_all add: input_small_def)
  have "SafeAdd (of_nat (length pre)) (of_nat (length p)) = (of_nat (length pre + length p), False)"
    using l by (simp add: SafeAdd_eq unat_of_nat_small)
  moreover have "\<not> (of_nat (length pre + length p) :: 64 word) > of_nat (length pre + (length p + length rest))"
    "(of_nat (length pre) :: 64 word) \<le> of_nat (length pre + length p)"
    using l by (simp_all add: not_less of_nat_le_small del: of_nat_add)
  ultimately show ?thesis
    using l by (simp add: NextBytes_def source_at_def unat_of_nat_small del: of_nat_add)
qed

lemma NextByte_at:
  assumes "input_small pre (b # rest)"
  shows "NextByte (source_at pre (b # rest)) = Some ((b, False), source_at (pre @ [b]) rest)"
proof -
  have l: "length pre < 2 ^ 63" "length pre + Suc (length rest) < 2 ^ 63"
    using assms by (simp_all add: input_small_def)
  have "\<not> (of_nat (length pre + Suc (length rest)) :: 64 word) \<le> of_nat (length pre)"
    unfolding of_nat_le_small [OF l(2,1)] by simp
  then show ?thesis
    using l by (simp add: NextByte_def source_at_def slice_at_def uint_nat unat_of_nat_small nth_append add.commute del: of_nat_add)
qed

lemma NextByte_end:
  assumes "input_small pre []"
  shows "NextByte (source_at pre []) = Some ((0, True), source_at pre [])"
  by (simp add: NextByte_def source_at_def)

lemma NextBytes_short:
  assumes "input_small pre rest" "length rest < unat n"
  shows "NextBytes n (source_at pre rest) = Some ((rest, True), source_at (pre @ rest) [])"
proof -
  have l: "length pre < 2 ^ 63" "length pre + length rest < 2 ^ 63" using assms(1) by (simp_all add: input_small_def)
  let ?stop = "of_nat (length pre) + n :: 64 word"
  have "unat (of_nat (length pre) :: 64 word) + unat n \<ge> 2 ^ 64 \<or> ?stop > of_nat (length pre + length rest)"
    using l assms(2) mod_less [of "length pre + unat n" "2 ^ 64"]
    by (cases "2 ^ 64 \<le> length pre + unat n")
      (simp_all add: word_less_nat_alt unat_word_ariths unat_of_nat_small not_le del: of_nat_add)
  moreover have "(of_nat (length pre) :: 64 word) \<le> of_nat (length pre + length rest)"
    using l by (simp add: of_nat_le_small del: of_nat_add)
  ultimately show ?thesis
    using l by (simp add: NextBytes_def SafeAdd_eq source_at_def unat_of_nat_small del: of_nat_add)
qed

lemma ucast_down_up:
  "v < 0xFD \<Longrightarrow> unat (ucast (v :: 64 word) :: byte) = unat v"
  "v \<le> 0xFFFF \<Longrightarrow> unat (ucast v :: 16 word) = unat v"
  "v \<le> 0xFFFFFFFF \<Longrightarrow> unat (ucast v :: 32 word) = unat v"
  by (simp_all add: unsigned_ucast_eq word_less_nat_alt word_le_nat_alt take_bit_nat_eq_self)

lemma ucast_up: "unat (ucast (b :: byte) :: 64 word) = unat b" "unat (ucast (w :: 16 word) :: 64 word) = unat w"
  "unat (ucast (d :: 32 word) :: 64 word) = unat d"
  using unsigned_less [of b, where 'a = nat] unsigned_less [of w, where 'a = nat] unsigned_less [of d, where 'a = nat]
  by (simp_all add: unsigned_ucast_eq take_bit_nat_eq_self)

lemma NextUint_at:
  "length p = 2 \<Longrightarrow> input_small pre (p @ rest) \<Longrightarrow>
     NextUint16 (source_at pre (p @ rest)) = Some ((le_get p, False), source_at (pre @ p) rest)"
  "length p = 4 \<Longrightarrow> input_small pre (p @ rest) \<Longrightarrow>
     NextUint32 (source_at pre (p @ rest)) = Some ((le_get p, False), source_at (pre @ p) rest)"
  "length p = 8 \<Longrightarrow> input_small pre (p @ rest) \<Longrightarrow>
     NextUint64 (source_at pre (p @ rest)) = Some ((le_get p, False), source_at (pre @ p) rest)"
  using NextBytes_at [of pre p rest] by (simp_all add: NextUint16_def NextUint32_def NextUint64_def)

lemma NextVarUint_at:
  assumes "input_small pre (varuint v @ rest)"
  shows "NextVarUint (source_at pre (varuint v @ rest)) =
    Some ((v, getVarUintSize v, False, False), source_at (pre @ varuint v) rest)"
proof -
  have first: "NextByte (source_at pre (b # p @ rest)) = Some ((b, False), source_at (pre @ [b]) (p @ rest))"
      "input_small (pre @ [b]) (p @ rest)"
    if "varuint v = b # p" for b p
    using assms that NextByte_at [of pre b "p @ rest"] by (auto simp: input_small_def)
  show ?thesis
  proof (cases "v < 0xFD")
    case True
    then have u: "unat (ucast v :: byte) = unat v" "unat v < 0xFD" by (simp_all add: ucast_down_up word_less_nat_alt)
    have ne: "(ucast v :: byte) \<noteq> 0xFD" "(ucast v :: byte) \<noteq> 0xFE" "(ucast v :: byte) \<noteq> 0xFF"
      using u by (auto simp: word_unat_eq_iff)
    have "ucast (ucast v :: byte) = v" using u by (simp add: word_unat_eq_iff ucast_up)
    then show ?thesis using True first [of "ucast v" "[]"] ne by (simp add: varuint_def NextVarUint_def getVarUintSize_def)
  next
    case big: False
    show ?thesis
    proof (cases "v \<le> 0xFFFF")
      case True
      then have "ucast (ucast v :: 16 word) = v" by (simp add: word_unat_eq_iff ucast_up ucast_down_up)
      then show ?thesis
        using True big first [of "0xFD" "le_put 2 (ucast v :: 16 word)"]
        by (simp add: varuint_def NextVarUint_def getVarUintSize_def NextUint_at(1))
    next
      case bigger: False
      show ?thesis
      proof (cases "v \<le> 0xFFFFFFFF")
        case True
        then have "ucast (ucast v :: 32 word) = v" by (simp add: word_unat_eq_iff ucast_up ucast_down_up)
        then show ?thesis
          using True big bigger first [of "0xFE" "le_put 4 (ucast v :: 32 word)"]
          by (simp add: varuint_def NextVarUint_def getVarUintSize_def NextUint_at(2))
      next
        case False
        then show ?thesis
          using big bigger first [of "0xFF" "le_put 8 v"]
          by (simp add: varuint_def NextVarUint_def getVarUintSize_def NextUint_at(3))
      qed
    qed
  qed
qed

section \<open>The contract of a writer and its reader\<close>

fun writeAll :: "('a \<Rightarrow> (ZeroCopySink, unit) op) \<Rightarrow> 'a list \<Rightarrow> (ZeroCopySink, unit) op" where
  "writeAll w [] s = Some ((), s)"
| "writeAll w (x # xs) s = do { (_, s) \<leftarrow> w x s; writeAll w xs s }"

fun readAll :: "('k \<Rightarrow> (ZeroCopySource, 'r) op) \<Rightarrow> 'k list \<Rightarrow> (ZeroCopySource, 'r list) op" where
  "readAll f [] r = Some ([], r)"
| "readAll f (k # ks) r = do { (v, r) \<leftarrow> f k r; (vs, r) \<leftarrow> readAll f ks r; Some (v # vs, r) }"

text \<open>The slack of eight bytes is for the numbers of variable length, which reserve nine bytes before they shrink.\<close>

locale codec =
  fixes put :: "'a \<Rightarrow> (ZeroCopySink, unit) op" and get :: "'k \<Rightarrow> (ZeroCopySource, 'r) op"
    and kind :: "'a \<Rightarrow> 'k" and enc :: "'a \<Rightarrow> byte list" and valid :: "'a \<Rightarrow> bool" and answer :: "'a \<Rightarrow> 'r"
  assumes write_law: "valid x \<Longrightarrow> sink_small s \<Longrightarrow> filled s + int (length (enc x)) + 8 \<le> max_filled \<Longrightarrow>
      returns (put x s) (\<lambda>_ s'. sink_small s' \<and> Sink_Bytes s' = Sink_Bytes s @ enc x)"
    and read_law: "valid x \<Longrightarrow> input_small pre (enc x @ rest) \<Longrightarrow>
      get (kind x) (source_at pre (enc x @ rest)) = Some (answer x, source_at (pre @ enc x) rest)"
begin

lemma write_sequence:
  assumes "\<And>x. x \<in> set xs \<Longrightarrow> valid x" "sink_small s" "filled s + int (length (concat (map enc xs))) + 8 \<le> max_filled"
  shows "returns (writeAll put xs s) (\<lambda>_ s'. sink_small s' \<and> Sink_Bytes s' = Sink_Bytes s @ concat (map enc xs))"
  using assms
proof (induction xs arbitrary: s)
  case (Cons x xs)
  have "returns (put x s) (\<lambda>_ s'. sink_small s' \<and> Sink_Bytes s' = Sink_Bytes s @ enc x)"
    by (rule write_law) (use Cons.prems in auto)
  moreover have "returns (writeAll put xs s') (\<lambda>_ s''. sink_small s'' \<and> Sink_Bytes s'' = Sink_Bytes s @ enc x @ concat (map enc xs))"
    if s': "sink_small s'" "Sink_Bytes s' = Sink_Bytes s @ enc x" for s'
  proof -
    have "filled s' = filled s + int (length (enc x))"
      using length_Sink_Bytes [OF s'(1)] length_Sink_Bytes [OF Cons.prems(2)] s'(2) by simp
    then show ?thesis using Cons.IH [OF _ s'(1)] Cons.prems s'(2) by simp
  qed
  ultimately show ?case by (auto elim!: returns_mono)
qed simp

lemma read_sequence:
  assumes "\<And>x. x \<in> set xs \<Longrightarrow> valid x" "input_small pre (concat (map enc xs) @ rest)"
  shows "readAll get (map kind xs) (source_at pre (concat (map enc xs) @ rest)) =
    Some (map answer xs, source_at (pre @ concat (map enc xs)) rest)"
  using assms
proof (induction xs arbitrary: pre)
  case (Cons x xs)
  have "input_small (pre @ enc x) (concat (map enc xs) @ rest)" using Cons.prems(2) by (simp add: input_small_def)
  then show ?case using Cons read_law [of x pre "concat (map enc xs) @ rest"] by simp
qed simp

lemma roundtrip:
  assumes "\<And>x. x \<in> set xs \<Longrightarrow> valid x" "sink_small s" "filled s + int (length (concat (map enc xs))) + 8 \<le> max_filled"
  shows "returns (writeAll put xs s) (\<lambda>_ s'. Sink_Bytes s' = Sink_Bytes s @ concat (map enc xs) \<and>
    readAll get (map kind xs) (\<lparr>src_s = Sink_Bytes s', src_off = word_of_int (filled s)\<rparr>) =
      Some (map answer xs, \<lparr>src_s = Sink_Bytes s', src_off = Sink_Size s'\<rparr>))"
proof (rule returns_mono [OF write_sequence], (rule assms | assumption)+, elim conjE, goal_cases)
  case (1 u s')
  have l: "int (length (Sink_Bytes s)) = filled s" by (rule length_Sink_Bytes [OF assms(2)])
  have l': "int (length (Sink_Bytes s')) = filled s'" by (rule length_Sink_Bytes [OF 1(1)])
  have "filled s' + 8 \<le> max_filled" using l l' 1(2) assms(3) by simp
  then have small: "input_small (Sink_Bytes s) (concat (map enc xs) @ [])"
    using 1(2) l' by (auto simp: input_small_def max_filled_def)
  have "source_at (Sink_Bytes s) (concat (map enc xs) @ []) = \<lparr>src_s = Sink_Bytes s', src_off = word_of_int (filled s)\<rparr>"
    "source_at (Sink_Bytes s @ concat (map enc xs)) [] = \<lparr>src_s = Sink_Bytes s', src_off = Sink_Size s'\<rparr>"
    using 1(2) l l' by (simp_all add: source_at_def Sink_Size_def flip: l l')
  then show ?case using read_sequence [OF assms(1) small] 1(2) by simp
qed

end

section \<open>Fields\<close>

datatype field = FUint8 "8 word" | FBool bool | FUint16 "16 word" | FUint32 "32 word" | FUint64 "64 word"
  | FInt16 "16 word" | FInt32 "32 word" | FInt64 "64 word"
  | FVarUint "64 word" | FVarBytes "byte list" | FString "byte list" | FAddress "byte list" | FHash "byte list"

datatype field_kind = KUint8 | KBool | KUint16 | KUint32 | KUint64 | KInt16 | KInt32 | KInt64
  | KVarUint | KVarBytes | KString | KAddress | KHash

fun kind_of :: "field \<Rightarrow> field_kind" where
  "kind_of (FUint8 _) = KUint8" | "kind_of (FBool _) = KBool" | "kind_of (FUint16 _) = KUint16"
| "kind_of (FUint32 _) = KUint32" | "kind_of (FUint64 _) = KUint64" | "kind_of (FInt16 _) = KInt16"
| "kind_of (FInt32 _) = KInt32" | "kind_of (FInt64 _) = KInt64" | "kind_of (FVarUint _) = KVarUint"
| "kind_of (FVarBytes _) = KVarBytes" | "kind_of (FString _) = KString" | "kind_of (FAddress _) = KAddress"
| "kind_of (FHash _) = KHash"

fun valid_field :: "field \<Rightarrow> bool" where
  "valid_field (FAddress a) = (length a = ADDR_LEN)"
| "valid_field (FHash h) = (length h = UINT256_SIZE)"
| "valid_field _ = True"

fun enc_field :: "field \<Rightarrow> byte list" where
  "enc_field (FUint8 b) = [b]" | "enc_field (FBool b) = [if b then 1 else 0]" | "enc_field (FUint16 w) = le_put 2 w"
| "enc_field (FUint32 w) = le_put 4 w" | "enc_field (FUint64 w) = le_put 8 w" | "enc_field (FInt16 w) = le_put 2 w"
| "enc_field (FInt32 w) = le_put 4 w" | "enc_field (FInt64 w) = le_put 8 w" | "enc_field (FVarUint v) = varuint v"
| "enc_field (FVarBytes p) = varuint (of_nat (length p)) @ p" | "enc_field (FString p) = varuint (of_nat (length p)) @ p"
| "enc_field (FAddress p) = p" | "enc_field (FHash p) = p"

definition ignore :: "(ZeroCopySink, 'a) op \<Rightarrow> (ZeroCopySink, unit) op" where
  "ignore f s = do { (_, s) \<leftarrow> f s; Some ((), s) }"

fun write_field :: "field \<Rightarrow> (ZeroCopySink, unit) op" where
  "write_field (FUint8 b) = WriteUint8 b" | "write_field (FBool b) = WriteBool b" | "write_field (FUint16 w) = WriteUint16 w"
| "write_field (FUint32 w) = WriteUint32 w" | "write_field (FUint64 w) = WriteUint64 w" | "write_field (FInt16 w) = WriteInt16 w"
| "write_field (FInt32 w) = WriteInt32 w" | "write_field (FInt64 w) = WriteInt64 w" | "write_field (FVarUint v) = ignore (WriteVarUint v)"
| "write_field (FVarBytes p) = ignore (WriteVarBytes p)" | "write_field (FString p) = ignore (WriteString p)"
| "write_field (FAddress p) = WriteAddress p" | "write_field (FHash p) = WriteHash p"

text \<open>A field as read, with the flags \<^verbatim>\<open>irregular\<close> and \<^verbatim>\<open>eof\<close>; a reader without the first never raises it.\<close>

definition plain :: "('a \<Rightarrow> field) \<Rightarrow> (ZeroCopySource, 'a \<times> bool) op \<Rightarrow> (ZeroCopySource, field \<times> bool \<times> bool) op" where
  "plain c f r = do { ((v, eof), r) \<leftarrow> f r; Some ((c v, False, eof), r) }"

definition sized :: "('a \<Rightarrow> field) \<Rightarrow> (ZeroCopySource, 'a \<times> 64 word \<times> bool \<times> bool) op \<Rightarrow>
    (ZeroCopySource, field \<times> bool \<times> bool) op" where
  "sized c f r = do { ((v, size, irregular, eof), r) \<leftarrow> f r; Some ((c v, irregular, eof), r) }"

fun read_field :: "field_kind \<Rightarrow> (ZeroCopySource, field \<times> bool \<times> bool) op" where
  "read_field KUint8 = plain FUint8 NextUint8"
| "read_field KBool = (\<lambda>r. do { ((v, irregular, eof), r) \<leftarrow> NextBool r; Some ((FBool v, irregular, eof), r) })"
| "read_field KUint16 = plain FUint16 NextUint16" | "read_field KUint32 = plain FUint32 NextUint32"
| "read_field KUint64 = plain FUint64 NextUint64" | "read_field KInt16 = plain FInt16 NextInt16"
| "read_field KInt32 = plain FInt32 NextInt32" | "read_field KInt64 = plain FInt64 NextInt64"
| "read_field KVarUint = sized FVarUint NextVarUint" | "read_field KVarBytes = sized FVarBytes NextVarBytes"
| "read_field KString = sized FString NextString" | "read_field KAddress = plain FAddress NextAddress"
| "read_field KHash = plain FHash NextHash"

lemma WriteUint_returns:
  assumes "sink_small s"
  shows "filled s + 1 \<le> max_filled \<Longrightarrow> returns (WriteUint8 b s) (\<lambda>_ s'. sink_small s' \<and> Sink_Bytes s' = Sink_Bytes s @ [b])"
    and "filled s + 2 \<le> max_filled \<Longrightarrow> returns (WriteUint16 x s) (\<lambda>_ s'. sink_small s' \<and> Sink_Bytes s' = Sink_Bytes s @ le_put 2 x)"
    and "filled s + 4 \<le> max_filled \<Longrightarrow> returns (WriteUint32 y s) (\<lambda>_ s'. sink_small s' \<and> Sink_Bytes s' = Sink_Bytes s @ le_put 4 y)"
    and "filled s + 8 \<le> max_filled \<Longrightarrow> returns (WriteUint64 z s) (\<lambda>_ s'. sink_small s' \<and> Sink_Bytes s' = Sink_Bytes s @ le_put 8 z)"
  using put_returns [OF assms, of 1 "[b]"] put_returns [OF assms, of 2 "le_put 2 x"]
    put_returns [OF assms, of 4 "le_put 4 y"] put_returns [OF assms, of 8 "le_put 8 z"]
  by (auto simp: WriteUint8_def WriteUint16_def WriteUint32_def WriteUint64_def elim!: returns_mono)

lemma WriteVarBytes_returns:
  assumes "sink_small s" "filled s + int (length (varuint (of_nat (length p)) @ p)) + 8 \<le> max_filled"
  shows "returns (WriteVarBytes p s) (\<lambda>_ s'. sink_small s' \<and> Sink_Bytes s' = Sink_Bytes s @ varuint (of_nat (length p)) @ p)"
proof -
  have v: "1 \<le> length (varuint (of_nat (length p)))" by (simp add: varuint_def)
  have "returns (WriteBytes p s') (\<lambda>_ s''. sink_small s'' \<and> Sink_Bytes s'' = Sink_Bytes s @ varuint (of_nat (length p)) @ p)"
    if s': "sink_small s'" "Sink_Bytes s' = Sink_Bytes s @ varuint (of_nat (length p))" for s'
  proof -
    have "filled s' + int (length p) \<le> max_filled"
      using length_Sink_Bytes [OF s'(1)] length_Sink_Bytes [OF assms(1)] s'(2) assms(2) by simp
    then show ?thesis using WriteBytes_returns [OF s'(1), of p] s'(2) by simp
  qed
  then show ?thesis
    using WriteVarUint_returns [OF assms(1), of "of_nat (length p)"] assms(2) v
    by (auto simp: WriteVarBytes_def Let_def elim!: returns_mono)
qed

lemma NextVarBytes_at:
  assumes "input_small pre ((varuint (of_nat (length p)) @ p) @ rest)"
  shows "NextVarBytes (source_at pre ((varuint (of_nat (length p)) @ p) @ rest)) =
    Some ((p, getVarUintSize (of_nat (length p)) + of_nat (length p), False, False), source_at (pre @ varuint (of_nat (length p)) @ p) rest)"
proof -
  have "input_small (pre @ varuint (of_nat (length p))) (p @ rest)" using assms by (simp add: input_small_def)
  then show ?thesis
    using NextVarUint_at [of pre "of_nat (length p)" "p @ rest"] assms NextBytes_at [of "pre @ varuint (of_nat (length p))" p rest]
    by (simp add: NextVarBytes_def)
qed

lemma write_field_law:
  assumes "sink_small s" "filled s + int (length (enc_field f)) + 8 \<le> max_filled"
  shows "returns (write_field f s) (\<lambda>_ s'. sink_small s' \<and> Sink_Bytes s' = Sink_Bytes s @ enc_field f)"
proof -
  have v: "1 \<le> length (varuint x)" for x by (simp add: varuint_def)
  show ?thesis
  proof (cases f)
    case (FVarUint x)
    then show ?thesis
      using WriteVarUint_returns [OF assms(1), of x] assms(2) v [of x] by (auto simp: ignore_def elim!: returns_mono)
  next
    case (FVarBytes p)
    then show ?thesis using WriteVarBytes_returns [OF assms(1), of p] assms(2) by (auto simp: ignore_def elim!: returns_mono)
  next
    case (FString p)
    then show ?thesis
      using WriteVarBytes_returns [OF assms(1), of p] assms(2) by (auto simp: ignore_def WriteString_def elim!: returns_mono)
  qed (use WriteUint_returns [OF assms(1)] WriteBytes_returns [OF assms(1)] assms(2) in
      \<open>simp_all add: WriteBool_def WriteByte_def WriteInt16_def WriteInt32_def WriteInt64_def WriteAddress_def WriteHash_def\<close>)
qed

lemma read_field_law:
  assumes "valid_field f" "input_small pre (enc_field f @ rest)"
  shows "read_field (kind_of f) (source_at pre (enc_field f @ rest)) = Some ((f, False, False), source_at (pre @ enc_field f) rest)"
proof (cases f)
  case (FAddress p)
  then show ?thesis using NextBytes_at [of pre p rest] assms by (simp add: plain_def NextAddress_def)
next
  case (FHash p)
  then show ?thesis using NextBytes_at [of pre p rest] assms by (simp add: plain_def NextHash_def)
qed (use assms in \<open>simp_all add: plain_def sized_def NextUint8_def NextBool_def NextByte_at NextUint_at NextInt16_def NextInt32_def
    NextInt64_def NextVarUint_at NextVarBytes_at [simplified] NextString_def\<close>)

interpretation fields: codec write_field read_field kind_of enc_field valid_field "\<lambda>f. (f, False, False)"
  by unfold_locales (use write_field_law read_field_law in simp_all)

lemma NextBytes_eq:
  assumes "input_small pre rest"
  shows "NextBytes n (source_at pre rest) =
    Some (if length rest < unat n then ((rest, True), source_at (pre @ rest) [])
      else ((take (unat n) rest, False), source_at (pre @ take (unat n) rest) (drop (unat n) rest)))"
proof (cases "length rest < unat n")
  case False
  then have "of_nat (length (take (unat n) rest)) = n" by simp
  then show ?thesis using NextBytes_at [of pre "take (unat n) rest" "drop (unat n) rest"] assms False by simp
qed (simp add: NextBytes_short [OF assms])

lemma ucast_back: "ucast (ucast (b :: byte) :: 64 word) = b" "ucast (ucast (w :: 16 word) :: 64 word) = w"
  "ucast (ucast (d :: 32 word) :: 64 word) = d"
  by (simp_all add: unsigned_ucast_eq take_bit_word_eq_self)

section \<open>Properties\<close>

text \<open>
  Claim C21. Fields of any kinds written to a sink one after the other, in place or with reallocations,
  are read back from its bytes in the same order, without the irregular or end-of-input flag, and
  the source ends at the size of the sink.
\<close>

theorem zero_copy_roundtrip:
  assumes "\<forall>f \<in> set fs. valid_field f" "sink_small s"
    and "filled s + int (length (concat (map enc_field fs))) + 8 \<le> max_filled"
  shows "\<exists>s'. writeAll write_field fs s = Some ((), s') \<and>
    readAll read_field (map kind_of fs) \<lparr>src_s = Sink_Bytes s', src_off = word_of_int (filled s)\<rparr> =
      Some (map (\<lambda>f. (f, False, False)) fs, \<lparr>src_s = Sink_Bytes s', src_off = Sink_Size s'\<rparr>)"
  using fields.roundtrip [OF bspec [OF assms(1)] assms(2,3)] by (auto simp: returns_iff)

theorem zero_copy_roundtrip_witness:
  "\<exists>s'. writeAll write_field [FVarUint 0x1234, FBool True, FString [1, 2, 3]] (NewZeroCopySink None) = Some ((), s') \<and>
    readAll read_field [KVarUint, KBool, KString] \<lparr>src_s = Sink_Bytes s', src_off = word_of_int (filled (NewZeroCopySink None))\<rparr> =
      Some ([(FVarUint 0x1234, False, False), (FBool True, False, False), (FString [1, 2, 3], False, False)],
        \<lparr>src_s = Sink_Bytes s', src_off = Sink_Size s'\<rparr>)"
  using zero_copy_roundtrip [of "[FVarUint 0x1234, FBool True, FString [1, 2, 3]]" "NewZeroCopySink None"]
  by (simp add: sink_small_def NewZeroCopySink_def max_filled_def varuint_def)

text \<open>
  Claim C22. A number of variable length that is read with a size and without the irregular flag is in
  canonical form: the bytes taken off the input are exactly those the sink writes for it.
\<close>

theorem NextVarUint_canonical:
  assumes "input_small pre rest" "NextVarUint (source_at pre rest) = Some ((v, sz, False, eof), r)" "sz \<noteq> 0"
  shows "\<exists>rest'. rest = varuint v @ rest' \<and> r = source_at (pre @ varuint v) rest' \<and> sz = getVarUintSize v \<and> \<not> eof"
proof (cases rest)
  case Nil
  then show ?thesis using assms NextByte_end [of pre] by (simp add: NextVarUint_def)
next
  case (Cons b bs)
  have small: "input_small (pre @ [b]) bs" using assms(1) Cons by (simp add: input_small_def)
  have first: "NextByte (source_at pre rest) = Some ((b, False), source_at (pre @ [b]) bs)"
    using NextByte_at [of pre b bs] assms(1) Cons by simp
  note take = NextBytes_eq [OF small]
  consider "b = 0xFD" | "b = 0xFE" | "b = 0xFF" | "b \<notin> {0xFD, 0xFE, 0xFF}" by blast
  then show ?thesis
  proof cases
    case 1
    then show ?thesis
      using assms(2,3) first take [of 2] Cons
      by (auto simp: NextVarUint_def NextUint16_def varuint_def getVarUintSize_def ucast_back intro: exI [of _ "drop 2 bs"] split: if_splits)
  next
    case 2
    then show ?thesis
      using assms(2,3) first take [of 4] Cons
      by (auto simp: NextVarUint_def NextUint32_def varuint_def getVarUintSize_def ucast_back intro: exI [of _ "drop 4 bs"] split: if_splits)
  next
    case 3
    then show ?thesis
      using assms(2,3) first take [of 8] Cons
      by (auto simp: NextVarUint_def NextUint64_def varuint_def getVarUintSize_def intro: exI [of _ "drop 8 bs"] split: if_splits)
  next
    case 4
    then show ?thesis
      using assms(2,3) first Cons
      by (auto simp: NextVarUint_def varuint_def getVarUintSize_def ucast_back split: if_splits)
  qed
qed

theorem NextVarUint_canonical_witness:
  "\<exists>v sz eof r rest'. NextVarUint (source_at [7] [0xFD, 0, 1, 9]) = Some ((v, sz, False, eof), r) \<and>
    [0xFD, 0, 1, 9] = varuint v @ rest' \<and> r = source_at ([7] @ varuint v) rest' \<and> sz = getVarUintSize v \<and> \<not> eof"
proof -
  have r: "NextVarUint (source_at [7] [0xFD, 0, 1, 9]) = Some ((256, 3, False, False), source_at [7, 0xFD, 0, 1] [9])"
    by (simp add: NextVarUint_def NextUint16_def NextByte_at NextBytes_eq input_small_def getVarUintSize_def)
  then show ?thesis using NextVarUint_canonical [OF _ r] by (auto simp: input_small_def)
qed

text \<open>
  Claim C25. Input that ends inside a number of variable length is not reported: the reader gives zero with no
  flag raised and all input consumed.  At the very end of the input the number reports it, but the reader
  of variable-length bytes loses the flag and gives an empty byte string.
\<close>

theorem truncated_input_not_reported:
  assumes "input_small pre (b # bs)" "b = 0xFD \<and> length bs < 2 \<or> b = 0xFE \<and> length bs < 4 \<or> b = 0xFF \<and> length bs < 8"
  shows "NextVarUint (source_at pre (b # bs)) = Some ((0, 0, False, False), source_at (pre @ b # bs) []) \<and>
    NextVarUint (source_at (pre @ b # bs) []) = Some ((0, 0, False, True), source_at (pre @ b # bs) []) \<and>
    NextVarBytes (source_at (pre @ b # bs) []) = Some (([], 0, False, False), source_at (pre @ b # bs) [])"
proof -
  have small: "input_small (pre @ [b]) bs" "input_small (pre @ b # bs) []" using assms(1) by (simp_all add: input_small_def)
  have "NextVarUint (source_at pre (b # bs)) = Some ((0, 0, False, False), source_at (pre @ b # bs) [])"
    using assms(2) NextByte_at [OF assms(1)] NextBytes_eq [OF small(1)]
    by (auto simp: NextVarUint_def NextUint16_def NextUint32_def NextUint64_def)
  moreover have e: "NextVarUint (source_at (pre @ b # bs) []) = Some ((0, 0, False, True), source_at (pre @ b # bs) [])"
    using NextByte_end [OF small(2)] by (simp add: NextVarUint_def)
  moreover have "NextVarBytes (source_at (pre @ b # bs) []) = Some (([], 0, False, False), source_at (pre @ b # bs) [])"
    using NextBytes_eq [OF small(2), of 0] by (simp add: NextVarBytes_def e)
  ultimately show ?thesis by blast
qed

theorem truncated_input_not_reported_witness:
  "NextVarUint (source_at [] [0xFE, 1, 2]) = Some ((0, 0, False, False), source_at [0xFE, 1, 2] [])"
  using truncated_input_not_reported [of "[]" "0xFE" "[1, 2]"] by (simp add: input_small_def)

end
