(* ===== verification/Serialize.thy ===== *)
theory Serialize
  imports ZeroCopyProps
begin

text \<open>
  The stream serialiser of \<^verbatim>\<open>src/common/serialization/serialize.go\<close>, and its agreement with the zero-copy
  serialiser.

  An \<^verbatim>\<open>io.Writer\<close> is the parameter \<open>W\<close>: what \<^verbatim>\<open>Write\<close> does to its state and the error it returns.  An
  \<^verbatim>\<open>io.Reader\<close> is the bytes it has still to deliver; after them it reports the end of the file, as a
  \<^verbatim>\<open>bytes.Reader\<close> or a \<^verbatim>\<open>bytes.Buffer\<close> does.
\<close>

section \<open>Streams\<close>

datatype ser_error = ErrRange | ErrEof | EOF | ErrUnexpectedEOF | WriteError string

type_synonym 'w writer = "byte list \<Rightarrow> 'w \<Rightarrow> ser_error option \<times> 'w"
type_synonym reader = "byte list"
type_synonym 'a reads = "reader \<Rightarrow> (ser_error, 'a) result \<times> reader"

text \<open>\<^verbatim>\<open>io.ReadFull\<close> into a slice of \<open>n\<close> bytes; what is left of a short input is consumed.\<close>

definition ReadFull :: "nat \<Rightarrow> byte list reads" where
  "ReadFull n r =
     (if n \<le> length r then (Inr (take n r), drop n r)
      else (Inl (if r = [] then EOF else ErrUnexpectedEOF), []))"

text \<open>Continuing after a read that may fail.\<close>

definition andThen :: "'a reads \<Rightarrow> ('a \<Rightarrow> 'b reads) \<Rightarrow> 'b reads" where
  "andThen f k r = (case f r of (Inl e, r) \<Rightarrow> (Inl e, r) | (Inr x, r) \<Rightarrow> k x r)"

text \<open>A buffer as a writer.\<close>

definition buffer_Write :: "byte list writer" where
  "buffer_Write p w = (None, w @ p)"

section \<open>Writing\<close>

definition ser_WriteVarUint :: "'w writer \<Rightarrow> 64 word \<Rightarrow> 'w \<Rightarrow> ser_error option \<times> 'w" where
  "ser_WriteVarUint W value w =
     (let buf = (if value < 0xFD then [ucast value]
        else if value \<le> 0xFFFF then 0xFD # le_put 2 (ucast value :: 16 word)
        else if value \<le> 0xFFFFFFFF then 0xFE # le_put 4 (ucast value :: 32 word)
        else 0xFF # le_put 8 value)
      in W buf w)"

definition ser_WriteVarBytes :: "'w writer \<Rightarrow> byte list \<Rightarrow> 'w \<Rightarrow> ser_error option \<times> 'w" where
  "ser_WriteVarBytes W value w =
     (case ser_WriteVarUint W (of_nat (length value)) w of
        (Some e, w) \<Rightarrow> (Some e, w)
      | (None, w) \<Rightarrow> W value w)"

definition ser_WriteString :: "'w writer \<Rightarrow> byte list \<Rightarrow> 'w \<Rightarrow> ser_error option \<times> 'w" where
  "ser_WriteString W value = ser_WriteVarBytes W value"

definition ser_WriteUint8 :: "'w writer \<Rightarrow> 8 word \<Rightarrow> 'w \<Rightarrow> ser_error option \<times> 'w" where
  "ser_WriteUint8 W val = W [val]"

definition ser_WriteUint16 :: "'w writer \<Rightarrow> 16 word \<Rightarrow> 'w \<Rightarrow> ser_error option \<times> 'w" where
  "ser_WriteUint16 W val = W (le_put 2 val)"

definition ser_WriteUint32 :: "'w writer \<Rightarrow> 32 word \<Rightarrow> 'w \<Rightarrow> ser_error option \<times> 'w" where
  "ser_WriteUint32 W val = W (le_put 4 val)"

definition ser_WriteUint64 :: "'w writer \<Rightarrow> 64 word \<Rightarrow> 'w \<Rightarrow> ser_error option \<times> 'w" where
  "ser_WriteUint64 W val = W (le_put 8 val)"

definition ser_WriteBool :: "'w writer \<Rightarrow> bool \<Rightarrow> 'w \<Rightarrow> ser_error option \<times> 'w" where
  "ser_WriteBool W val = W [if val then 1 else 0]"

definition ser_WriteByte :: "'w writer \<Rightarrow> byte \<Rightarrow> 'w \<Rightarrow> ser_error option \<times> 'w" where
  "ser_WriteByte W val = W [val]"

definition ser_ToArray :: "(byte list writer \<Rightarrow> byte list \<Rightarrow> ser_error option \<times> byte list) \<Rightarrow> byte list" where
  "ser_ToArray Serialize = snd (Serialize buffer_Write [])"

section \<open>Reading\<close>

definition ser_ReadVarUint :: "64 word \<Rightarrow> (64 word) reads" where
  "ser_ReadVarUint maxint =
     (let maxint = (if maxint = 0 then MAX_UINT64 else maxint);
          check = (\<lambda>res r. if res > maxint then (Inl ErrRange, r) else (Inr res, r))
      in andThen (ReadFull 1) (\<lambda>fb.
           if hd fb = 0xfd then andThen (ReadFull 2) (\<lambda>p. check (ucast (le_get p :: 16 word)))
           else if hd fb = 0xfe then andThen (ReadFull 4) (\<lambda>p. check (ucast (le_get p :: 32 word)))
           else if hd fb = 0xff then andThen (ReadFull 8) (\<lambda>p. check (le_get p))
           else check (ucast (hd fb))))"

text \<open>
  The slow path reads through a \<^verbatim>\<open>LimitReader\<close>, which delivers nothing for a limit that is negative as an
  \<^verbatim>\<open>int64\<close>.
\<close>

definition byteXReader :: "64 word \<Rightarrow> byte list reads" where
  "byteXReader x r =
     (if x = 0 then (Inr [], r)
      else if x < 2 * 1024 * 1024 then ReadFull (unat x) r
      else let buf = take (nat (sint x)) r; r = drop (nat (sint x)) r
           in if int (length buf) = sint x then (Inr buf, r) else (Inl ErrEof, r))"

definition ser_ReadVarBytes :: "byte list reads" where
  "ser_ReadVarBytes = andThen (ser_ReadVarUint 0) byteXReader"

definition ser_ReadString :: "byte list reads" where
  "ser_ReadString = ser_ReadVarBytes"

definition ser_GetVarUintSize :: "64 word \<Rightarrow> int" where
  "ser_GetVarUintSize value = (if value < 0xfd then 1 else if value \<le> 0xffff then 3 else if value \<le> 0xFFFFFFFF then 5 else 9)"

definition ser_ReadBytes :: "64 word \<Rightarrow> byte list reads" where
  "ser_ReadBytes len = byteXReader len"

text \<open>Every failure of the fixed-width readers is \<^verbatim>\<open>ErrEof\<close>.\<close>

definition orEof :: "'a reads \<Rightarrow> 'a reads" where
  "orEof f r = (case f r of (Inl _, r) \<Rightarrow> (Inl ErrEof, r) | (Inr x, r) \<Rightarrow> (Inr x, r))"

definition ser_ReadUint8 :: "(8 word) reads" where
  "ser_ReadUint8 = andThen (orEof (ReadFull 1)) (\<lambda>p r. (Inr (hd p), r))"

definition ser_ReadUint16 :: "(16 word) reads" where
  "ser_ReadUint16 = andThen (orEof (ReadFull 2)) (\<lambda>p r. (Inr (le_get p), r))"

definition ser_ReadUint32 :: "(32 word) reads" where
  "ser_ReadUint32 = andThen (orEof (ReadFull 4)) (\<lambda>p r. (Inr (le_get p), r))"

definition ser_ReadUint64 :: "(64 word) reads" where
  "ser_ReadUint64 = andThen (orEof (ReadFull 8)) (\<lambda>p r. (Inr (le_get p), r))"

definition ser_ReadBool :: "bool reads" where
  "ser_ReadBool = andThen (ReadFull 1) (\<lambda>p r. (Inr (hd p \<noteq> 0), r))"

definition ser_ReadByte :: "byte reads" where
  "ser_ReadByte = andThen (byteXReader 1) (\<lambda>b r. (Inr (hd b), r))"

section \<open>Lemmas\<close>

lemma ser_WriteVarUint_eq: "ser_WriteVarUint W v = W (varuint v)"
  by (simp add: fun_eq_iff ser_WriteVarUint_def varuint_def)

lemma MAX_UINT64_le [simp]: "\<not> MAX_UINT64 < v"
  by (simp add: MAX_UINT64_def)

text \<open>The stream reader of numbers is the zero-copy reader that takes irregular forms and reports short input.\<close>

lemma source_at_Cons: "input_small pre (b # bs) \<Longrightarrow> input_small (pre @ [b]) bs"
  by (simp add: input_small_def)

lemma ReadVarUint_zero_copy:
  assumes "input_small pre r"
  shows "case NextVarUint (source_at pre r) of None \<Rightarrow> False
    | Some ((v, sz, irregular, eof), s) \<Rightarrow>
        if sz = 0 then \<exists>e. ser_ReadVarUint 0 r = (Inl e, [])
        else ser_ReadVarUint 0 r = (Inr v, drop (unat sz) r) \<and>
             s = source_at (pre @ take (unat sz) r) (drop (unat sz) r) \<and> unat sz \<le> length r"
proof (cases r)
  case Nil
  then show ?thesis
    using assms NextByte_end [of pre] by (simp add: NextVarUint_def ser_ReadVarUint_def andThen_def ReadFull_def Let_def)
next
  case (Cons b bs)
  have first: "NextByte (source_at pre (b # bs)) = Some ((b, False), source_at (pre @ [b]) bs)"
    using NextByte_at assms Cons by blast
  note more = NextBytes_eq [OF source_at_Cons [OF assms [unfolded Cons]]]
  note defs = NextVarUint_def ser_ReadVarUint_def andThen_def ReadFull_def Let_def
  consider "b = 0xFD" | "b = 0xFE" | "b = 0xFF" | "b \<notin> {0xFD, 0xFE, 0xFF}" by blast
  then show ?thesis
  proof cases
    case 1
    then show ?thesis using Cons first more [of 2] by (auto simp: defs NextUint16_def)
  next
    case 2
    then show ?thesis using Cons first more [of 4] by (auto simp: defs NextUint32_def)
  next
    case 3
    then show ?thesis using Cons first more [of 8] by (auto simp: defs NextUint64_def)
  next
    case 4
    then show ?thesis using Cons first by (auto simp: defs)
  qed
qed

lemma ReadVarUint_varuint:
  assumes "input_small [] (varuint v @ rest)"
  shows "ser_ReadVarUint 0 (varuint v @ rest) = (Inr v, rest)"
proof -
  have "getVarUintSize v \<noteq> 0" by (simp add: getVarUintSize_def)
  then show ?thesis
    using ReadVarUint_zero_copy [OF assms] NextVarUint_at [OF assms] by (simp add: flip: varuint_length)
qed

lemma ReadVarUint_limit:
  assumes "m \<noteq> 0"
  shows "ser_ReadVarUint m r = (case ser_ReadVarUint 0 r of (Inr v, r) \<Rightarrow> (if v > m then Inl ErrRange else Inr v, r) | e \<Rightarrow> e)"
  using assms by (auto simp: ser_ReadVarUint_def andThen_def Let_def split: prod.splits sum.splits)

lemma sint_negative:
  assumes "\<not> unat (x :: 64 word) < 2 ^ 63"
  shows "sint x < 0"
proof (rule ccontr)
  assume "\<not> sint x < 0"
  moreover have b: "sint x < 2 ^ 63" using signed_take_bit_int_less_exp [of 63 "uint x"] by (simp add: sint_uint)
  ultimately have "take_bit 64 (sint x) = sint x" by (intro take_bit_int_eq_self) simp_all
  then have "uint x < 2 ^ 63" using b uint_sint [of x] by simp
  then have "int (unat x) < int (2 ^ 63)" by simp
  then have "unat x < 2 ^ 63" by (simp only: of_nat_less_iff)
  then show False using assms by blast
qed

lemma byteXReader_eq:
  assumes "length r < 2 ^ 63"
  shows "case byteXReader x r of
      (Inr p, r') \<Rightarrow> unat x \<le> length r \<and> p = take (unat x) r \<and> r' = drop (unat x) r
    | (Inl _, _) \<Rightarrow> length r < unat x"
proof (cases "x < 2 * 1024 * 1024")
  case True
  then show ?thesis by (auto simp: byteXReader_def ReadFull_def)
next
  case False
  then have x: "x \<noteq> 0" by auto
  show ?thesis
  proof (cases "unat x < 2 ^ 63")
    case True
    then have "sint x = int (unat x)" using sint_of_nat_small [of "unat x"] by simp
    then have n: "nat (sint x) = unat x" "int k = sint x \<longleftrightarrow> k = unat x" for k by (metis nat_int, metis of_nat_eq_iff)
    show ?thesis unfolding byteXReader_def Let_def n if_not_P [OF x] if_not_P [OF False] by (cases "unat x \<le> length r") simp_all
  next
    case big: False
    have "sint x < 0" using big by (rule sint_negative)
    then have n: "nat (sint x) = 0" "int k = sint x \<longleftrightarrow> False" for k by simp_all
    show ?thesis unfolding byteXReader_def Let_def n if_not_P [OF x] if_not_P [OF False] using big assms by simp
  qed
qed

section \<open>Properties\<close>

text \<open>
  Claim C23. The two serialisers agree on byte strings: the stream writer appends to a buffer exactly what
  the zero-copy sink appends, and the stream reader gets the byte string back and stops right behind it.
\<close>

theorem serializers_agree:
  assumes "sink_small s" "filled s + int (length p) + 17 \<le> max_filled" "length rest < 2 ^ 62"
  shows "\<exists>n s'. WriteVarBytes p s = Some (n, s') \<and>
    ser_WriteVarBytes buffer_Write p (Sink_Bytes s) = (None, Sink_Bytes s') \<and>
    ser_ReadVarBytes (drop (length (Sink_Bytes s)) (Sink_Bytes s' @ rest)) = (Inr p, rest)"
proof -
  have v: "length (varuint (of_nat (length p))) \<le> 9" by (simp add: varuint_def)
  obtain n s' where s': "WriteVarBytes p s = Some (n, s')" "Sink_Bytes s' = Sink_Bytes s @ varuint (of_nat (length p)) @ p"
    using WriteVarBytes_returns [OF assms(1), of p] assms(2) v by (auto simp: returns_iff)
  have u: "unat (of_nat (length p) :: 64 word) = length p"
    by (rule unat_of_nat_small) (use assms in \<open>simp add: sink_small_def max_filled_def\<close>)
  have p: "length p < 2 ^ 60" using assms(1,2) by (simp add: sink_small_def max_filled_def)
  have "ser_ReadVarUint 0 (varuint (of_nat (length p)) @ p @ rest) = (Inr (of_nat (length p)), p @ rest)"
    by (rule ReadVarUint_varuint) (use p v assms(3) in \<open>simp add: input_small_def\<close>)
  moreover have "byteXReader (of_nat (length p)) (p @ rest) = (Inr p, rest)"
    using byteXReader_eq [of "p @ rest" "of_nat (length p)"] u p assms(3) by (simp split: prod.splits sum.splits)
  ultimately have "ser_ReadVarBytes (varuint (of_nat (length p)) @ p @ rest) = (Inr p, rest)"
    by (simp add: ser_ReadVarBytes_def andThen_def)
  then show ?thesis using s' by (simp add: ser_WriteVarBytes_def ser_WriteVarUint_eq buffer_Write_def)
qed

theorem serializers_agree_witness:
  "\<exists>n s'. WriteVarBytes [1, 2] (NewZeroCopySink None) = Some (n, s') \<and>
    ser_WriteVarBytes buffer_Write [1, 2] (Sink_Bytes (NewZeroCopySink None)) = (None, Sink_Bytes s') \<and>
    ser_ReadVarBytes (drop (length (Sink_Bytes (NewZeroCopySink None))) (Sink_Bytes s' @ [7])) = (Inr [1, 2], [7])"
  by (rule serializers_agree) (simp_all add: sink_small_def NewZeroCopySink_def max_filled_def)

text \<open>
  Claim C24. A limit on numbers is enforced: a number above a non-zero limit is read as a range error, any other
  number as itself, and in both cases exactly its bytes are consumed.
\<close>

theorem ReadVarUint_range:
  assumes "length (varuint v @ rest) < 2 ^ 63" "m \<noteq> 0"
  shows "ser_ReadVarUint m (varuint v @ rest) = (if v > m then Inl ErrRange else Inr v, rest)"
  using ReadVarUint_varuint [of v rest] ReadVarUint_limit [OF assms(2)] assms(1) by (simp add: input_small_def)

theorem ReadVarUint_range_witness:
  "ser_ReadVarUint 100 (varuint 300 @ [5]) = (Inl ErrRange, [5])"
  using ReadVarUint_range [of 300 "[5]" 100] by (simp add: varuint_def)

end
