(* ===== verification/Rlp.thy ===== *)
theory Rlp
  imports Serialize
begin

text \<open>
  RLP, the encoding of nested lists of byte strings: the encoder of \<^verbatim>\<open>src/common/rlp/encode.go\<close> and the
  splitting functions of \<^verbatim>\<open>src/common/rlp/raw.go\<close>.

  The encoder collects string data and list headers separately, because the size of a list is known only
  after its elements, and merges the two at the end.  Which writer handles a value is decided by
  reflection on its type; here the constructor of \<open>rlp_value\<close> names the writer.  A \<^verbatim>\<open>*listhead\<close> is the
  index of the header in \<^verbatim>\<open>lheads\<close>.
\<close>

section \<open>Numbers\<close>

text \<open>\<^verbatim>\<open>putint\<close> writes a number in big-endian order with as few bytes as possible; this is what it writes.\<close>

definition putint :: "64 word \<Rightarrow> byte list" where
  "putint i =
     (if i < 0x100 then [ucast i]
      else if i < 0x10000 then [ucast (drop_bit 8 i), ucast i]
      else if i < 0x1000000 then [ucast (drop_bit 16 i), ucast (drop_bit 8 i), ucast i]
      else if i < 0x100000000 then [ucast (drop_bit 24 i), ucast (drop_bit 16 i), ucast (drop_bit 8 i), ucast i]
      else if i < 0x10000000000 then
        [ucast (drop_bit 32 i), ucast (drop_bit 24 i), ucast (drop_bit 16 i), ucast (drop_bit 8 i), ucast i]
      else if i < 0x1000000000000 then
        [ucast (drop_bit 40 i), ucast (drop_bit 32 i), ucast (drop_bit 24 i), ucast (drop_bit 16 i), ucast (drop_bit 8 i), ucast i]
      else if i < 0x100000000000000 then
        [ucast (drop_bit 48 i), ucast (drop_bit 40 i), ucast (drop_bit 32 i), ucast (drop_bit 24 i), ucast (drop_bit 16 i),
         ucast (drop_bit 8 i), ucast i]
      else
        [ucast (drop_bit 56 i), ucast (drop_bit 48 i), ucast (drop_bit 40 i), ucast (drop_bit 32 i), ucast (drop_bit 24 i),
         ucast (drop_bit 16 i), ucast (drop_bit 8 i), ucast i])"

lemma drop_bit_8_less: "drop_bit 8 (i :: 64 word) \<noteq> 0 \<Longrightarrow> unat (drop_bit 8 i) < unat i"
proof -
  assume "drop_bit 8 i \<noteq> 0"
  then have "i \<noteq> 0" by auto
  then show ?thesis by (simp add: drop_bit_eq_div unat_div unat_gt_0)
qed

function intsize_loop :: "64 word \<Rightarrow> nat \<Rightarrow> nat" where
  "intsize_loop i sz = (let i = drop_bit 8 i in if i = 0 then sz else intsize_loop i (sz + 1))"
  by pat_completeness auto
termination
  by (relation "measure (\<lambda>(i, _). unat i)") (auto dest: drop_bit_8_less)

declare intsize_loop.simps [simp del]

definition intsize :: "64 word \<Rightarrow> nat" where
  "intsize i = intsize_loop i 1"

definition headsize :: "64 word \<Rightarrow> nat" where
  "headsize sz = (if sz < 56 then 1 else 1 + intsize sz)"

definition ListSize :: "64 word \<Rightarrow> 64 word" where
  "ListSize contentSize = of_nat (headsize contentSize) + contentSize"

definition puthead :: "byte \<Rightarrow> byte \<Rightarrow> 64 word \<Rightarrow> byte list" where
  "puthead smalltag largetag sz =
     (if sz < 56 then [smalltag + ucast sz]
      else (largetag + of_nat (length (putint sz))) # putint sz)"

section \<open>The encoding buffer\<close>

record listhead =
  lh_offset :: nat
  lh_size :: int

record encbuf =
  eb_str :: "byte list"
  lheads :: "listhead list"
  lhsize :: nat

definition listhead_encode :: "listhead \<Rightarrow> byte list" where
  "listhead_encode h = puthead 0xC0 0xF7 (word_of_int (lh_size h))"

definition encbuf_reset :: "encbuf \<Rightarrow> encbuf" where
  "encbuf_reset w = \<lparr>eb_str = [], lheads = [], lhsize = 0\<rparr>"

definition encbuf_Write :: "byte list \<Rightarrow> encbuf \<Rightarrow> encbuf" where
  "encbuf_Write b w = w\<lparr>eb_str := eb_str w @ b\<rparr>"

definition encbuf_size :: "encbuf \<Rightarrow> nat" where
  "encbuf_size w = length (eb_str w) + lhsize w"

definition encodeStringHeader :: "nat \<Rightarrow> encbuf \<Rightarrow> encbuf" where
  "encodeStringHeader sz w =
     (if sz < 56 then encbuf_Write [0x80 + of_nat sz] w
      else let p = putint (of_nat sz) in encbuf_Write ((0xB7 + of_nat (length p)) # p) w)"

definition encodeString :: "byte list \<Rightarrow> encbuf \<Rightarrow> encbuf" where
  "encodeString b w =
     (if length b = 1 \<and> b ! 0 \<le> 0x7F then encbuf_Write [b ! 0] w
      else encbuf_Write b (encodeStringHeader (length b) w))"

definition encbuf_list :: "encbuf \<Rightarrow> nat \<times> encbuf" where
  "encbuf_list w = (length (lheads w), w\<lparr>lheads := lheads w @ [\<lparr>lh_offset = length (eb_str w), lh_size = int (lhsize w)\<rparr>]\<rparr>)"

definition encbuf_listEnd :: "nat \<Rightarrow> encbuf \<Rightarrow> encbuf" where
  "encbuf_listEnd lh w =
     (let h = lheads w ! lh;
          sz = int (encbuf_size w) - int (lh_offset h) - lh_size h
      in w\<lparr>lheads := (lheads w)[lh := h\<lparr>lh_size := sz\<rparr>],
           lhsize := lhsize w + (if sz < 56 then 1 else 1 + intsize (word_of_int sz))\<rparr>)"

text \<open>Writing at a position of the output array; a write past its end panics.\<close>

definition array_put :: "nat \<Rightarrow> byte list \<Rightarrow> byte list \<Rightarrow> byte list option" where
  "array_put pos p out = (if pos + length p \<le> length out then Some (take pos out @ p @ drop (pos + length p) out) else None)"

text \<open>\<^verbatim>\<open>copy\<close> to the array writes what fits.\<close>

definition array_copy :: "nat \<Rightarrow> byte list \<Rightarrow> byte list \<Rightarrow> nat \<times> byte list" where
  "array_copy pos p out =
     (let n = min (length p) (length out - pos) in (n, take pos out @ take n p @ drop (pos + n) out))"

fun toBytes_loop :: "byte list \<Rightarrow> listhead list \<Rightarrow> nat \<Rightarrow> nat \<Rightarrow> byte list \<Rightarrow> (nat \<times> nat \<times> byte list) option" where
  "toBytes_loop str [] strpos pos out = Some (strpos, pos, out)"
| "toBytes_loop str (head # hs) strpos pos out =
     (if strpos \<le> lh_offset head \<and> lh_offset head \<le> length str \<and> pos \<le> length out then do {
        let (n, out) = array_copy pos (take (lh_offset head - strpos) (drop strpos str)) out;
        out \<leftarrow> array_put (pos + n) (listhead_encode head) out;
        toBytes_loop str hs (strpos + n) (pos + n + length (listhead_encode head)) out
      } else None)"

definition toBytes :: "encbuf \<Rightarrow> byte list option" where
  "toBytes w = do {
     (strpos, pos, out) \<leftarrow> toBytes_loop (eb_str w) (lheads w) 0 0 (replicate (encbuf_size w) 0);
     if strpos \<le> length (eb_str w) \<and> pos \<le> length out
     then Some (snd (array_copy pos (drop strpos (eb_str w)) out)) else None
   }"

text \<open>The other output: piece by piece to a writer.\<close>

fun toWriter_loop :: "'w writer \<Rightarrow> byte list \<Rightarrow> listhead list \<Rightarrow> nat \<Rightarrow> 'w \<Rightarrow> (ser_error option \<times> nat) \<times> 'w" where
  "toWriter_loop W str [] strpos out = ((None, strpos), out)"
| "toWriter_loop W str (head # hs) strpos out =
     (let (err, strpos, out) =
        (if lh_offset head > strpos
         then let (err, out) = W (take (lh_offset head - strpos) (drop strpos str)) out in (err, lh_offset head, out)
         else (None, strpos, out))
      in if err \<noteq> None then ((err, strpos), out)
         else let (err, out) = W (listhead_encode head) out
              in if err \<noteq> None then ((err, strpos), out) else toWriter_loop W str hs strpos out)"

definition toWriter :: "'w writer \<Rightarrow> encbuf \<Rightarrow> 'w \<Rightarrow> ser_error option \<times> 'w" where
  "toWriter W w out =
     (let ((err, strpos), out) = toWriter_loop W (eb_str w) (lheads w) 0 out
      in if err \<noteq> None then (err, out)
         else if strpos < length (eb_str w) then W (drop strpos (eb_str w)) out else (None, out))"

section \<open>Writers\<close>

text \<open>
  Values as the writers see them: a raw value, an unsigned integer, a boolean, a \<^verbatim>\<open>*big.Int\<close> that may be nil,
  a byte slice, byte array or string, a nil interface, a nil pointer to a byte array and to a struct or
  another array, a slice or array (with the \<^verbatim>\<open>tail\<close> tag or without), a struct.
\<close>

datatype rlp_value = VRaw "byte list" | VUint "64 word" | VBool bool | VBigInt "int option" | VBytes "byte list"
  | VNilInterface | VNilByteArray | VNilStruct | VSlice bool "rlp_value list" | VStruct "rlp_value list"

datatype rlp_error = ErrExpectedString | ErrExpectedList | ErrCanonSize | ErrValueTooLarge | RlpUnexpectedEOF | NegativeBigInt

definition writeRawValue :: "byte list \<Rightarrow> encbuf \<Rightarrow> encbuf" where
  "writeRawValue b w = encbuf_Write b w"

definition writeUint :: "64 word \<Rightarrow> encbuf \<Rightarrow> encbuf" where
  "writeUint i w =
     (if i = 0 then encbuf_Write [0x80] w
      else if i < 128 then encbuf_Write [ucast i] w
      else encbuf_Write ((0x80 + of_nat (length (putint i))) # putint i) w)"

definition writeBool :: "bool \<Rightarrow> encbuf \<Rightarrow> encbuf" where
  "writeBool b w = (if b then encbuf_Write [0x01] w else encbuf_Write [0x80] w)"

text \<open>\<^verbatim>\<open>big.Int.Bytes\<close>: the absolute value in big-endian order, without leading zeros.\<close>

fun big_bytes :: "nat \<Rightarrow> byte list" where
  "big_bytes n = (if n = 0 then [] else big_bytes (n div 256) @ [of_nat (n mod 256)])"

declare big_bytes.simps [simp del]

definition writeBigInt :: "int \<Rightarrow> encbuf \<Rightarrow> (rlp_error, unit) result \<times> encbuf" where
  "writeBigInt i w =
     (if i < 0 then (Inl NegativeBigInt, w)
      else if i = 0 then (Inr (), encbuf_Write [0x80] w)
      else (Inr (), encodeString (big_bytes (nat i)) w))"

definition writeBigIntPtr :: "int option \<Rightarrow> encbuf \<Rightarrow> (rlp_error, unit) result \<times> encbuf" where
  "writeBigIntPtr ptr w = (case ptr of None \<Rightarrow> (Inr (), encbuf_Write [0x80] w) | Some i \<Rightarrow> writeBigInt i w)"

definition writeBytes :: "byte list \<Rightarrow> encbuf \<Rightarrow> encbuf" where
  "writeBytes b w = encodeString b w"

fun write_value :: "rlp_value \<Rightarrow> encbuf \<Rightarrow> (rlp_error, unit) result \<times> encbuf"
  and write_values :: "rlp_value list \<Rightarrow> encbuf \<Rightarrow> (rlp_error, unit) result \<times> encbuf" where
  "write_value (VRaw b) w = (Inr (), writeRawValue b w)"
| "write_value (VUint i) w = (Inr (), writeUint i w)"
| "write_value (VBool b) w = (Inr (), writeBool b w)"
| "write_value (VBigInt p) w = writeBigIntPtr p w"
| "write_value (VBytes b) w = (Inr (), writeBytes b w)"
| "write_value VNilInterface w = (Inr (), encbuf_Write [0xC0] w)"
| "write_value VNilByteArray w = (Inr (), encbuf_Write [0x80] w)"
| "write_value VNilStruct w = (let (lh, w) = encbuf_list w in (Inr (), encbuf_listEnd lh w))"
| "write_value (VSlice tail vs) w =
     (if tail then write_values vs w
      else let (lh, w) = encbuf_list w; (r, w) = write_values vs w in (r, encbuf_listEnd lh w))"
| "write_value (VStruct vs) w =
     (let (lh, w) = encbuf_list w; (r, w) = write_values vs w
      in case r of Inl e \<Rightarrow> (Inl e, w) | Inr _ \<Rightarrow> (Inr (), encbuf_listEnd lh w))"
| "write_values [] w = (Inr (), w)"
| "write_values (v # vs) w =
     (let (r, w) = write_value v w in case r of Inl e \<Rightarrow> (Inl e, w) | Inr _ \<Rightarrow> write_values vs w)"

text \<open>\<^verbatim>\<open>EncodeToBytes\<close> and \<^verbatim>\<open>Encode\<close> to a writer that is not itself an encoding buffer; \<open>eb\<close> is
  the buffer that the pool hands out, whatever it holds.\<close>

definition EncodeToBytes :: "encbuf \<Rightarrow> rlp_value \<Rightarrow> (rlp_error, byte list) result option" where
  "EncodeToBytes eb v =
     (let (r, eb) = write_value v (encbuf_reset eb)
      in case r of Inl e \<Rightarrow> Some (Inl e) | Inr _ \<Rightarrow> map_option Inr (toBytes eb))"

definition rlp_Encode :: "encbuf \<Rightarrow> 'w writer \<Rightarrow> rlp_value \<Rightarrow> 'w \<Rightarrow> (rlp_error, ser_error option) result \<times> 'w" where
  "rlp_Encode eb W v out =
     (let (r, eb) = write_value v (encbuf_reset eb)
      in case r of Inl e \<Rightarrow> (Inl e, out) | Inr _ \<Rightarrow> apfst Inr (toWriter W eb out))"

section \<open>Splitting\<close>

datatype Kind = Byte | String | List

text \<open>\<^verbatim>\<open>uint64(b[0])<<8*(slen-1) | ... | uint64(b[slen-1])\<close>\<close>

definition be_get :: "byte list \<Rightarrow> 64 word" where
  "be_get bs = foldl (\<lambda>s b. push_bit 8 s OR ucast b) 0 bs"

definition readSize :: "byte list \<Rightarrow> byte \<Rightarrow> (rlp_error, 64 word) result" where
  "readSize b slen =
     (if unat slen > length b then Inl RlpUnexpectedEOF
      else let s = (if 1 \<le> slen \<and> slen \<le> 8 then be_get (take (unat slen) b) else 0)
           in if s < 56 \<or> b ! 0 = 0 then Inl ErrCanonSize else Inr s)"

text \<open>\<^term>\<open>None\<close> is the panic of \<^verbatim>\<open>buf[1]\<close> on a string header that is the last byte.\<close>

definition readKind :: "byte list \<Rightarrow> (rlp_error, Kind \<times> 64 word \<times> 64 word) result option" where
  "readKind buf =
     (if buf = [] then Some (Inl RlpUnexpectedEOF)
      else do {
        let b = hd buf;
        r \<leftarrow> (if b < 0x80 then Some (Inr (Byte, 0, 1))
             else if b < 0xB8 then do {
               let contentsize = ucast (b - 0x80);
               if contentsize = 1 then do {
                 b1 \<leftarrow> slice_at buf 1;
                 Some (if b1 < 128 then Inl ErrCanonSize else Inr (String, 1, contentsize))
               } else Some (Inr (String, 1, contentsize))
             }
             else if b < 0xC0 then
               Some (map_sum id (\<lambda>s. (String, ucast (b - 0xB7) + 1, s)) (readSize (tl buf) (b - 0xB7)))
             else if b < 0xF8 then Some (Inr (List, 1, ucast (b - 0xC0)))
             else Some (map_sum id (\<lambda>s. (List, ucast (b - 0xF7) + 1, s)) (readSize (tl buf) (b - 0xF7))));
        Some (case r of
            Inl e \<Rightarrow> Inl e
          | Inr (k, tagsize, contentsize) \<Rightarrow>
              if contentsize > of_nat (length buf) - tagsize then Inl ErrValueTooLarge else Inr (k, tagsize, contentsize))
      })"

definition Split :: "byte list \<Rightarrow> (rlp_error, Kind \<times> byte list \<times> byte list) result option" where
  "Split b = do {
     r \<leftarrow> readKind b;
     (case r of
        Inl e \<Rightarrow> Some (Inl e)
      | Inr (k, ts, cs) \<Rightarrow>
          if ts \<le> ts + cs \<and> unat (ts + cs) \<le> length b
          then Some (Inr (k, take (unat (ts + cs) - unat ts) (drop (unat ts) b), drop (unat (ts + cs)) b))
          else None)
   }"

definition SplitString :: "byte list \<Rightarrow> (rlp_error, byte list \<times> byte list) result option" where
  "SplitString b = do {
     r \<leftarrow> Split b;
     Some (case r of
         Inl e \<Rightarrow> Inl e
       | Inr (k, content, rest) \<Rightarrow> if k = List then Inl ErrExpectedString else Inr (content, rest))
   }"

definition SplitList :: "byte list \<Rightarrow> (rlp_error, byte list \<times> byte list) result option" where
  "SplitList b = do {
     r \<leftarrow> Split b;
     Some (case r of
         Inl e \<Rightarrow> Inl e
       | Inr (k, content, rest) \<Rightarrow> if k \<noteq> List then Inl ErrExpectedList else Inr (content, rest))
   }"

text \<open>
  The loop of \<^verbatim>\<open>CountValues\<close>, with the number of iterations bounded by \<open>n\<close>: every value takes at least a byte
  off the input, so its length is enough.
\<close>

fun CountValues_loop :: "nat \<Rightarrow> byte list \<Rightarrow> int \<Rightarrow> (rlp_error, int) result option" where
  "CountValues_loop 0 b i = (if b = [] then Some (Inr i) else None)"
| "CountValues_loop (Suc n) b i =
     (if b = [] then Some (Inr i)
      else do {
        r \<leftarrow> readKind b;
        (case r of
           Inl e \<Rightarrow> Some (Inl e)
         | Inr (k, tagsize, sz) \<Rightarrow>
             if unat (tagsize + sz) \<le> length b then CountValues_loop n (drop (unat (tagsize + sz)) b) (i + 1) else None)
      })"

definition CountValues :: "byte list \<Rightarrow> (rlp_error, int) result option" where
  "CountValues b = CountValues_loop (length b) b 0"

end
