(* ===== verification/RlpProps.thy ===== *)
theory RlpProps
  imports Rlp
begin

text \<open>
  What the RLP encoder writes is the RLP of the value, defined directly by recursion in \<open>rlp_bytes\<close>; the splitting
  functions take such encodings apart again and accept nothing else.
\<close>

section \<open>Numbers\<close>

lemma drop8_less: "drop_bit 8 (i :: 64 word) < 0x100 \<longleftrightarrow> i < 0x10000" "drop_bit 8 i < 0x10000 \<longleftrightarrow> i < 0x1000000"
  "drop_bit 8 i < 0x1000000 \<longleftrightarrow> i < 0x100000000" "drop_bit 8 i < 0x100000000 \<longleftrightarrow> i < 0x10000000000"
  "drop_bit 8 i < 0x10000000000 \<longleftrightarrow> i < 0x1000000000000" "drop_bit 8 i < 0x1000000000000 \<longleftrightarrow> i < 0x100000000000000"
  "drop_bit 8 i < 0x100000000000000"
proof -
  have u: "unat (drop_bit 8 i) = unat i div 256" by (simp add: drop_bit_eq_div unat_div)
  have "unat i < 2 ^ 64" using unsigned_less [of i, where 'a = nat] by simp
  then have "unat i div 256 < 2 ^ 56" by (simp add: div_less_iff_less_mult)
  then show "drop_bit 8 i < 0x100000000000000" by (simp add: word_less_nat_alt u)
  show "drop_bit 8 (i :: 64 word) < 0x100 \<longleftrightarrow> i < 0x10000" "drop_bit 8 i < 0x10000 \<longleftrightarrow> i < 0x1000000"
    "drop_bit 8 i < 0x1000000 \<longleftrightarrow> i < 0x100000000" "drop_bit 8 i < 0x100000000 \<longleftrightarrow> i < 0x10000000000"
    "drop_bit 8 i < 0x10000000000 \<longleftrightarrow> i < 0x1000000000000" "drop_bit 8 i < 0x1000000000000 \<longleftrightarrow> i < 0x100000000000000"
    by (simp_all add: word_less_nat_alt u div_less_iff_less_mult)
qed

lemma putint_rec: "putint i = (if i < 0x100 then [ucast i] else putint (drop_bit 8 i) @ [ucast i])"
  unfolding putint_def by (simp add: drop8_less drop_bit_drop_bit split del: if_split split: if_splits)

lemma putint_small: "i < 0x100 \<Longrightarrow> putint i = [ucast i]"
  by (simp add: putint_def)

lemma drop8_zero: "drop_bit 8 (i :: 64 word) = 0 \<longleftrightarrow> i < 0x100"
proof -
  have "unat (drop_bit 8 i) = unat i div 256" by (simp add: drop_bit_eq_div unat_div)
  then show ?thesis by (simp add: word_less_nat_alt unat_eq_0 [symmetric] div_eq_0_iff del: unat_eq_0)
qed

lemma intsize_loop_eq: "intsize_loop i sz + 1 = sz + length (putint i)"
proof (induction i sz rule: intsize_loop.induct)
  case (1 i sz)
  show ?case
    using 1 by (subst intsize_loop.simps, subst putint_rec) (auto simp: Let_def drop8_zero)
qed

lemma length_putint: "length (putint i) = intsize i"
  using intsize_loop_eq [of i 1] by (simp add: intsize_def)

lemma putint_bounds: "1 \<le> length (putint i)" "length (putint i) \<le> 8"
  by (simp_all add: putint_def)

lemma be_get_snoc: "be_get (bs @ [b]) = push_bit 8 (be_get bs) OR ucast b"
  by (simp add: be_get_def)

lemma putint_induct [case_names small large]:
  assumes "\<And>i. i < 0x100 \<Longrightarrow> P i" "\<And>i. \<not> i < 0x100 \<Longrightarrow> P (drop_bit 8 i) \<Longrightarrow> P i"
  shows "P (i :: 64 word)"
proof (induction "unat i" arbitrary: i rule: less_induct)
  case less
  show ?case
  proof (cases "i < 0x100")
    case False
    then have "unat (drop_bit 8 i) < unat i" using drop_bit_8_less drop8_zero by blast
    then show ?thesis using assms(2) False less by blast
  qed (rule assms(1))
qed

lemma be_get_putint: "be_get (putint i) = i"
proof (induction i rule: putint_induct)
  case (small i)
  then have "unat (ucast i :: byte) = unat i" by (simp add: unsigned_ucast_eq take_bit_nat_eq_self word_less_nat_alt)
  then have "ucast (ucast i :: byte) = i" unfolding word_unat_eq_iff ucast_up .
  then show ?case using small by (simp add: putint_small be_get_def)
next
  case (large i)
  have "push_bit 8 (drop_bit 8 i) OR ucast (ucast i :: byte) = i"
    by (rule bit_word_eqI) (auto simp: bit_or_iff bit_push_bit_iff bit_drop_bit_eq bit_ucast_iff)
  then show ?case using large by (subst putint_rec) (simp add: be_get_snoc)
qed

lemma hd_putint: "i \<noteq> 0 \<Longrightarrow> hd (putint i) \<noteq> 0"
proof (induction i rule: putint_induct)
  case (small i)
  then have "unat (ucast i :: byte) = unat i" by (simp add: unsigned_ucast_eq take_bit_nat_eq_self word_less_nat_alt)
  then show ?case using small by (auto simp: putint_small word_unat_eq_iff)
next
  case (large i)
  have "drop_bit 8 i \<noteq> 0" using large by (simp add: drop8_zero)
  moreover have "putint (drop_bit 8 i) \<noteq> []" using putint_bounds(1) [of "drop_bit 8 i"] by auto
  ultimately show ?case using large by (subst putint_rec) simp
qed

section \<open>The reference encoding\<close>

definition str_enc :: "byte list \<Rightarrow> byte list" where
  "str_enc b = (if length b = 1 \<and> b ! 0 \<le> 0x7F then b else puthead 0x80 0xB7 (of_nat (length b)) @ b)"

definition list_enc :: "byte list \<Rightarrow> byte list" where
  "list_enc c = puthead 0xC0 0xF7 (of_nat (length c)) @ c"

fun rlp_bytes :: "rlp_value \<Rightarrow> byte list" where
  "rlp_bytes (VRaw b) = b"
| "rlp_bytes (VUint i) = str_enc (if i = 0 then [] else putint i)"
| "rlp_bytes (VBool b) = str_enc (if b then [1] else [])"
| "rlp_bytes (VBigInt p) = str_enc (case p of None \<Rightarrow> [] | Some i \<Rightarrow> big_bytes (nat i))"
| "rlp_bytes (VBytes b) = str_enc b"
| "rlp_bytes VNilInterface = list_enc []"
| "rlp_bytes VNilByteArray = str_enc []"
| "rlp_bytes VNilStruct = list_enc []"
| "rlp_bytes (VSlice tail vs) = (let c = concat (map rlp_bytes vs) in if tail then c else list_enc c)"
| "rlp_bytes (VStruct vs) = list_enc (concat (map rlp_bytes vs))"

text \<open>Only a negative big integer has no encoding.\<close>

fun encodable :: "rlp_value \<Rightarrow> bool" where
  "encodable (VBigInt (Some i)) = (0 \<le> i)"
| "encodable (VSlice tail vs) = list_all encodable vs"
| "encodable (VStruct vs) = list_all encodable vs"
| "encodable _ = True"

section \<open>Merging string data and headers\<close>

fun heads_ok :: "nat \<Rightarrow> nat \<Rightarrow> listhead list \<Rightarrow> bool" where
  "heads_ok base n [] = True"
| "heads_ok base n (h # hs) = (base \<le> lh_offset h \<and> lh_offset h \<le> base + n \<and> heads_ok (lh_offset h) (base + n - lh_offset h) hs)"

fun render :: "nat \<Rightarrow> byte list \<Rightarrow> listhead list \<Rightarrow> byte list" where
  "render base s [] = s"
| "render base s (h # hs) =
     take (lh_offset h - base) s @ listhead_encode h @ render (lh_offset h) (drop (lh_offset h - base) s) hs"

lemma heads_ok_append:
  "heads_ok base n hs \<Longrightarrow> heads_ok (base + n) m hs' \<Longrightarrow> heads_ok base (n + m) (hs @ hs')"
proof (induction base n hs rule: heads_ok.induct)
  case (1 base n)
  then show ?case by (cases hs') (auto simp: ac_simps)
qed (auto simp: ac_simps)

lemma render_append:
  assumes "heads_ok base (length s) hs" "heads_ok (base + length s) (length s') hs'"
  shows "render base (s @ s') (hs @ hs') = render base s hs @ render (base + length s) s' hs'"
  using assms
proof (induction base s hs rule: render.induct)
  case (1 base s)
  then show ?case by (cases hs') auto
next
  case (2 base s h hs)
  then show ?case by (auto simp: ac_simps)
qed

lemma length_render:
  "heads_ok base (length s) hs \<Longrightarrow> length (render base s hs) = length s + sum_list (map (length \<circ> listhead_encode) hs)"
  by (induction base s hs rule: render.induct) (auto simp: ac_simps)

text \<open>\<open>extends w w' bs\<close>: the buffer \<open>w'\<close> is \<open>w\<close> with string data and headers for the bytes \<open>bs\<close> added.\<close>

definition extends :: "encbuf \<Rightarrow> encbuf \<Rightarrow> byte list \<Rightarrow> bool" where
  "extends w w' bs \<longleftrightarrow> (\<exists>s hs. eb_str w' = eb_str w @ s \<and> lheads w' = lheads w @ hs \<and>
     heads_ok (length (eb_str w)) (length s) hs \<and> render (length (eb_str w)) s hs = bs \<and>
     lhsize w' = lhsize w + sum_list (map (length \<circ> listhead_encode) hs))"

lemma extends_refl: "extends w w []"
  unfolding extends_def by (intro exI [of _ "[]"]) simp

lemma extends_trans:
  assumes "extends w w1 b" "extends w1 w2 c"
  shows "extends w w2 (b @ c)"
proof -
  obtain s hs where 1: "eb_str w1 = eb_str w @ s" "lheads w1 = lheads w @ hs"
    "heads_ok (length (eb_str w)) (length s) hs" "render (length (eb_str w)) s hs = b"
    "lhsize w1 = lhsize w + sum_list (map (length \<circ> listhead_encode) hs)"
    using assms(1) unfolding extends_def by blast
  obtain s' hs' where 2: "eb_str w2 = eb_str w1 @ s'" "lheads w2 = lheads w1 @ hs'"
    "heads_ok (length (eb_str w1)) (length s') hs'" "render (length (eb_str w1)) s' hs' = c"
    "lhsize w2 = lhsize w1 + sum_list (map (length \<circ> listhead_encode) hs')"
    using assms(2) unfolding extends_def by blast
  show ?thesis
    unfolding extends_def
    by (intro exI [of _ "s @ s'"] exI [of _ "hs @ hs'"])
      (use 1 2 heads_ok_append [OF 1(3), of "length s'" hs'] render_append [OF 1(3), of s' hs'] in simp)
qed

lemma extends_Write: "extends w (encbuf_Write b w) b"
  unfolding extends_def encbuf_Write_def by (intro exI [of _ b] exI [of _ "[]"]) simp

lemma puthead_length: "length (puthead t l n) = (if n < 56 then 1 else 1 + intsize n)"
  by (simp add: puthead_def length_putint)

lemma extends_listEnd:
  assumes "extends (snd (encbuf_list w)) w1 c" "length c < 2 ^ 63"
  shows "extends w (encbuf_listEnd (length (lheads w)) w1) (list_enc c)"
proof -
  let ?n = "length (eb_str w)"
  obtain s hs where 1: "eb_str w1 = eb_str w @ s"
    "lheads w1 = lheads w @ \<lparr>lh_offset = ?n, lh_size = int (lhsize w)\<rparr> # hs"
    "heads_ok ?n (length s) hs" "render ?n s hs = c"
    "lhsize w1 = lhsize w + sum_list (map (length \<circ> listhead_encode) hs)"
    using assms(1) by (auto simp: extends_def encbuf_list_def)
  have "int (encbuf_size w1) - int ?n - int (lhsize w) = int (length c)"
    using 1 length_render [OF 1(3)] by (simp add: encbuf_size_def)
  then have e: "encbuf_listEnd (length (lheads w)) w1 = w1\<lparr>lheads := lheads w @ \<lparr>lh_offset = ?n, lh_size = int (length c)\<rparr> # hs,
      lhsize := lhsize w1 + (if length c < 56 then 1 else 1 + intsize (of_nat (length c)))\<rparr>"
    using 1(2) by (simp add: encbuf_listEnd_def Let_def)
  have small: "(of_nat (length c) :: 64 word) < 56 \<longleftrightarrow> length c < 56"
    using assms(2) unat_of_nat_small [of "length c"] by (simp add: word_less_nat_alt)
  have h: "listhead_encode \<lparr>lh_offset = ?n, lh_size = int (length c)\<rparr> = puthead 0xC0 0xF7 (of_nat (length c))"
    by (simp add: listhead_encode_def)
  show ?thesis
    unfolding extends_def
    by (intro exI [of _ s] exI [of _ "\<lparr>lh_offset = ?n, lh_size = int (length c)\<rparr> # hs"])
      (use 1 in \<open>simp add: e h list_enc_def puthead_length small\<close>)
qed

lemma ucast_of_nat_byte: "(ucast (of_nat n :: 64 word) :: byte) = of_nat n"
  by (simp add: word_unat_eq_iff unsigned_ucast_eq unsigned_of_nat)

lemma encodeString_extends:
  assumes "length b < 2 ^ 63"
  shows "extends w (encodeString b w) (str_enc b)"
proof -
  have small: "(of_nat (length b) :: 64 word) < 56 \<longleftrightarrow> length b < 56"
    using assms unat_of_nat_small [of "length b"] by (simp add: word_less_nat_alt)
  have "extends w (encodeStringHeader (length b) w) (puthead 0x80 0xB7 (of_nat (length b)))"
    using extends_Write small by (simp add: encodeStringHeader_def puthead_def Let_def ucast_of_nat_byte)
  moreover have "b = [b ! 0]" if "length b = 1" using that by (cases b) auto
  ultimately show ?thesis
    using extends_Write [of w b] extends_trans [OF _ extends_Write] by (auto simp: encodeString_def str_enc_def)
qed

section \<open>The writers\<close>

lemma str_enc_length: "length b \<le> length (str_enc b)"
  by (simp add: str_enc_def)

lemma list_enc_length: "length c \<le> length (list_enc c)"
  by (simp add: list_enc_def)

lemma str_enc_simps: "str_enc [] = [0x80]" "str_enc [1] = [1]"
  by (simp_all add: str_enc_def puthead_def)

lemma list_enc_Nil: "list_enc [] = [0xC0]"
  by (simp add: list_enc_def puthead_def)

lemma str_enc_putint:
  assumes "i \<noteq> 0"
  shows "str_enc (putint i) = (if i < 128 then [ucast i] else (0x80 + of_nat (length (putint i))) # putint i)"
proof (cases "i < 0x100")
  case True
  then have u: "unat (ucast i :: byte) = unat i" by (simp add: unsigned_ucast_eq take_bit_nat_eq_self word_less_nat_alt)
  have "(ucast i :: byte) \<le> 0x7F \<longleftrightarrow> i < 128" by (auto simp: word_le_nat_alt word_less_nat_alt u)
  then show ?thesis using True by (simp add: putint_small str_enc_def puthead_def)
next
  case False
  have "\<not> i < 128" using False by (auto simp: word_less_nat_alt)
  moreover have "length (putint i) \<noteq> 1"
    using False putint_bounds(1) [of "drop_bit 8 i"] by (subst putint_rec) (auto simp: Suc_le_eq)
  moreover have "(of_nat (length (putint i)) :: 64 word) < 56"
    using putint_bounds(2) [of i] unat_of_nat_small [of "length (putint i)"] by (simp add: word_less_nat_alt)
  ultimately show ?thesis by (simp add: str_enc_def puthead_def ucast_of_nat_byte)
qed

lemma big_bytes_nonzero: "0 < n \<Longrightarrow> big_bytes n \<noteq> []"
  by (simp add: big_bytes.simps [of n])

lemma write_value_extends:
  "encodable v \<Longrightarrow> length (rlp_bytes v) < 2 ^ 63 \<Longrightarrow>
     \<exists>w'. write_value v w = (Inr (), w') \<and> extends w w' (rlp_bytes v)"
  "list_all encodable vs \<Longrightarrow> length (concat (map rlp_bytes vs)) < 2 ^ 63 \<Longrightarrow>
     \<exists>w'. write_values vs w = (Inr (), w') \<and> extends w w' (concat (map rlp_bytes vs))"
proof (induction v w and vs w rule: write_value_write_values.induct)
  case (2 i w)
  then show ?case using extends_Write [of w] by (auto simp: writeUint_def str_enc_putint str_enc_simps)
next
  case (4 p w)
  show ?case
  proof (cases p)
    case (Some i)
    then show ?thesis
      using 4 extends_Write [of w] encodeString_extends [of "big_bytes (nat i)" w] str_enc_length [of "big_bytes (nat i)"]
      by (auto simp: writeBigIntPtr_def writeBigInt_def str_enc_simps big_bytes.simps [of 0])
  qed (use extends_Write [of w] in \<open>simp add: writeBigIntPtr_def str_enc_simps\<close>)
next
  case (5 b w)
  then show ?case using encodeString_extends [of b w] str_enc_length [of b] by (simp add: writeBytes_def)
next
  case (8 w)
  then show ?case using extends_listEnd [of w _ "[]", OF extends_refl] by (simp add: encbuf_list_def)
next
  case (9 tail vs w)
  show ?case
  proof (cases tail)
    case False
    let ?c = "concat (map rlp_bytes vs)"
    have c: "length ?c < 2 ^ 63" using 9 False list_enc_length [of ?c] by simp
    obtain w1 where "write_values vs (snd (encbuf_list w)) = (Inr (), w1)" "extends (snd (encbuf_list w)) w1 ?c"
      using 9(2) [OF False refl prod.collapse] 9(3) c by auto
    then show ?thesis using False extends_listEnd [of w w1 ?c] c by (simp add: encbuf_list_def)
  qed (use 9 in simp)
next
  case (10 vs w)
  let ?c = "concat (map rlp_bytes vs)"
  have c: "length ?c < 2 ^ 63" using 10 list_enc_length [of ?c] by simp
  obtain w1 where "write_values vs (snd (encbuf_list w)) = (Inr (), w1)" "extends (snd (encbuf_list w)) w1 ?c"
    using 10(1) [OF refl prod.collapse] 10(2) c by auto
  then show ?case using extends_listEnd [of w w1 ?c] c by (simp add: encbuf_list_def)
next
  case (12 v vs w)
  obtain w1 where w1: "write_value v w = (Inr (), w1)" "extends w w1 (rlp_bytes v)" using 12 by auto
  obtain w2 where "write_values vs w1 = (Inr (), w2)" "extends w1 w2 (concat (map rlp_bytes vs))"
    using 12(2) [OF refl w1(1) [symmetric] refl] 12(3,4) by auto
  then show ?case using w1 extends_trans by auto
qed (auto simp: writeRawValue_def writeBool_def str_enc_simps list_enc_Nil extends_Write extends_refl)

lemma fst_write_value:
  "fst (write_value v w) = (if encodable v then Inr () else Inl NegativeBigInt)"
  "fst (write_values vs w) = (if list_all encodable vs then Inr () else Inl NegativeBigInt)"
proof (induction v w and vs w rule: write_value_write_values.induct)
  case (4 p w)
  then show ?case by (cases p) (auto simp: writeBigIntPtr_def writeBigInt_def)
next
  case (10 vs w)
  then show ?case using 10 [OF refl prod.collapse] by (auto split: prod.splits sum.splits if_splits)
qed (auto split: prod.splits sum.splits if_splits)

section \<open>The outputs\<close>

lemma array_copy_fits:
  assumes "length d = pos" "length p \<le> k"
  shows "array_copy pos p (d @ replicate k 0) = (length p, d @ p @ replicate (k - length p) 0)"
  using assms by (auto simp: array_copy_def Let_def)

lemma array_put_fits:
  assumes "length d = pos" "length p \<le> k"
  shows "array_put pos p (d @ replicate k 0) = Some (d @ p @ replicate (k - length p) 0)"
  using assms by (auto simp: array_put_def)

lemma toBytes_loop_render:
  assumes "heads_ok strpos (length str - strpos) hs" "strpos \<le> length str" "length d = pos"
    and "k = length (render strpos (drop strpos str) hs)"
  shows "\<exists>strpos' pos' out. toBytes_loop str hs strpos pos (d @ replicate k 0) = Some (strpos', pos', out) \<and>
    strpos' \<le> length str \<and> pos' \<le> length out \<and>
    snd (array_copy pos' (drop strpos' str) out) = d @ render strpos (drop strpos str) hs"
  using assms
proof (induction hs arbitrary: strpos d pos k)
  case Nil
  then show ?case using array_copy_fits [OF Nil.prems(3), of "drop strpos str" k] by simp
next
  case (Cons h hs)
  let ?p = "take (lh_offset h - strpos) (drop strpos str)" and ?e = "listhead_encode h"
  let ?r = "render (lh_offset h) (drop (lh_offset h) str) hs"
  have o: "strpos \<le> lh_offset h" "lh_offset h \<le> length str" using Cons.prems(1,2) by auto
  have d: "drop (lh_offset h - strpos) (drop strpos str) = drop (lh_offset h) str" using o by simp
  have p: "length ?p = lh_offset h - strpos" using o by simp
  have k: "k = length ?p + length ?e + length ?r" using Cons.prems(4) d by simp
  have 1: "array_copy pos ?p (d @ replicate k 0) = (length ?p, (d @ ?p) @ replicate (k - length ?p) 0)"
    using array_copy_fits [OF Cons.prems(3), of ?p k] k by simp
  have 2: "array_put (pos + length ?p) ?e ((d @ ?p) @ replicate (k - length ?p) 0) =
      Some ((d @ ?p @ ?e) @ replicate (k - length ?p - length ?e) 0)"
    using array_put_fits [of "d @ ?p" "pos + length ?p" ?e "k - length ?p"] Cons.prems(3) k by simp
  have 3: "strpos + length ?p = lh_offset h" "k - length ?p - length ?e = length ?r" using p o k by auto
  have "\<exists>strpos' pos' out. toBytes_loop str hs (lh_offset h) (pos + length ?p + length ?e) ((d @ ?p @ ?e) @ replicate (length ?r) 0) =
      Some (strpos', pos', out) \<and> strpos' \<le> length str \<and> pos' \<le> length out \<and>
      snd (array_copy pos' (drop strpos' str) out) = (d @ ?p @ ?e) @ ?r"
    by (rule Cons.IH) (use Cons.prems o in auto)
  moreover have "pos \<le> length (d @ replicate k 0)" using Cons.prems(3) by simp
  ultimately show ?case
    using o unfolding toBytes_loop.simps 1 Let_def split_conv 2 3 by (simp add: 2 3 d)
qed

lemma toBytes_render:
  assumes "extends \<lparr>eb_str = [], lheads = [], lhsize = 0\<rparr> w bs"
  shows "toBytes w = Some bs"
proof -
  have h: "heads_ok 0 (length (eb_str w)) (lheads w)" "render 0 (eb_str w) (lheads w) = bs"
    "lhsize w = sum_list (map (length \<circ> listhead_encode) (lheads w))"
    using assms by (auto simp: extends_def)
  have "encbuf_size w = length (render 0 (drop 0 (eb_str w)) (lheads w))"
    using length_render [OF h(1)] h(3) by (simp add: encbuf_size_def)
  from toBytes_loop_render [of 0 "eb_str w" "lheads w" "[]" 0, OF _ _ _ this] h show ?thesis
    by (auto simp: toBytes_def)
qed

lemma buffer_Write_app: "buffer_Write p w = (None, w @ p)"
  by (simp add: buffer_Write_def)

lemma toWriter_loop_render:
  assumes "heads_ok strpos (length str - strpos) hs" "strpos \<le> length str"
  shows "\<exists>strpos' d. toWriter_loop buffer_Write str hs strpos out = ((None, strpos'), out @ d) \<and> strpos' \<le> length str \<and>
    d @ drop strpos' str = render strpos (drop strpos str) hs"
  using assms
proof (induction hs arbitrary: strpos out)
  case (Cons h hs)
  let ?p = "take (lh_offset h - strpos) (drop strpos str)" and ?e = "listhead_encode h"
  have o: "strpos \<le> lh_offset h" "lh_offset h \<le> length str" using Cons.prems by auto
  obtain strpos' d where d: "toWriter_loop buffer_Write str hs (lh_offset h) (out @ ?p @ ?e) = ((None, strpos'), (out @ ?p @ ?e) @ d)"
    "strpos' \<le> length str" "d @ drop strpos' str = render (lh_offset h) (drop (lh_offset h) str) hs"
    using Cons.IH [of "lh_offset h" "out @ ?p @ ?e"] Cons.prems o by auto
  show ?case
  proof (cases "lh_offset h > strpos")
    case True
    then show ?thesis using d o by (intro exI [of _ strpos'] exI [of _ "?p @ ?e @ d"]) (simp add: buffer_Write_def [abs_def])
  next
    case False
    then have "strpos = lh_offset h" using o by simp
    then show ?thesis using d o by (intro exI [of _ strpos'] exI [of _ "?e @ d"]) (simp add: buffer_Write_def [abs_def])
  qed
qed simp

lemma toWriter_render:
  assumes "extends \<lparr>eb_str = [], lheads = [], lhsize = 0\<rparr> w bs"
  shows "toWriter buffer_Write w out = (None, out @ bs)"
proof -
  have "heads_ok 0 (length (eb_str w)) (lheads w)" "render 0 (eb_str w) (lheads w) = bs"
    using assms by (auto simp: extends_def)
  then obtain strpos' d where "toWriter_loop buffer_Write (eb_str w) (lheads w) 0 out = ((None, strpos'), out @ d)"
    "strpos' \<le> length (eb_str w)" "d @ drop strpos' (eb_str w) = bs"
    using toWriter_loop_render [of 0 "eb_str w" "lheads w" out] by auto
  then show ?thesis by (cases "strpos' < length (eb_str w)") (auto simp: toWriter_def buffer_Write_app)
qed

lemma encode_bytes:
  assumes "length (rlp_bytes v) < 2 ^ 63" "encodable v"
  shows "EncodeToBytes eb v = Some (Inr (rlp_bytes v))" "rlp_Encode eb buffer_Write v out = (Inr None, out @ rlp_bytes v)"
proof -
  let ?w = "\<lparr>eb_str = [], lheads = [], lhsize = 0\<rparr>"
  obtain w where "write_value v ?w = (Inr (), w)" "extends ?w w (rlp_bytes v)"
    using write_value_extends(1) [OF assms(2,1)] by blast
  then show "EncodeToBytes eb v = Some (Inr (rlp_bytes v))" "rlp_Encode eb buffer_Write v out = (Inr None, out @ rlp_bytes v)"
    using toBytes_render toWriter_render by (simp_all add: EncodeToBytes_def rlp_Encode_def encbuf_reset_def)
qed

section \<open>Properties of the encoder\<close>

text \<open>
  Claim C28. Encoding a value gives its RLP, as defined by recursion on the value: the sizes in the list headers
  are right, no write misses the output array, whatever buffer the pool hands out, and writing to a
  stream gives the same bytes as writing to an array.  The only error is a negative big integer.
\<close>

theorem rlp_encode_correct:
  assumes "length (rlp_bytes v) < 2 ^ 63"
  shows "EncodeToBytes eb v = Some (if encodable v then Inr (rlp_bytes v) else Inl NegativeBigInt) \<and>
    rlp_Encode eb buffer_Write v out =
      (if encodable v then (Inr None, out @ rlp_bytes v) else (Inl NegativeBigInt, out))"
proof (cases "encodable v")
  case True
  then show ?thesis using encode_bytes [OF assms] by simp
next
  case False
  then show ?thesis
    using fst_write_value(1) [of v "encbuf_reset eb"]
    by (auto simp: EncodeToBytes_def rlp_Encode_def split: prod.splits)
qed

theorem rlp_encode_correct_witness:
  "EncodeToBytes \<lparr>eb_str = [9], lheads = [], lhsize = 3\<rparr> (VStruct [VUint 1024, VBytes [1, 2], VSlice False []]) =
     Some (Inr [0xC7, 0x82, 4, 0, 0x82, 1, 2, 0xC0])"
  using rlp_encode_correct [of "VStruct [VUint 1024, VBytes [1, 2], VSlice False []]" "\<lparr>eb_str = [9], lheads = [], lhsize = 3\<rparr>" "[]"]
  by (simp add: str_enc_def list_enc_def puthead_def putint_def)

section \<open>Splitting\<close>

lemma byte_tag: "t + n < 256 \<Longrightarrow> unat (of_nat t + of_nat n :: byte) = t + n"
  by (simp add: unsigned_of_nat take_bit_nat_eq_self flip: of_nat_add)

lemma tag_80: "n < 56 \<Longrightarrow> unat (0x80 + of_nat n :: byte) = 0x80 + n"
  using byte_tag [of "0x80" n] by simp

lemma tag_C0: "n < 56 \<Longrightarrow> unat (0xC0 + of_nat n :: byte) = 0xC0 + n"
  using byte_tag [of "0xC0" n] by simp

lemma tag_B7: "n \<le> 8 \<Longrightarrow> unat (0xB7 + of_nat n :: byte) = 0xB7 + n"
  using byte_tag [of "0xB7" n] by simp

lemma tag_F7: "n \<le> 8 \<Longrightarrow> unat (0xF7 + of_nat n :: byte) = 0xF7 + n"
  using byte_tag [of "0xF7" n] by simp

lemma unat_byte_small: "n < 256 \<Longrightarrow> unat (of_nat n :: byte) = n"
  by (simp add: unsigned_of_nat take_bit_nat_eq_self)

lemma ucast_of_nat_up: "n < 256 \<Longrightarrow> (ucast (of_nat n :: byte) :: 64 word) = of_nat n"
  by (simp add: word_unat_eq_iff ucast_up unsigned_of_nat take_bit_nat_eq_self del: unsigned_ucast_eq)

lemma readSize_putint:
  assumes "\<not> n < 56"
  shows "readSize (putint n @ r) (of_nat (length (putint n))) = Inr n"
proof -
  have l: "1 \<le> length (putint n)" "length (putint n) \<le> 8" by (rule putint_bounds)+
  then have u: "unat (of_nat (length (putint n)) :: byte) = length (putint n)" by (simp add: unat_byte_small)
  have "(1 :: byte) \<le> of_nat (length (putint n))" "(of_nat (length (putint n)) :: byte) \<le> 8"
    using l by (simp_all add: word_le_nat_alt u)
  moreover have "n \<noteq> 0" using assms by auto
  moreover have "(putint n @ r) ! 0 = hd (putint n)" using l(1) by (cases "putint n") auto
  ultimately show ?thesis using u assms be_get_putint [of n] hd_putint [of n] by (simp add: readSize_def)
qed

lemma not_greater: "(n :: 64 word) \<le> m \<Longrightarrow> \<not> m < n"
  by simp

lemma room_left:
  assumes "t + n \<le> N" "N < 2 ^ 63"
  shows "\<not> (of_nat n :: 64 word) > of_nat N - of_nat t"
proof -
  have "(of_nat N :: 64 word) - of_nat t = of_nat (N - t)" using assms by (simp add: of_nat_diff)
  then show ?thesis using assms of_nat_le_small [of n "N - t"] by (simp add: not_less del: of_nat_diff)
qed

text \<open>A header and the size of the content behind it.\<close>

lemma readKind_head:
  assumes "length (puthead t l (of_nat n) @ r) < 2 ^ 63" "n \<le> length r" "n < 2 ^ 63"
    and "(t, l, k) \<in> {(0x80, 0xB7, String), (0xC0, 0xF7, List)}" "t = 0x80 \<Longrightarrow> n = 1 \<Longrightarrow> \<not> hd r < 0x80"
  shows "readKind (puthead t l (of_nat n) @ r) = Some (Inr (k, of_nat (length (puthead t l (of_nat n))), of_nat n))"
proof (cases "n < 56")
  case True
  have s: "(of_nat n :: 64 word) < 56" using True assms(3) by (simp add: word_less_nat_alt unat_of_nat_small)
  have h: "puthead t l (of_nat n) = [t + of_nat n]" using s by (simp add: puthead_def ucast_of_nat_byte)
  have rm: "\<not> (of_nat n :: 64 word) > of_nat (Suc (length r)) - 1"
    using room_left [of 1 n "Suc (length r)"] assms(1,2) by (simp add: h)
  have r1: "n = 1 \<Longrightarrow> slice_at ((t + of_nat n) # r) 1 = Some (hd r)" using assms(2) by (cases r) (auto simp: slice_at_def)
  have n1: "(of_nat n :: 64 word) = 1 \<longleftrightarrow> n = 1"
    using assms(3) unat_of_nat_small [of n] by (metis of_nat_1 unat_1)
  consider "t = 0x80" "l = 0xB7" "k = String" | "t = 0xC0" "l = 0xF7" "k = List" using assms(4) by auto
  then show ?thesis
  proof cases
    case 1
    have b: "\<not> 0x80 + (of_nat n :: byte) < 0x80" "0x80 + (of_nat n :: byte) < 0xB8"
      using tag_80 [OF True] True by (simp_all add: word_less_nat_alt)
    show ?thesis
      unfolding h using 1 b rm r1 n1 assms(5) True
      by (cases "n = 1") (simp_all add: readKind_def ucast_of_nat_up)
  next
    case 2
    have b: "\<not> 0xC0 + (of_nat n :: byte) < 0x80" "\<not> 0xC0 + (of_nat n :: byte) < 0xB8" "\<not> 0xC0 + (of_nat n :: byte) < 0xC0"
      "0xC0 + (of_nat n :: byte) < 0xF8" using tag_C0 [OF True] True by (simp_all add: word_less_nat_alt)
    show ?thesis unfolding h using 2 b rm True by (simp add: readKind_def ucast_of_nat_up)
  qed
next
  case False
  let ?p = "putint (of_nat n)"
  have s: "\<not> (of_nat n :: 64 word) < 56" using False assms(3) by (simp add: word_less_nat_alt unat_of_nat_small)
  have h: "puthead t l (of_nat n) = (l + of_nat (length ?p)) # ?p" using s by (simp add: puthead_def)
  have p: "1 \<le> length ?p" "length ?p \<le> 8" by (rule putint_bounds)+
  have rs: "readSize (?p @ r) (of_nat (length ?p)) = Inr (of_nat n)" by (rule readSize_putint [OF s])
  have rm: "\<not> (of_nat n :: 64 word) > of_nat (Suc (length ?p + length r)) - (1 + of_nat (length ?p))"
    using room_left [of "Suc (length ?p)" n "Suc (length ?p + length r)"] assms(1,2) by (simp add: h)
  have up: "(ucast (of_nat (length ?p) :: byte) :: 64 word) = of_nat (length ?p)" using p by (simp add: ucast_of_nat_up)
  consider "t = 0x80" "l = 0xB7" "k = String" | "t = 0xC0" "l = 0xF7" "k = List" using assms(4) by auto
  then show ?thesis
  proof cases
    case 1
    have b: "\<not> 0xB7 + (of_nat (length ?p) :: byte) < 0x80" "\<not> 0xB7 + (of_nat (length ?p) :: byte) < 0xB8"
      "0xB7 + (of_nat (length ?p) :: byte) < 0xC0" using tag_B7 [OF p(2)] p by (simp_all add: word_less_nat_alt Suc_le_eq)
    show ?thesis unfolding h using 1 b rs rm up by (simp add: readKind_def add.commute)
  next
    case 2
    have b: "\<not> 0xF7 + (of_nat (length ?p) :: byte) < 0x80" "\<not> 0xF7 + (of_nat (length ?p) :: byte) < 0xB8"
      "\<not> 0xF7 + (of_nat (length ?p) :: byte) < 0xC0" "\<not> 0xF7 + (of_nat (length ?p) :: byte) < 0xF8"
      using tag_F7 [OF p(2)] p by (simp_all add: word_less_nat_alt Suc_le_eq)
    show ?thesis unfolding h using 2 b rs rm up by (simp add: readKind_def add.commute)
  qed
qed

lemma readKind_str:
  assumes "length (str_enc b @ rest) < 2 ^ 63"
  shows "readKind (str_enc b @ rest) =
    Some (Inr (if length b = 1 \<and> b ! 0 \<le> 0x7F then Byte else String, of_nat (length (str_enc b) - length b), of_nat (length b)))"
proof (cases "length b = 1 \<and> b ! 0 \<le> 0x7F")
  case True
  then obtain x where b: "b = [x]" "x \<le> 0x7F" by (cases b) auto
  then have "x < 0x80" by (simp add: word_less_nat_alt word_le_nat_alt)
  moreover have "\<not> (of_nat (Suc (length rest)) - 0 :: 64 word) < 1"
    using room_left [of 0 1 "Suc (length rest)"] assms b by (simp add: str_enc_def)
  ultimately show ?thesis using b by (simp add: str_enc_def readKind_def)
next
  case False
  have "\<not> hd (b @ rest) < 0x80" if "length b = 1"
    using False that by (cases b) (auto simp: word_less_nat_alt word_le_nat_alt)
  moreover have e: "str_enc b = puthead 0x80 0xB7 (of_nat (length b)) @ b" using False by (simp only: str_enc_def if_not_P if_False)
  ultimately show ?thesis
    using readKind_head [of "0x80" "0xB7" "length b" "b @ rest" String] assms unfolding e if_not_P [OF False] by simp
qed

lemma readKind_list:
  assumes "length (list_enc c @ rest) < 2 ^ 63"
  shows "readKind (list_enc c @ rest) = Some (Inr (List, of_nat (length (list_enc c) - length c), of_nat (length c)))"
  using readKind_head [of "0xC0" "0xF7" "length c" "c @ rest" List] assms by (simp add: list_enc_def)

lemma Split_read:
  assumes "readKind (h @ c @ rest) = Some (Inr (k, of_nat (length h), of_nat (length c)))" "length (h @ c @ rest) < 2 ^ 63"
  shows "Split (h @ c @ rest) = Some (Inr (k, c, rest))"
proof -
  have "unat (of_nat (length h) + of_nat (length c) :: 64 word) = length h + length c"
    "unat (of_nat (length h) :: 64 word) = length h"
    using assms(2) unat_of_nat_small [of "length h + length c"] unat_of_nat_small [of "length h"] by simp_all
  moreover have "(of_nat (length h) :: 64 word) \<le> of_nat (length h) + of_nat (length c)"
    using assms(2) of_nat_le_small [of "length h" "length h + length c"] by simp
  ultimately show ?thesis using assms(1) by (simp add: Split_def)
qed

lemma Split_str:
  assumes "length (str_enc b @ rest) < 2 ^ 63"
  shows "\<exists>k. k \<noteq> List \<and> Split (str_enc b @ rest) = Some (Inr (k, b, rest))"
proof -
  obtain h where "str_enc b = h @ b" unfolding str_enc_def by (metis append_Nil)
  then show ?thesis using readKind_str [OF assms] assms Split_read [of h b rest] by (auto split: if_splits)
qed

lemma Split_list:
  assumes "length (list_enc c @ rest) < 2 ^ 63"
  shows "Split (list_enc c @ rest) = Some (Inr (List, c, rest))"
proof -
  obtain h where "list_enc c = h @ c" by (auto simp: list_enc_def)
  then show ?thesis using readKind_list [OF assms] assms Split_read [of h c rest List] by simp
qed

lemma SplitString_str: "length (str_enc b @ rest) < 2 ^ 63 \<Longrightarrow> SplitString (str_enc b @ rest) = Some (Inr (b, rest))"
  using Split_str [of b rest] by (auto simp: SplitString_def)

lemma SplitList_list: "length (list_enc c @ rest) < 2 ^ 63 \<Longrightarrow> SplitList (list_enc c @ rest) = Some (Inr (c, rest))"
  using Split_list [of c rest] by (simp add: SplitList_def)

text \<open>An encoding of one string or list, the unit that \<^verbatim>\<open>CountValues\<close> counts.\<close>

definition one_value :: "byte list \<Rightarrow> bool" where
  "one_value e \<longleftrightarrow> (\<exists>b. e = str_enc b) \<or> (\<exists>c. e = list_enc c)"

lemma readKind_one:
  assumes "one_value e" "length (e @ rest) < 2 ^ 63"
  shows "\<exists>k t s. readKind (e @ rest) = Some (Inr (k, t, s)) \<and> unat (t + s) = length e"
proof -
  have u: "unat (of_nat (l - n) + of_nat n :: 64 word) = l" if "n \<le> l" "l < 2 ^ 63" for l n
    using that unat_of_nat_small [of l] by (simp flip: of_nat_add)
  from assms(1) consider b where "e = str_enc b" | c where "e = list_enc c" by (auto simp: one_value_def)
  then show ?thesis
  proof cases
    case 1
    then show ?thesis using readKind_str [of b rest] assms(2) u [of "length b" "length e"] str_enc_length [of b] by simp
  next
    case 2
    then show ?thesis using readKind_list [of c rest] assms(2) u [of "length c" "length e"] list_enc_length [of c] by simp
  qed
qed

lemma one_value_nonempty: "one_value e \<Longrightarrow> e \<noteq> []"
  using str_enc_length by (fastforce simp: one_value_def str_enc_def list_enc_def puthead_def split: if_splits)

lemma CountValues_concat:
  assumes "list_all one_value es" "length (concat es) < 2 ^ 63"
  shows "CountValues (concat es) = Some (Inr (int (length es)))"
proof -
  have "CountValues_loop n (concat es) i = Some (Inr (i + int (length es)))" if "length (concat es) \<le> n" for n i
    using assms that
  proof (induction es arbitrary: n i)
    case (Cons e es)
    obtain m where m: "n = Suc m" using Cons.prems one_value_nonempty [of e] by (cases n) auto
    have "length (concat es) \<le> m" using Cons.prems one_value_nonempty [of e] m by (cases e) auto
    then show ?case
      using readKind_one [of e "concat es"] Cons one_value_nonempty [of e] m by auto
  next
    case Nil
    then show ?case by (cases n) simp_all
  qed
  then show ?thesis by (simp add: CountValues_def)
qed

lemma be_step: "push_bit 8 x OR ucast (b :: byte) = x * 256 + (ucast b :: 64 word)"
proof -
  have "push_bit 8 x AND ucast b = (0 :: 64 word)"
    by (rule bit_word_eqI) (auto simp: bit_and_iff bit_push_bit_iff bit_ucast_iff dest: bit_imp_le_length)
  then have "push_bit 8 x + ucast b = (push_bit 8 x OR ucast b :: 64 word)" by (rule disjunctive_add_eq_or)
  then show ?thesis by (simp add: push_bit_eq_mult)
qed

lemma be_get_unat:
  "length bs \<le> 8 \<Longrightarrow> unat (be_get bs) < 256 ^ length bs \<and> (bs \<noteq> [] \<longrightarrow> hd bs \<noteq> 0 \<longrightarrow> unat (be_get bs) \<noteq> 0)"
proof (induction bs rule: rev_induct)
  case (snoc b bs)
  then have IH: "unat (be_get bs) < 256 ^ length bs" "bs \<noteq> [] \<Longrightarrow> hd bs \<noteq> 0 \<Longrightarrow> unat (be_get bs) \<noteq> 0" by auto
  have b: "unat b < 256" using unsigned_less [of b, where 'a = nat] by simp
  have "(256 :: nat) ^ length bs \<le> 256 ^ 7" using snoc.prems by (intro power_increasing) simp_all
  then have "unat (be_get bs) * 256 + unat b < 2 ^ 64" using IH(1) b by simp
  then have u: "unat (be_get (bs @ [b])) = unat (be_get bs) * 256 + unat b"
    unfolding be_get_snoc be_step by (simp add: unat_word_ariths ucast_up mod_less)
  then have "unat (be_get (bs @ [b])) < 256 ^ length (bs @ [b])" using IH(1) b by simp
  moreover have "unat (be_get (bs @ [b])) \<noteq> 0" if "hd (bs @ [b]) \<noteq> 0"
    using that IH(2) u by (cases bs) (auto simp: word_unat_eq_iff)
  ultimately show ?case by blast
qed (simp add: be_get_def)

lemma putint_be_get:
  assumes "1 \<le> length bs" "length bs \<le> 8" "hd bs \<noteq> 0"
  shows "putint (be_get bs) = bs"
  using assms
proof (induction bs rule: rev_induct)
  case (snoc b bs)
  show ?case
  proof (cases bs)
    case Nil
    have "(ucast b :: 64 word) < 0x100" using unsigned_less [of b, where 'a = nat] by (simp add: word_less_nat_alt ucast_up)
    then show ?thesis using Nil by (simp add: be_get_def putint_small ucast_back)
  next
    case (Cons a as)
    then have IH: "putint (be_get bs) = bs" using snoc by simp
    have z: "unat (be_get bs) \<noteq> 0" "unat (be_get bs) < 256 ^ 7"
      using be_get_unat [of bs] snoc.prems Cons power_increasing [of "length bs" 7 "256 :: nat"] by auto
    have b: "unat b < 256" using unsigned_less [of b, where 'a = nat] by simp
    then have u: "unat (be_get (bs @ [b])) = unat (be_get bs) * 256 + unat b"
      unfolding be_get_snoc be_step using z by (simp add: unat_word_ariths ucast_up mod_less)
    have d: "drop_bit 8 (be_get (bs @ [b])) = be_get bs"
      using b u by (simp add: word_unat_eq_iff drop_bit_eq_div unat_div)
    have "unat (ucast (be_get (bs @ [b])) :: byte) = unat b"
      unfolding unsigned_ucast_eq using b u by (simp add: take_bit_eq_mod)
    then have l: "ucast (be_get (bs @ [b])) = b" by (simp add: word_unat_eq_iff)
    have "\<not> be_get (bs @ [b]) < 0x100" using u z by (simp add: word_less_nat_alt)
    then show ?thesis using d l IH by (subst putint_rec) simp
  qed
qed simp

lemma room_left_conv:
  assumes "\<not> s > (of_nat N - t :: 64 word)" "unat t \<le> N" "N < 2 ^ 63"
  shows "unat t + unat s \<le> N"
proof -
  have N: "unat (of_nat N :: 64 word) = N" by (rule unat_of_nat_small [OF assms(3)])
  have "t \<le> of_nat N" using assms(2) by (simp add: word_le_nat_alt N)
  then have "unat (of_nat N - t) = N - unat t" by (simp add: unat_sub N)
  then show ?thesis using assms(1,2) by (simp add: word_less_nat_alt not_less)
qed

lemma readSize_Inr:
  assumes "readSize b slen = Inr s"
  shows "unat slen \<le> length b" "1 \<le> unat slen" "unat slen \<le> 8" "putint s = take (unat slen) b" "\<not> s < 56"
proof -
  show 1: "unat slen \<le> length b" using assms by (auto simp: readSize_def split: if_splits)
  have 2: "1 \<le> slen \<and> slen \<le> 8 \<and> s = be_get (take (unat slen) b) \<and> b ! 0 \<noteq> 0 \<and> \<not> s < 56"
    using assms by (auto simp: readSize_def Let_def split: if_splits)
  then show l: "1 \<le> unat slen" "unat slen \<le> 8" "\<not> s < 56" by (auto simp: word_le_nat_alt)
  have "hd (take (unat slen) b) = b ! 0" using 1 l by (cases b; cases "unat slen") auto
  then show "putint s = take (unat slen) b" using putint_be_get [of "take (unat slen) b"] 1 2 l by simp
qed

lemma short_head:
  assumes "x = a + d" "unat (d :: byte) < 56"
  shows "puthead a l (ucast d) = [x]"
proof -
  have "(ucast d :: 64 word) < 56" using assms(2) by (simp add: word_less_nat_alt ucast_up)
  then show ?thesis using assms(1) by (simp add: puthead_def ucast_back)
qed

lemma long_head:
  assumes "x = a + d" "readSize bs d = Inr s"
  shows "puthead t a s = x # take (unat d) bs"
proof -
  note r = readSize_Inr [OF assms(2)]
  have "of_nat (length (putint s)) = d" using r(1) by (simp add: r(4))
  then show ?thesis using r(4,5) assms(1) by (simp add: puthead_def)
qed

text \<open>What \<^verbatim>\<open>readKind\<close> accepts: the five kinds of first byte.\<close>

lemma readKind_cases:
  assumes "readKind b = Some (Inr (k, t, s))"
  obtains x bs where "b = x # bs" "x < 0x80" "k = Byte" "t = 0" "s = 1"
  | x bs d where "b = x # bs" "x = 0x80 + d" "unat d < 56" "k = String" "t = 1" "s = ucast d" "unat d = 1 \<Longrightarrow> bs \<noteq> [] \<and> \<not> hd bs \<le> 0x7F"
  | x bs d where "b = x # bs" "x = 0xB7 + d" "readSize bs d = Inr s" "k = String" "t = ucast d + 1"
  | x bs d where "b = x # bs" "x = 0xC0 + d" "unat d < 56" "k = List" "t = 1" "s = ucast d"
  | x bs d where "b = x # bs" "x = 0xF7 + d" "readSize bs d = Inr s" "k = List" "t = ucast d + 1"
proof -
  obtain x bs where b: "b = x # bs" using assms by (cases b) (auto simp: readKind_def)
  note inv = assms [unfolded readKind_def b, simplified]
  consider (byte) "x < 0x80" | (short) "\<not> x < 0x80" "x < 0xB8" | (long) "\<not> x < 0x80" "\<not> x < 0xB8" "x < 0xC0"
    | (list) "\<not> x < 0x80" "\<not> x < 0xB8" "\<not> x < 0xC0" "x < 0xF8" | (longlist) "\<not> x < 0x80" "\<not> x < 0xB8" "\<not> x < 0xC0" "\<not> x < 0xF8" by blast
  then show ?thesis
  proof cases
    case byte
    then show ?thesis using inv b that(1) by (auto split: if_splits)
  next
    case short
    have "unat (x - 0x80) < 56" using short by (simp add: unat_sub not_less word_less_nat_alt word_le_nat_alt)
    moreover have "ucast (x - 0x80) = (1 :: 64 word) \<longleftrightarrow> unat (x - 0x80) = 1" by (simp add: word_unat_eq_iff ucast_up)
    moreover have "slice_at (x # bs) 1 = (if bs = [] then None else Some (hd bs))" by (cases bs) (auto simp: slice_at_def)
    moreover have "\<not> hd bs \<le> 0x7F \<longleftrightarrow> \<not> hd bs < 0x80" by (auto simp: word_less_nat_alt word_le_nat_alt)
    ultimately show ?thesis
      using inv short that(2) [OF b, of "x - 0x80"] by (auto simp: Let_def split: if_splits)
  next
    case long
    then show ?thesis
      using inv that(3) [OF b, of "x - 0xB7"] by (cases "readSize bs (x - 0xB7)") (auto split: if_splits)
  next
    case list
    have "unat (x - 0xC0) < 56" using list by (simp add: unat_sub not_less word_less_nat_alt word_le_nat_alt)
    then show ?thesis using inv list that(4) [OF b, of "x - 0xC0"] by (auto split: if_splits)
  next
    case longlist
    then show ?thesis
      using inv that(5) [OF b, of "x - 0xF7"] by (cases "readSize bs (x - 0xF7)") (auto split: if_splits)
  qed
qed

lemma readKind_room:
  assumes "readKind b = Some (Inr (k, t, s))"
  shows "\<not> s > of_nat (length b) - t"
  using assms by (auto simp: readKind_def Let_def bind_eq_Some_conv split: if_splits sum.splits)

lemma tagsize_long: "unat d \<le> 8 \<Longrightarrow> unat (ucast (d :: byte) + 1 :: 64 word) = unat d + 1"
  by (simp add: unat_word_ariths ucast_up)

lemma readKind_len:
  assumes "readKind b = Some (Inr (k, t, s))" "length b < 2 ^ 63"
  shows "unat t + unat s \<le> length b"
proof -
  have "unat t \<le> length b"
    using assms(1)
  proof (cases rule: readKind_cases)
    case (3 x bs d)
    then show ?thesis using readSize_Inr [OF 3(3)] by (simp add: tagsize_long)
  next
    case (5 x bs d)
    then show ?thesis using readSize_Inr [OF 5(3)] by (simp add: tagsize_long)
  qed auto
  then show ?thesis using room_left_conv [OF readKind_room [OF assms(1)] _ assms(2)] by blast
qed

text \<open>Every header that is accepted is the one the encoder writes.\<close>

lemma readKind_canonical:
  assumes r: "readKind b = Some (Inr (k, t, s))" and l: "length b < 2 ^ 63"
  shows "take (unat t + unat s) b = (if k = List then list_enc else str_enc) (take (unat s) (drop (unat t) b))"
proof -
  let ?c = "take (unat s) (drop (unat t) b)"
  have len: "unat t + unat s \<le> length b" by (rule readKind_len [OF r l])
  have c: "length ?c = unat s" using len by simp
  have split: "take (unat t + unat s) b = take (unat t) b @ ?c" by (rule take_add)
  from r show ?thesis
  proof (cases rule: readKind_cases)
    case (1 x bs)
    then have "x \<le> 0x7F" by (simp add: word_less_nat_alt word_le_nat_alt)
    then show ?thesis using 1 by (simp add: str_enc_def)
  next
    case (2 x bs d)
    have u: "unat s = unat d" using 2 by (simp add: ucast_up)
    have "\<not> (length ?c = 1 \<and> ?c ! 0 \<le> 0x7F)" using 2 c u by (cases bs) auto
    moreover have "puthead 0x80 0xB7 (of_nat (length ?c)) = [x]" using short_head [OF 2(2,3)] 2(6) c by simp
    ultimately have "str_enc ?c = [x] @ ?c" unfolding str_enc_def by (simp only: if_False)
    then show ?thesis using 2 split by simp
  next
    case (3 x bs d)
    note rs = readSize_Inr [OF 3(3)]
    have t: "unat t = unat d + 1" using 3(5) rs(3) by (simp add: tagsize_long)
    have "\<not> (length ?c = 1 \<and> ?c ! 0 \<le> 0x7F)" using c rs(5) by (auto simp: word_less_nat_alt)
    moreover have "puthead 0x80 0xB7 (of_nat (length ?c)) = take (unat t) b" using long_head [OF 3(2,3)] c t 3(1) by simp
    ultimately have "str_enc ?c = take (unat t) b @ ?c" unfolding str_enc_def by (simp only: if_False)
    then show ?thesis using 3(4) split by simp
  next
    case (4 x bs d)
    have "puthead 0xC0 0xF7 (of_nat (length ?c)) = [x]" using short_head [OF 4(2,3)] 4(6) c by simp
    then show ?thesis using 4 split by (simp add: list_enc_def)
  next
    case (5 x bs d)
    have t: "unat t = unat d + 1" using 5(5) readSize_Inr(3) [OF 5(3)] by (simp add: tagsize_long)
    have "puthead 0xC0 0xF7 (of_nat (length ?c)) = take (unat t) b" using long_head [OF 5(2,3)] c t 5(1) by simp
    then show ?thesis using 5(4) split by (simp add: list_enc_def)
  qed
qed

lemma Split_canonical:
  assumes "Split b = Some (Inr (k, c, rest))" "length b < 2 ^ 63"
  shows "b = (if k = List then list_enc c else str_enc c) @ rest"
proof -
  obtain y where y: "readKind b = Some y" using assms(1) by (cases "readKind b") (auto simp: Split_def)
  then obtain t s where r: "readKind b = Some (Inr (k, t, s))"
    and c: "c = take (unat (t + s) - unat t) (drop (unat t) b)" "rest = drop (unat (t + s)) b"
    using assms(1) by (cases y) (auto simp: Split_def split: if_splits prod.splits)
  have len: "unat t + unat s \<le> length b" by (rule readKind_len [OF r assms(2)])
  then have u: "unat (t + s) = unat t + unat s" using assms(2) by (simp add: unat_word_ariths)
  have "b = take (unat t + unat s) b @ rest" by (simp add: c(2) u)
  then show ?thesis using readKind_canonical [OF r assms(2)] c(1) by (simp add: u split: if_splits)
qed

section \<open>Properties of the splitting functions\<close>

text \<open>
  Claim C30. Splitting an encoded string or list followed by any bytes gives back its content and exactly those
  bytes, and counting the values of a sequence of encodings gives their number.
\<close>

theorem rlp_split_roundtrip:
  assumes "length (str_enc b @ rest) < 2 ^ 63" "length (list_enc c @ rest) < 2 ^ 63"
    and "list_all one_value es" "length (concat es) < 2 ^ 63"
  shows "SplitString (str_enc b @ rest) = Some (Inr (b, rest)) \<and>
    SplitList (list_enc c @ rest) = Some (Inr (c, rest)) \<and>
    CountValues (concat es) = Some (Inr (int (length es)))"
  using SplitString_str [OF assms(1)] SplitList_list [OF assms(2)] CountValues_concat [OF assms(3,4)] by blast

theorem rlp_split_roundtrip_witness:
  "SplitString (str_enc [1, 2] @ [9]) = Some (Inr ([1, 2], [9])) \<and> SplitList (list_enc [5] @ [9]) = Some (Inr ([5], [9])) \<and>
    CountValues (concat [str_enc [7], list_enc []]) = Some (Inr (int (length [str_enc [7], list_enc []])))"
proof (rule rlp_split_roundtrip)
  show "list_all one_value [str_enc [7], list_enc []]" by (auto simp: one_value_def)
qed (simp_all add: str_enc_def list_enc_def puthead_def)

text \<open>
  Claim C31. Splitting accepts only canonical encodings: whatever input it takes apart into content and rest
  is the encoding of that content followed by the rest.
\<close>

theorem rlp_split_canonical:
  assumes "Split b = Some (Inr (k, c, rest))" "length b < 2 ^ 63"
  shows "b = (if k = List then list_enc c else str_enc c) @ rest"
  by (rule Split_canonical [OF assms])

theorem rlp_split_canonical_witness:
  "\<exists>k c rest. Split [0x82, 4, 0, 7] = Some (Inr (k, c, rest)) \<and> [0x82, 4, 0, 7] = (if k = List then list_enc c else str_enc c) @ rest"
proof -
  have "Split [0x82, 4, 0, 7] = Some (Inr (String, [4, 0], [7]))"
    by (simp add: Split_def readKind_def slice_at_def)
  then show ?thesis using rlp_split_canonical [of "[0x82, 4, 0, 7]" String "[4, 0]" "[7]"] by auto
qed


end
