(* ===== verification/TrieEnc.thy ===== *)
theory TrieEnc
  imports RlpProps
begin

text \<open>
  The three encodings of trie keys, \<^verbatim>\<open>src/trie/encoding.go\<close>: key bytes, one byte per nibble with an optional
  terminator (hex), and the compact form of the database.  \<^term>\<open>None\<close> is an index panic.
\<close>

section \<open>The code\<close>

definition hasTerm :: "byte list \<Rightarrow> bool" where
  "hasTerm s \<longleftrightarrow> length s > 0 \<and> s ! (length s - 1) = 16"

fun decodeNibbles :: "byte list \<Rightarrow> byte list \<Rightarrow> byte list option" where
  "decodeNibbles [] bytes = Some bytes"
| "decodeNibbles (a # b # ns) (x # bytes) = map_option ((#) (push_bit 4 a OR b)) (decodeNibbles ns bytes)"
| "decodeNibbles _ _ = None"

definition hexToCompact :: "byte list \<Rightarrow> byte list option" where
  "hexToCompact hex = do {
     let (terminator, hex) = (if hasTerm hex then (1 :: byte, butlast hex) else (0, hex));
     let buf0 = push_bit 5 terminator;
     let n = length hex div 2;
     let (buf0, hex) = (if length hex mod 2 = 1 then ((buf0 OR push_bit 4 1) OR hd hex, tl hex) else (buf0, hex));
     map_option ((#) buf0) (decodeNibbles hex (replicate n 0))
   }"

definition keybytesToHex :: "byte list \<Rightarrow> byte list" where
  "keybytesToHex str = concat (map (\<lambda>b. [b div 16, b mod 16]) str) @ [16]"

text \<open>In Go \<^verbatim>\<open>&\<close> binds tighter than \<^verbatim>\<open>-\<close>.\<close>

definition compactToHex :: "byte list \<Rightarrow> byte list option" where
  "compactToHex compact = do {
     let base = butlast (keybytesToHex compact);
     b0 \<leftarrow> slice_at base 0;
     let base = (if b0 \<ge> 2 then base @ [16] else base);
     let chop = 2 - (b0 AND 1);
     Some (drop (unat chop) base)
   }"

definition hexToKeybytes :: "byte list \<Rightarrow> byte list option" where
  "hexToKeybytes hex =
     (let hex = (if hasTerm hex then butlast hex else hex)
      in if length hex mod 2 \<noteq> 0 then None else decodeNibbles hex (replicate ((length hex + 1) div 2) 0))"

fun prefixLen :: "byte list \<Rightarrow> byte list \<Rightarrow> nat" where
  "prefixLen (x # a) (y # b) = (if x \<noteq> y then 0 else Suc (prefixLen a b))"
| "prefixLen _ _ = 0"

section \<open>Lemmas\<close>

abbreviation nibbles :: "byte list \<Rightarrow> bool" where
  "nibbles k \<equiv> \<forall>x \<in> set k. x < 16"

lemma hasTerm_snoc [simp]: "hasTerm (k @ [16])"
  by (simp add: hasTerm_def)

lemma hasTerm_nibbles [simp]: "nibbles k \<Longrightarrow> \<not> hasTerm k"
  by (cases k rule: rev_cases) (auto simp: hasTerm_def nth_append)

lemma hasTerm_split: "hasTerm k \<Longrightarrow> k = butlast k @ [16]"
  by (cases k rule: rev_cases) (auto simp: hasTerm_def nth_append)

text \<open>Packing two nibbles into a byte and taking it apart.\<close>

lemma pack_unat:
  assumes "a < 16" "b < (16 :: byte)"
  shows "unat (push_bit 4 a OR b) = 16 * unat a + unat b"
proof -
  have "b = take_bit 4 b" using assms(2) by (simp add: word_unat_eq_iff unsigned_take_bit_eq take_bit_nat_eq_self word_less_nat_alt)
  then have "push_bit 4 a AND b = 0"
    by (intro bit_word_eqI) (simp add: bit_and_iff bit_push_bit_iff, metis bit_take_bit_iff not_less)
  then have "push_bit 4 a OR b = push_bit 4 a + b" by (rule disjunctive_add_eq_or [symmetric])
  also have "\<dots> = a * 16 + b" by (simp add: push_bit_eq_mult)
  finally show ?thesis using assms by (simp add: unat_word_ariths word_less_nat_alt)
qed

lemma unpack:
  assumes "a < 16" "b < (16 :: byte)"
  shows "(push_bit 4 a OR b) div 16 = a" "(push_bit 4 a OR b) mod 16 = b"
  using pack_unat [OF assms] assms by (simp_all add: word_unat_eq_iff unat_div unat_mod word_less_nat_alt)

lemma pack: "push_bit 4 (x div 16) OR (x mod 16) = (x :: byte)"
proof -
  have "unat x < 256" using unsigned_less [of x, where 'a = nat] by simp
  then have "x div 16 < 16" "x mod 16 < 16" by (simp_all add: word_less_nat_alt unat_div unat_mod div_less_iff_less_mult)
  from pack_unat [OF this] show ?thesis by (simp add: word_unat_eq_iff unat_div unat_mod)
qed

lemma nibbles_keybytes: "nibbles (concat (map (\<lambda>b. [b div 16, b mod 16]) str))"
proof -
  have "unat (x :: byte) div 16 < 16" for x using unsigned_less [of x, where 'a = nat] by (simp add: div_less_iff_less_mult)
  then show ?thesis by (auto simp: word_less_nat_alt unat_div unat_mod)
qed

lemma decodeNibbles_bytes:
  "decodeNibbles (concat (map (\<lambda>b. [b div 16, b mod 16]) str)) (replicate (length str) x) = Some str"
  by (induction str) (simp_all add: pack)

lemma decodeNibbles_unpack:
  assumes "nibbles k" "length k = 2 * n"
  shows "\<exists>bs. decodeNibbles k (replicate n x) = Some bs \<and> concat (map (\<lambda>b. [b div 16, b mod 16]) bs) = k"
  using assms
proof (induction n arbitrary: k)
  case (Suc n)
  obtain a b k' where k: "k = a # b # k'" "length k' = 2 * n" using Suc.prems(2) by (cases k; cases "tl k") auto
  then show ?case using Suc.IH [of k'] Suc.prems(1) by (auto simp: unpack)
qed simp

lemma prefixLen_le: "prefixLen a b \<le> length a" "prefixLen a b \<le> length b"
  by (induction a b rule: prefixLen.induct) auto

lemma prefixLen_take: "take (prefixLen a b) a = take (prefixLen a b) b"
  by (induction a b rule: prefixLen.induct) auto

lemma prefixLen_differ:
  "prefixLen a b < length a \<Longrightarrow> prefixLen a b < length b \<Longrightarrow> a ! prefixLen a b \<noteq> b ! prefixLen a b"
  by (induction a b rule: prefixLen.induct) (auto split: if_splits)

lemma prefixLen_whole: "prefixLen a b = length b \<longleftrightarrow> take (length b) a = b"
  by (induction a b rule: prefixLen.induct) auto

lemma compact_inverse:
  assumes "nibbles k" "t = [] \<or> t = [16]"
  shows "\<exists>c. hexToCompact (k @ t) = Some c \<and> compactToHex c = Some (k @ t) \<and> length c = length k div 2 + 1"
proof -
  let ?t = "if t = [] then 0 else 1 :: byte" and ?f = "if t = [] then 0 else 2 :: byte"
  have tm: "(if hasTerm (k @ t) then (1 :: byte, butlast (k @ t)) else (0, k @ t)) = (?t, k)"
    using assms by auto
  show ?thesis
  proof (cases "even (length k)")
    case True
    then obtain n where n: "length k = 2 * n" by blast
    obtain bs where bs: "decodeNibbles k (replicate n 0) = Some bs" "concat (map (\<lambda>b. [b div 16, b mod 16]) bs) = k"
      using decodeNibbles_unpack [OF assms(1) n] by blast
    have f: "push_bit 5 ?t = push_bit 4 ?f OR 0" by simp
    have u: "push_bit 5 ?t div 16 = ?f" "push_bit 5 ?t mod 16 = 0" unfolding f by (rule unpack; simp)+
    have "hexToCompact (k @ t) = Some (push_bit 5 ?t # bs)" using True bs n unfolding hexToCompact_def tm by simp
    moreover have "compactToHex (push_bit 5 ?t # bs) = Some (k @ t)"
      using bs(2) u assms(2) by (auto simp: compactToHex_def keybytesToHex_def slice_at_def butlast_append)
    moreover have "length bs = n" using arg_cong [OF bs(2), of length] n by (simp add: length_concat comp_def sum_list_triv)
    ultimately show ?thesis using n by simp
  next
    case False
    then obtain x k' where k: "k = x # k'" by (cases k) auto
    obtain n where n: "length k' = 2 * n" using False k by auto
    have "nibbles k'" using assms(1) k by simp
    then obtain bs where bs: "decodeNibbles k' (replicate n 0) = Some bs" "concat (map (\<lambda>b. [b div 16, b mod 16]) bs) = k'"
      using decodeNibbles_unpack n by blast
    let ?b = "(push_bit 5 ?t OR push_bit 4 1) OR x"
    have f: "?b = push_bit 4 (?f + 1) OR x" by simp
    have u: "?b div 16 = ?f + 1" "?b mod 16 = x" unfolding f by (rule unpack; use assms(1) k in simp)+
    have "hexToCompact (k @ t) = Some (?b # bs)" using k bs n unfolding hexToCompact_def tm by simp
    moreover have "compactToHex (?b # bs) = Some (k @ t)"
      using bs(2) u assms(2) k by (auto simp: compactToHex_def keybytesToHex_def slice_at_def butlast_append word_le_nat_alt Let_def)
    moreover have "length bs = n" using arg_cong [OF bs(2), of length] n by (simp add: length_concat comp_def sum_list_triv)
    ultimately show ?thesis using n k by simp
  qed
qed

section \<open>Properties\<close>

text \<open>
  Claim C34. The hex form of key bytes can be turned back, and it is a sequence of nibbles with one terminator
  at its end.
\<close>

theorem keybytes_roundtrip:
  "hexToKeybytes (keybytesToHex str) = Some str \<and> hasTerm (keybytesToHex str) \<and>
   list_all (\<lambda>x. x < 16) (butlast (keybytesToHex str)) \<and> length (keybytesToHex str) = 2 * length str + 1"
proof -
  have "length (concat (map (\<lambda>b. [b div 16, b mod 16]) str)) = 2 * length str" by (induction str) simp_all
  then show ?thesis
    using decodeNibbles_bytes [of str] nibbles_keybytes [of str] by (simp add: hexToKeybytes_def keybytesToHex_def list_all_iff)
qed

text \<open>
  Claim C35. The compact form keeps the key: for a sequence of nibbles of even or odd length, with or without the
  terminator, the conversion succeeds and is undone by its inverse.
\<close>

theorem compact_roundtrip:
  assumes "nibbles k" "t = [] \<or> t = [16]"
  shows "\<exists>c. hexToCompact (k @ t) = Some c \<and> compactToHex c = Some (k @ t) \<and> length c = length k div 2 + 1"
  using assms by (rule compact_inverse)

theorem compact_roundtrip_witness:
  "\<exists>c. hexToCompact ([1, 2, 3] @ [16]) = Some c \<and> compactToHex c = Some ([1, 2, 3] @ [16]) \<and> length c = length [1, 2, 3 :: byte] div 2 + 1"
  by (rule compact_roundtrip) simp_all

end
