(* ===== verification/TrieNode.thy ===== *)
theory TrieNode
  imports TrieEnc
begin

text \<open>
  The nodes of the trie and their database form, \<^verbatim>\<open>src/trie/node.go\<close>.  A \<^verbatim>\<open>node\<close> interface value that is nil is
  \<^term>\<open>None\<close>; the children of a full node are its array of 17.  Decoding works on the RLP of the
  database; it is \<^term>\<open>None\<close> where the code panics, and \<^term>\<open>Inl\<close> of an error where it returns one.
\<close>

record nodeFlag =
  fl_hash :: "byte list option"
  fl_gen :: "16 word"
  fl_dirty :: bool

datatype node = FullNode "node option list" nodeFlag | ShortNode "byte list" "node option" nodeFlag
  | HashNode "byte list" | ValueNode "byte list"

definition flag_canUnload :: "nodeFlag \<Rightarrow> 16 word \<Rightarrow> 16 word \<Rightarrow> bool" where
  "flag_canUnload f cachegen cachelimit \<longleftrightarrow> \<not> fl_dirty f \<and> cachegen - fl_gen f \<ge> cachelimit"

fun node_canUnload :: "node \<Rightarrow> 16 word \<Rightarrow> 16 word \<Rightarrow> bool" where
  "node_canUnload (FullNode cs f) gen limit = flag_canUnload f gen limit"
| "node_canUnload (ShortNode k v f) gen limit = flag_canUnload f gen limit"
| "node_canUnload (HashNode h) gen limit = False"
| "node_canUnload (ValueNode v) gen limit = False"

fun node_cache :: "node \<Rightarrow> byte list option \<times> bool" where
  "node_cache (FullNode cs f) = (fl_hash f, fl_dirty f)"
| "node_cache (ShortNode k v f) = (fl_hash f, fl_dirty f)"
| "node_cache (HashNode h) = (None, True)"
| "node_cache (ValueNode v) = (None, True)"

text \<open>What the RLP writers see of a node: a struct with the public fields \<^verbatim>\<open>Key\<close> and \<^verbatim>\<open>Val\<close>, the array \<^verbatim>\<open>Children\<close>, or bytes.\<close>

fun node_value :: "node \<Rightarrow> rlp_value" where
  "node_value (FullNode cs f) = VSlice False (map (\<lambda>c. case c of None \<Rightarrow> VNilInterface | Some n \<Rightarrow> node_value n) cs)"
| "node_value (ShortNode k v f) = VStruct [VBytes k, case v of None \<Rightarrow> VNilInterface | Some n \<Rightarrow> node_value n]"
| "node_value (HashNode h) = VBytes h"
| "node_value (ValueNode v) = VBytes v"

section \<open>Decoding\<close>

datatype decode_what = WEof | WRlp rlp_error | WDecode rlp_error | WCount int | WValue rlp_error | WOversized int | WRef int

text \<open>An error, and the error wrapped with the path to the child it came from.\<close>

datatype node_error = NodeErr decode_what | DecodeErr decode_what "string list"

fun wrapError :: "node_error \<Rightarrow> string \<Rightarrow> node_error" where
  "wrapError (DecodeErr w stack) ctx = DecodeErr w (stack @ [ctx])"
| "wrapError (NodeErr w) ctx = DecodeErr w [ctx]"

definition hashLen :: nat where
  "hashLen = 32"

type_synonym 'a decodes = "(node_error, 'a) result option"

text \<open>The functions below call each other; \<open>dn\<close> stands for \<^verbatim>\<open>decodeNode\<close> and \<open>dr\<close> for \<^verbatim>\<open>decodeRef\<close>.\<close>

definition decodeRef_with :: "(byte list \<Rightarrow> node decodes) \<Rightarrow> byte list \<Rightarrow> (node option \<times> byte list) decodes" where
  "decodeRef_with dn buf = do {
     r \<leftarrow> Split buf;
     (case r of
        Inl e \<Rightarrow> Some (Inl (NodeErr (WRlp e)))
      | Inr (kind, val, rest) \<Rightarrow>
          if kind = List then
            let sz = length buf - length rest
            in if sz > hashLen then Some (Inl (NodeErr (WOversized (int sz))))
               else map_option (map_sum id (\<lambda>n. (Some n, rest))) (dn buf)
          else if kind = String \<and> length val = 0 then Some (Inr (None, rest))
          else if kind = String \<and> length val = 32 then Some (Inr (Some (HashNode val), rest))
          else Some (Inl (NodeErr (WRef (int (length val))))))
   }"

definition decodeShort_with ::
    "(byte list \<Rightarrow> (node option \<times> byte list) decodes) \<Rightarrow> byte list option \<Rightarrow> byte list \<Rightarrow> 16 word \<Rightarrow> node decodes" where
  "decodeShort_with dr h elems cachegen = do {
     r \<leftarrow> SplitString elems;
     (case r of
        Inl e \<Rightarrow> Some (Inl (NodeErr (WRlp e)))
      | Inr (kbuf, rest) \<Rightarrow> do {
          let flag = \<lparr>fl_hash = h, fl_gen = cachegen, fl_dirty = False\<rparr>;
          key \<leftarrow> compactToHex kbuf;
          if hasTerm key then do {
            r \<leftarrow> SplitString rest;
            Some (case r of
                Inl e \<Rightarrow> Inl (NodeErr (WValue e))
              | Inr (val, _) \<Rightarrow> Inr (ShortNode key (Some (ValueNode val)) flag))
          } else do {
            r \<leftarrow> dr rest;
            Some (case r of
                Inl e \<Rightarrow> Inl (wrapError e ''val'')
              | Inr (v, _) \<Rightarrow> Inr (ShortNode key v flag))
          }
        })
   }"

text \<open>The loop over the sixteen children, from index \<open>i\<close> on.\<close>

fun decodeChildren :: "(byte list \<Rightarrow> (node option \<times> byte list) decodes) \<Rightarrow> nat list \<Rightarrow> byte list \<Rightarrow>
    (node option list \<times> byte list) decodes" where
  "decodeChildren dr [] elems = Some (Inr ([], elems))"
| "decodeChildren dr (i # is) elems = do {
     r \<leftarrow> dr elems;
     (case r of
        Inl e \<Rightarrow> Some (Inl (wrapError e (''['' @ utoa i @ '']'')))
      | Inr (cld, rest) \<Rightarrow> do {
          r \<leftarrow> decodeChildren dr is rest;
          Some (map_sum id (\<lambda>(cs, rest). (cld # cs, rest)) r)
        })
   }"

definition decodeFull_with ::
    "(byte list \<Rightarrow> (node option \<times> byte list) decodes) \<Rightarrow> byte list option \<Rightarrow> byte list \<Rightarrow> 16 word \<Rightarrow> node decodes" where
  "decodeFull_with dr h elems cachegen = do {
     r \<leftarrow> decodeChildren dr [0..<16] elems;
     (case r of
        Inl e \<Rightarrow> Some (Inl e)
      | Inr (cs, elems) \<Rightarrow> do {
          r \<leftarrow> SplitString elems;
          Some (case r of
              Inl e \<Rightarrow> Inl (NodeErr (WRlp e))
            | Inr (val, _) \<Rightarrow>
                Inr (FullNode (cs @ [if length val > 0 then Some (ValueNode val) else None])
                  \<lparr>fl_hash = h, fl_gen = cachegen, fl_dirty = False\<rparr>))
        })
   }"

text \<open>
  A nested node lies inside the list of its parent, so the length of the input bounds the depth of the
  recursion.  A failing \<^verbatim>\<open>CountValues\<close> counts as zero.
\<close>

fun decodeNode :: "nat \<Rightarrow> byte list option \<Rightarrow> byte list \<Rightarrow> 16 word \<Rightarrow> node decodes" where
  "decodeNode 0 h buf cachegen = None"
| "decodeNode (Suc n) h buf cachegen =
     (if length buf = 0 then Some (Inl (NodeErr WEof))
      else do {
        r \<leftarrow> SplitList buf;
        (case r of
           Inl e \<Rightarrow> Some (Inl (NodeErr (WDecode e)))
         | Inr (elems, _) \<Rightarrow> do {
             r \<leftarrow> CountValues elems;
             let c = (case r of Inl _ \<Rightarrow> 0 | Inr c \<Rightarrow> c);
             let dr = decodeRef_with (\<lambda>buf. decodeNode n None buf cachegen);
             if c = 2 then map_option (map_sum (\<lambda>e. wrapError e ''short'') id) (decodeShort_with dr h elems cachegen)
             else if c = 17 then map_option (map_sum (\<lambda>e. wrapError e ''full'') id) (decodeFull_with dr h elems cachegen)
             else Some (Inl (NodeErr (WCount c)))
           })
      })"

definition mustDecodeNode :: "byte list \<Rightarrow> byte list \<Rightarrow> 16 word \<Rightarrow> node option" where
  "mustDecodeNode h buf cachegen = do {
     r \<leftarrow> decodeNode (Suc (length buf)) (Some h) buf cachegen;
     (case r of Inl e \<Rightarrow> None | Inr n \<Rightarrow> Some n)
   }"

end
