(* ===== verification/MerkleTrie.thy ===== *)
theory MerkleTrie
  imports TrieNode
begin

text \<open>
  The Merkle Patricia trie, \<^verbatim>\<open>src/trie/trie.go\<close> and \<^verbatim>\<open>src/trie/hasher.go\<close>.

  The backing store is the parameter \<open>D\<close>: what \<^verbatim>\<open>Get\<close> and \<^verbatim>\<open>Put\<close> do to its state, the interface \<^verbatim>\<open>Database\<close>.
  The hash function \<open>K\<close> is a parameter as well.  A computation is \<^term>\<open>None\<close> where the code panics.
  Resolving a hash node may in principle lead back to the same node, so the recursive methods take fuel;
  the theorems show how much is enough.
\<close>

section \<open>The trie\<close>

record 'd Database =
  db_Get :: "byte list \<Rightarrow> 'd \<Rightarrow> (string, byte list option) result"
  db_Put :: "byte list \<Rightarrow> byte list \<Rightarrow> 'd \<Rightarrow> string option \<times> 'd"

record 'd Trie =
  root :: "node option"
  tr_db :: "'d option"
  originalRoot :: "byte list"
  cachegen :: "16 word"
  cachelimit :: "16 word"

datatype trie_error = MissingNodeError "byte list" "byte list" | PutError string

definition zeroHash :: "byte list" where
  "zeroHash = replicate 32 0"

definition emptyRoot :: "byte list" where
  "emptyRoot = [0x56, 0xe8, 0x1f, 0x17, 0x1b, 0xcc, 0x55, 0xa6, 0xff, 0x83, 0x45, 0xe6, 0x92, 0xc0, 0xf8, 0x6e,
     0x5b, 0x48, 0xe0, 0x1b, 0x99, 0x6c, 0xad, 0xc0, 0x01, 0x62, 0x2f, 0xb5, 0xe3, 0x63, 0xb4, 0x21]"

definition BytesToHash :: "byte list \<Rightarrow> byte list" where
  "BytesToHash b =
     (let b = (if length b > 32 then drop (length b - 32) b else b) in replicate (32 - length b) 0 @ b)"

definition SetCacheLimit :: "16 word \<Rightarrow> 'd Trie \<Rightarrow> 'd Trie" where
  "SetCacheLimit l t = t\<lparr>cachelimit := l\<rparr>"

definition newFlag :: "'d Trie \<Rightarrow> nodeFlag" where
  "newFlag t = \<lparr>fl_hash = None, fl_gen = cachegen t, fl_dirty = True\<rparr>"

text \<open>A nil database is a nil dereference; a node that cannot be decoded is a panic.\<close>

definition resolveHash :: "'d Database \<Rightarrow> 'd Trie \<Rightarrow> byte list \<Rightarrow> byte list \<Rightarrow> (trie_error, node) result option" where
  "resolveHash D t n prefix = do {
     db \<leftarrow> tr_db t;
     (case db_Get D n db of
        Inr (Some enc) \<Rightarrow> map_option Inr (mustDecodeNode n enc (cachegen t))
      | _ \<Rightarrow> Some (Inl (MissingNodeError (BytesToHash n) prefix)))
   }"

definition resolve :: "'d Database \<Rightarrow> 'd Trie \<Rightarrow> node option \<Rightarrow> byte list \<Rightarrow> (trie_error, node option) result option" where
  "resolve D t n prefix = (case n of
     Some (HashNode h) \<Rightarrow> map_option (map_sum id Some) (resolveHash D t h prefix)
   | _ \<Rightarrow> Some (Inr n))"

definition New :: "'d Database \<Rightarrow> byte list \<Rightarrow> 'd option \<Rightarrow> (trie_error, 'd Trie) result option" where
  "New D rt db =
     (let t = \<lparr>root = None, tr_db = db, originalRoot = rt, cachegen = 0, cachelimit = 0\<rparr>
      in if rt \<noteq> zeroHash \<and> rt \<noteq> emptyRoot then do {
           r \<leftarrow> resolveHash D t rt [];
           Some (case r of Inl e \<Rightarrow> Inl e | Inr rootnode \<Rightarrow> Inr (t\<lparr>root := Some rootnode\<rparr>))
         } else Some (Inr t))"

section \<open>Reading\<close>

text \<open>The results are the value, the node with what was loaded, whether anything was, and the error.\<close>

fun tryGet :: "'d Database \<Rightarrow> nat \<Rightarrow> 'd Trie \<Rightarrow> node option \<Rightarrow> byte list \<Rightarrow> nat \<Rightarrow>
    (byte list option \<times> node option \<times> bool \<times> trie_error option) option" where
  "tryGet D 0 t n key pos = None"
| "tryGet D (Suc fuel) t n key pos = (case n of
     None \<Rightarrow> Some (None, None, False, None)
   | Some (ValueNode v) \<Rightarrow> Some (Some v, n, False, None)
   | Some (ShortNode k v f) \<Rightarrow>
       if length key - pos < length k \<or> k \<noteq> take (length k) (drop pos key) then Some (None, n, False, None)
       else do {
         (value, newnode, didResolve, err) \<leftarrow> tryGet D fuel t v key (pos + length k);
         Some (value, if err = None \<and> didResolve then Some (ShortNode k newnode (f\<lparr>fl_gen := cachegen t\<rparr>)) else n, didResolve, err)
       }
   | Some (FullNode cs f) \<Rightarrow> do {
       i \<leftarrow> slice_at key (int pos);
       child \<leftarrow> slice_at cs (uint i);
       (value, newnode, didResolve, err) \<leftarrow> tryGet D fuel t child key (pos + 1);
       Some (value, if err = None \<and> didResolve then Some (FullNode (cs[unat i := newnode]) (f\<lparr>fl_gen := cachegen t\<rparr>)) else n, didResolve, err)
     }
   | Some (HashNode h) \<Rightarrow> do {
       r \<leftarrow> resolveHash D t h (take pos key);
       (case r of
          Inl e \<Rightarrow> Some (None, n, True, Some e)
        | Inr child \<Rightarrow> do {
            (value, newnode, _, err) \<leftarrow> tryGet D fuel t (Some child) key pos;
            Some (value, newnode, True, err)
          })
     })"

definition TryGet :: "'d Database \<Rightarrow> nat \<Rightarrow> byte list \<Rightarrow> ('d Trie, byte list option \<times> trie_error option) op" where
  "TryGet D fuel key t = do {
     (value, newroot, didResolve, err) \<leftarrow> tryGet D fuel t (root t) (keybytesToHex key) 0;
     Some ((value, err), if err = None \<and> didResolve then t\<lparr>root := newroot\<rparr> else t)
   }"

text \<open>\<^verbatim>\<open>Get\<close> logs the error and returns the value.\<close>

definition Trie_Get :: "'d Database \<Rightarrow> nat \<Rightarrow> byte list \<Rightarrow> ('d Trie, byte list option) op" where
  "Trie_Get D fuel key t = do { ((res, err), t) \<leftarrow> TryGet D fuel key t; Some (res, t) }"

section \<open>Writing\<close>

text \<open>
  The type assertion \<^verbatim>\<open>value.(valueNode)\<close> panics for another kind of node.
\<close>

fun trie_insert :: "'d Database \<Rightarrow> nat \<Rightarrow> 'd Trie \<Rightarrow> node option \<Rightarrow> byte list \<Rightarrow> byte list \<Rightarrow> node option \<Rightarrow>
    (bool \<times> node option \<times> trie_error option) option" where
  "trie_insert D 0 t n prefix key value = None"
| "trie_insert D (Suc fuel) t n prefix key value =
     (if length key = 0 then (case n of
          Some (ValueNode v) \<Rightarrow> (case value of Some (ValueNode w) \<Rightarrow> Some (v \<noteq> w, value, None) | _ \<Rightarrow> None)
        | _ \<Rightarrow> Some (True, value, None))
      else (case n of
          Some (ShortNode k v f) \<Rightarrow> do {
            let matchlen = prefixLen key k;
            if matchlen = length k then do {
              (dirty, nn, err) \<leftarrow> trie_insert D fuel t v (prefix @ take matchlen key) (drop matchlen key) value;
              Some (if \<not> dirty \<or> err \<noteq> None then (False, n, err) else (True, Some (ShortNode k nn (newFlag t)), None))
            } else do {
              let children = replicate 17 None;
              (_, c1, err) \<leftarrow> trie_insert D fuel t None (prefix @ take (matchlen + 1) k) (drop (matchlen + 1) k) v;
              i1 \<leftarrow> slice_at k (int matchlen);
              _ \<leftarrow> slice_at children (uint i1);
              let children = children[unat i1 := c1];
              if err \<noteq> None then Some (False, None, err)
              else do {
                (_, c2, err) \<leftarrow> trie_insert D fuel t None (prefix @ take (matchlen + 1) key) (drop (matchlen + 1) key) value;
                i2 \<leftarrow> slice_at key (int matchlen);
                _ \<leftarrow> slice_at children (uint i2);
                let children = children[unat i2 := c2];
                if err \<noteq> None then Some (False, None, err)
                else let branch = FullNode children (newFlag t)
                     in Some (True, Some (if matchlen = 0 then branch else ShortNode (take matchlen key) (Some branch) (newFlag t)), None)
              }
            }
          }
        | Some (FullNode cs f) \<Rightarrow> do {
            let i = hd key;
            child \<leftarrow> slice_at cs (uint i);
            (dirty, nn, err) \<leftarrow> trie_insert D fuel t child (prefix @ [i]) (tl key) value;
            Some (if \<not> dirty \<or> err \<noteq> None then (False, n, err) else (True, Some (FullNode (cs[unat i := nn]) (newFlag t)), None))
          }
        | None \<Rightarrow> Some (True, Some (ShortNode key value (newFlag t)), None)
        | Some (HashNode h) \<Rightarrow> do {
            r \<leftarrow> resolveHash D t h prefix;
            (case r of
               Inl e \<Rightarrow> Some (False, None, Some e)
             | Inr rn \<Rightarrow> do {
                 (dirty, nn, err) \<leftarrow> trie_insert D fuel t (Some rn) prefix key value;
                 Some (if \<not> dirty \<or> err \<noteq> None then (False, Some rn, err) else (True, nn, None))
               })
          }
        | Some (ValueNode v) \<Rightarrow> None))"

text \<open>The loop that looks for the single child left: its index, -1 for none, -2 for several.\<close>

fun single_child :: "node option list \<Rightarrow> int \<Rightarrow> int \<Rightarrow> int" where
  "single_child [] i pos = pos"
| "single_child (cld # cs) i pos =
     (if cld \<noteq> None then if pos = -1 then single_child cs (i + 1) i else -2
      else single_child cs (i + 1) pos)"

text \<open>What is left of a full node with one child: the code after the search for it.\<close>

definition collapse :: "'d Database \<Rightarrow> 'd Trie \<Rightarrow> byte list \<Rightarrow> node option list \<Rightarrow> int \<Rightarrow> (bool \<times> node option \<times> trie_error option) option" where
  "collapse D t prefix cs pos = do {
     let only = cs ! nat pos;
     r \<leftarrow> (if pos \<noteq> 16 then resolve D t only prefix else Some (Inr None));
     (case r of
        Inl e \<Rightarrow> Some (False, None, Some e)
      | Inr (Some (ShortNode ck cv cf)) \<Rightarrow> Some (True, Some (ShortNode (word_of_int pos # ck) cv (newFlag t)), None)
      | Inr _ \<Rightarrow> Some (True, Some (ShortNode [word_of_int pos] only (newFlag t)), None))
   }"

fun trie_delete :: "'d Database \<Rightarrow> nat \<Rightarrow> 'd Trie \<Rightarrow> node option \<Rightarrow> byte list \<Rightarrow> byte list \<Rightarrow>
    (bool \<times> node option \<times> trie_error option) option" where
  "trie_delete D 0 t n prefix key = None"
| "trie_delete D (Suc fuel) t n prefix key = (case n of
     Some (ShortNode k v f) \<Rightarrow>
       let matchlen = prefixLen key k
       in if matchlen < length k then Some (False, n, None)
          else if matchlen = length key then Some (True, None, None)
          else do {
            (dirty, child, err) \<leftarrow> trie_delete D fuel t v (prefix @ take (length k) key) (drop (length k) key);
            Some (if \<not> dirty \<or> err \<noteq> None then (False, n, err)
              else (case child of
                  Some (ShortNode ck cv cf) \<Rightarrow> (True, Some (ShortNode (k @ ck) cv (newFlag t)), None)
                | _ \<Rightarrow> (True, Some (ShortNode k child (newFlag t)), None)))
          }
   | Some (FullNode cs f) \<Rightarrow> do {
       i \<leftarrow> slice_at key 0;
       child \<leftarrow> slice_at cs (uint i);
       (dirty, nn, err) \<leftarrow> trie_delete D fuel t child (prefix @ [i]) (tl key);
       if \<not> dirty \<or> err \<noteq> None then Some (False, n, err)
       else
         let cs = cs[unat i := nn]; pos = single_child cs 0 (-1)
         in if pos \<ge> 0 then collapse D t prefix cs pos
            else Some (True, Some (FullNode cs (newFlag t)), None)
     }
   | Some (ValueNode v) \<Rightarrow> Some (True, None, None)
   | None \<Rightarrow> Some (False, None, None)
   | Some (HashNode h) \<Rightarrow> do {
       r \<leftarrow> resolveHash D t h prefix;
       (case r of
          Inl e \<Rightarrow> Some (False, None, Some e)
        | Inr rn \<Rightarrow> do {
            (dirty, nn, err) \<leftarrow> trie_delete D fuel t (Some rn) prefix key;
            Some (if \<not> dirty \<or> err \<noteq> None then (False, Some rn, err) else (True, nn, None))
          })
     })"

definition TryUpdate :: "'d Database \<Rightarrow> nat \<Rightarrow> byte list \<Rightarrow> byte list \<Rightarrow> ('d Trie, trie_error option) op" where
  "TryUpdate D fuel key value t = do {
     let k = keybytesToHex key;
     (_, n, err) \<leftarrow>
       (if length value \<noteq> 0 then trie_insert D fuel t (root t) [] k (Some (ValueNode value))
        else trie_delete D fuel t (root t) [] k);
     Some (if err \<noteq> None then (err, t) else (None, t\<lparr>root := n\<rparr>))
   }"

definition TryDelete :: "'d Database \<Rightarrow> nat \<Rightarrow> byte list \<Rightarrow> ('d Trie, trie_error option) op" where
  "TryDelete D fuel key t = do {
     (_, n, err) \<leftarrow> trie_delete D fuel t (root t) [] (keybytesToHex key);
     Some (if err \<noteq> None then (err, t) else (None, t\<lparr>root := n\<rparr>))
   }"

text \<open>\<^verbatim>\<open>Update\<close> and \<^verbatim>\<open>Delete\<close> log the error.\<close>

definition Trie_Update :: "'d Database \<Rightarrow> nat \<Rightarrow> byte list \<Rightarrow> byte list \<Rightarrow> ('d Trie, unit) op" where
  "Trie_Update D fuel key value t = do { (err, t) \<leftarrow> TryUpdate D fuel key value t; Some ((), t) }"

definition Trie_Delete :: "'d Database \<Rightarrow> nat \<Rightarrow> byte list \<Rightarrow> ('d Trie, unit) op" where
  "Trie_Delete D fuel key t = do { (err, t) \<leftarrow> TryDelete D fuel key t; Some ((), t) }"

end
