(* ===== verification/TrieWf.thy ===== *)
theory TrieWf
  imports MerkleTrie
begin

text \<open>
  What a trie holds and when it is well formed, whatever part of it is still in the database.  \<open>R\<close> resolves a
  hash to a node.  \<open>holds R n k v\<close> says that the value \<open>v\<close> sits at the end of the nibble path \<open>k\<close> below the node
  \<open>n\<close>.  A well-formed node is in minimal form: short nodes do not follow each other and full nodes have at
  least two children.
\<close>

section \<open>Contents\<close>

type_synonym resolver = "byte list \<Rightarrow> node option"

definition loads :: "'d Database \<Rightarrow> 'd Trie \<Rightarrow> resolver" where
  "loads D t h = (case tr_db t of
     None \<Rightarrow> None
   | Some db \<Rightarrow> (case db_Get D h db of Inr (Some enc) \<Rightarrow> mustDecodeNode h enc (cachegen t) | _ \<Rightarrow> None))"

inductive holds :: "resolver \<Rightarrow> node option \<Rightarrow> byte list \<Rightarrow> byte list \<Rightarrow> bool" for R where
  "holds R (Some (ValueNode v)) [] v"
| "holds R c k v \<Longrightarrow> holds R (Some (ShortNode sk c f)) (sk @ k) v"
| "unat i < length cs \<Longrightarrow> holds R (cs ! unat i) k v \<Longrightarrow> holds R (Some (FullNode cs f)) (i # k) v"
| "R h = Some n \<Longrightarrow> holds R (Some n) k v \<Longrightarrow> holds R (Some (HashNode h)) k v"

inductive_simps holds_simps [simp]:
  "holds R None k v"
  "holds R (Some (ValueNode w)) k v"
  "holds R (Some (ShortNode sk c f)) k v"
  "holds R (Some (FullNode cs f)) k v"
  "holds R (Some (HashNode h)) k v"

lemma holds_unique: "holds R n k v \<Longrightarrow> holds R n k w \<Longrightarrow> v = w"
  by (induction rule: holds.induct) auto

section \<open>Well-formed nodes\<close>

fun is_full :: "node \<Rightarrow> bool" where
  "is_full (FullNode cs f) = True" | "is_full _ = False"

fun is_hash :: "node \<Rightarrow> bool" where
  "is_hash (HashNode h) = True" | "is_hash _ = False"

fun branch :: "resolver \<Rightarrow> node \<Rightarrow> bool" where
  "branch R (HashNode h) = (case R h of Some n \<Rightarrow> is_full n | None \<Rightarrow> False)"
| "branch R n = is_full n"

definition occupied :: "node option list \<Rightarrow> nat" where
  "occupied cs = length (filter (\<lambda>c. c \<noteq> None) cs)"

definition value_slot :: "node option \<Rightarrow> bool" where
  "value_slot c \<longleftrightarrow> c = None \<or> (\<exists>v. v \<noteq> [] \<and> c = Some (ValueNode v))"

inductive wfn :: "resolver \<Rightarrow> node \<Rightarrow> bool" for R where
  leaf: "nibbles k \<Longrightarrow> v \<noteq> [] \<Longrightarrow> wfn R (ShortNode (k @ [16]) (Some (ValueNode v)) f)"
| ext: "nibbles k \<Longrightarrow> k \<noteq> [] \<Longrightarrow> wfn R n \<Longrightarrow> branch R n \<Longrightarrow> wfn R (ShortNode k (Some n) f)"
| full: "length cs = 17 \<Longrightarrow> (\<And>i n. i < 16 \<Longrightarrow> cs ! i = Some n \<Longrightarrow> wfn R n) \<Longrightarrow> value_slot (cs ! 16) \<Longrightarrow>
    2 \<le> occupied cs \<Longrightarrow> wfn R (FullNode cs f)"
| hash: "R h = Some n \<Longrightarrow> wfn R n \<Longrightarrow> \<not> is_hash n \<Longrightarrow> wfn R (HashNode h)"

inductive_cases wf_ShortE: "wfn R (ShortNode k c f)"
inductive_cases wf_FullE: "wfn R (FullNode cs f)"
inductive_cases wf_HashE: "wfn R (HashNode h)"
inductive_cases wf_ValueE [elim!]: "wfn R (ValueNode v)"

lemma wf_FullD:
  assumes "wfn R (FullNode cs f)"
  shows "length cs = 17" "i < 16 \<Longrightarrow> cs ! i = Some n \<Longrightarrow> wfn R n" "value_slot (cs ! 16)" "2 \<le> occupied cs"
  using assms by (auto elim: wf_FullE)

text \<open>A path into the trie, and the part of it that is still to go.\<close>

definition path :: "byte list \<Rightarrow> bool" where
  "path k \<longleftrightarrow> (\<exists>k'. k = k' @ [16] \<and> nibbles k')"

lemma path_Cons: "path (x # k) \<longleftrightarrow> (x = 16 \<and> k = []) \<or> (x < 16 \<and> path k)"
proof
  assume "path (x # k)"
  then obtain k' where k': "x # k = k' @ [16]" "nibbles k'" by (auto simp: path_def)
  then show "(x = 16 \<and> k = []) \<or> (x < 16 \<and> path k)" by (cases k') (auto simp: path_def)
next
  assume "(x = 16 \<and> k = []) \<or> (x < 16 \<and> path k)"
  then show "path (x # k)"
  proof
    assume "x < 16 \<and> path k"
    then obtain k' where "k = k' @ [16]" "nibbles k'" "x < 16" by (auto simp: path_def)
    then show ?thesis unfolding path_def by (intro exI [of _ "x # k'"]) auto
  qed (auto simp: path_def)
qed

lemma path_nonempty [simp]: "\<not> path []"
  by (simp add: path_def)

lemma path_append: "nibbles k \<Longrightarrow> path (k @ k') \<longleftrightarrow> path k'"
  by (induction k) (auto simp: path_Cons)

lemma path_keybytes: "path (keybytesToHex key)"
  using nibbles_keybytes by (auto simp: path_def keybytesToHex_def)

lemma path_prefix_eq: "path k \<Longrightarrow> path (k @ k') \<Longrightarrow> k' = []"
  by (induction k) (auto simp: path_Cons)

lemma child_index: "unat (i :: byte) < 17 \<longleftrightarrow> i < 16 \<or> i = 16"
  by (auto simp: word_unat_eq_iff word_less_nat_alt)

text \<open>Everything below a well-formed node is at a path.\<close>

lemma wf_paths:
  assumes "wfn R n" "holds R (Some n) k v"
  shows "path k" "v \<noteq> []"
proof -
  have "path k \<and> v \<noteq> []"
    using assms
  proof (induction arbitrary: k rule: wfn.induct)
    case (leaf ks w f)
    then show ?case by (auto simp: path_def)
  next
    case (ext ks n f)
    then show ?case by (auto simp: path_append)
  next
    case (full cs f)
    then obtain i k' where k: "k = i # k'" "unat i < 17" "holds R (cs ! unat i) k' v" by auto
    from k(2) consider "i < 16" | "i = 16" by (auto simp: child_index)
    then show ?case
    proof cases
      case 1
      then have "unat i < 16" by (simp add: word_less_nat_alt)
      then show ?thesis using k 1 full.IH [of "unat i"] by (cases "cs ! unat i") (auto simp: path_Cons)
    next
      case 2
      then show ?thesis using k full.hyps(3) by (auto simp: value_slot_def path_Cons)
    qed
  next
    case (hash h n)
    then show ?case by auto
  qed
  then show "path k" "v \<noteq> []" by blast+
qed

section \<open>Reading\<close>

lemma resolveHash_loads: "loads D t h = Some n \<Longrightarrow> resolveHash D t h p = Some (Inr n)"
  by (auto simp: loads_def resolveHash_def split: option.splits sum.splits)

text \<open>Enough fuel for a path below a node: every step but the loading of a node takes a nibble.\<close>

definition need :: "byte list \<Rightarrow> node \<Rightarrow> nat" where
  "need k n = 2 * length k + (if is_hash n then 2 else 1)"

lemma need_le: "need k n \<le> 2 * length k + 2"
  by (simp add: need_def)

text \<open>A node that stands for the same contents, with more of it loaded.\<close>

definition same_node :: "resolver \<Rightarrow> node \<Rightarrow> node \<Rightarrow> bool" where
  "same_node R n n' \<longleftrightarrow> wfn R n' \<and> (\<forall>k v. holds R (Some n') k v \<longleftrightarrow> holds R (Some n) k v) \<and> (branch R n \<longrightarrow> branch R n')"

lemma same_node_refl: "wfn R n \<Longrightarrow> same_node R n n"
  by (simp add: same_node_def)

lemma short_match:
  "\<not> (length key - pos < length k \<or> k \<noteq> take (length k) (drop pos key)) \<longleftrightarrow> (\<exists>k'. drop pos key = k @ k')"
proof -
  have "(\<exists>k'. drop pos key = k @ k') \<longleftrightarrow> take (length k) (drop pos key) = k"
    by (metis append_eq_conv_conj append_take_drop_id)
  moreover have "length k \<le> length key - pos" if "drop pos key = k @ k'" for k'
    using arg_cong [OF that, of length] by simp
  ultimately show ?thesis by (metis linorder_not_le)
qed

lemma slice_at_drop: "drop pos key = x # k \<Longrightarrow> slice_at key (int pos) = Some x"
  by (metis drop_eq_Nil hd_drop_conv_nth linorder_not_less list.distinct(1) list.sel(1) nat_int of_nat_0_le_iff of_nat_less_iff slice_at_def)

lemma same_node_Short:
  assumes "nibbles k" "k \<noteq> []" "branch R n" "same_node R n n'"
  shows "same_node R (ShortNode k (Some n) f) (ShortNode k (Some n') f')"
  using assms by (auto simp: same_node_def intro: wfn.ext)

lemma occupied_update:
  assumes "i < length cs"
  shows "occupied (cs[i := c]) + (if cs ! i \<noteq> None then 1 else 0) = occupied cs + (if c \<noteq> None then 1 else 0)"
proof -
  have cs: "cs = take i cs @ cs ! i # drop (Suc i) cs" by (rule id_take_nth_drop [OF assms])
  have "cs[i := c] = take i cs @ c # drop (Suc i) cs" by (rule upd_conv_take_nth_drop [OF assms])
  then have "occupied (cs[i := c]) = occupied (take i cs) + occupied [c] + occupied (drop (Suc i) cs)"
    by (simp add: occupied_def)
  moreover have "occupied cs = occupied (take i cs) + occupied [cs ! i] + occupied (drop (Suc i) cs)"
    by (subst cs) (simp add: occupied_def)
  ultimately show ?thesis by (simp add: occupied_def)
qed

lemma wf_Full_update:
  assumes "wfn R (FullNode cs f)" "i < 16" "wfn R n"
  shows "wfn R (FullNode (cs[i := Some n]) f')"
proof (rule wfn.full)
  note d = wf_FullD [OF assms(1)]
  show "2 \<le> occupied (cs[i := Some n])"
    using occupied_update [of i cs "Some n"] d(1,4) assms(2) by (auto split: if_splits)
  show "wfn R m" if "j < 16" "cs[i := Some n] ! j = Some m" for j m
    using that d(1,2) assms(2,3) by (cases "i = j") auto
  show "length (cs[i := Some n]) = 17" "value_slot (cs[i := Some n] ! 16)" using d assms(2) by auto
qed

lemma holds_Full_update:
  assumes "unat i < length cs" "length cs = 17"
  shows "holds R (Some (FullNode (cs[unat i := c]) f)) k v \<longleftrightarrow>
    (\<exists>j k'. k = j # k' \<and> unat j < 17 \<and> (if j = i then holds R c k' v else holds R (cs ! unat j) k' v))"
proof -
  have "unat i \<noteq> unat j \<longleftrightarrow> j \<noteq> i" for j by (auto simp: word_unat_eq_iff)
  then show ?thesis using assms by (auto simp: nth_list_update)
qed

lemma same_node_Full:
  assumes "wfn R (FullNode cs f)" "i < (16 :: byte)" "cs ! unat i = Some n" "same_node R n n'"
  shows "same_node R (FullNode cs f) (FullNode (cs[unat i := Some n']) f')"
proof -
  have l: "length cs = 17" "unat i < 16" using assms(1,2) by (simp_all add: wf_FullD word_less_nat_alt)
  have "holds R (Some (FullNode (cs[unat i := Some n']) f')) k v \<longleftrightarrow> holds R (Some (FullNode (cs[unat i := Some n]) f)) k v" for k v
    using l assms(4) by (simp only: holds_Full_update) (simp add: same_node_def)
  then have "holds R (Some (FullNode (cs[unat i := Some n']) f')) k v \<longleftrightarrow> holds R (Some (FullNode cs f)) k v" for k v
    using assms(3) by (metis list_update_id)
  moreover have "wfn R (FullNode (cs[unat i := Some n']) f')"
    using wf_Full_update [OF assms(1) l(2)] assms(4) by (simp add: same_node_def)
  ultimately show ?thesis by (simp add: same_node_def)
qed

lemma slice_at_child: "length cs = 17 \<Longrightarrow> unat i < 17 \<Longrightarrow> slice_at cs (uint i) = Some (cs ! unat i)"
  by (subst uint_nat) (simp add: slice_at_def del: of_nat_unat)

lemma fuel_Suc: "need k n \<le> fuel \<Longrightarrow> \<exists>fuel'. fuel = Suc fuel'"
  by (cases fuel) (auto simp: need_def split: if_splits)

text \<open>At the end of a path there is at most a value.\<close>

lemma tryGet_value:
  assumes "value_slot c"
  shows "\<exists>val. tryGet D (Suc fuel) t c key pos = Some (val, c, False, None) \<and> (\<forall>v. val = Some v \<longleftrightarrow> holds R c [] v)"
  using assms by (auto simp: value_slot_def)

lemma tryGet_full:
  "slice_at key (int pos) = Some i \<Longrightarrow> slice_at cs (uint i) = Some c \<Longrightarrow>
   tryGet D fuel t c key (Suc pos) = Some (val, n', b, None) \<Longrightarrow>
   tryGet D (Suc fuel) t (Some (FullNode cs f)) key pos =
     Some (val, if b then Some (FullNode (cs[unat i := n']) (f\<lparr>fl_gen := cachegen t\<rparr>)) else Some (FullNode cs f), b, None)"
  by simp

lemma two_Suc: "2 \<le> n \<Longrightarrow> \<exists>m. n = Suc (Suc m)"
  by (rule exI [of _ "n - 2"]) simp

lemma is_full_branch: "is_full n \<Longrightarrow> branch R n"
  by (cases n) auto

lemma tryGet_wf:
  assumes "wfn R n" "R = loads D t" "path (drop pos key)" "need (drop pos key) n \<le> fuel"
  shows "\<exists>val n' b. tryGet D fuel t (Some n) key pos = Some (val, Some n', b, None) \<and>
    (\<forall>v. val = Some v \<longleftrightarrow> holds R (Some n) (drop pos key) v) \<and> same_node R n n'"
  using assms(1,3,4)
proof (induction arbitrary: pos fuel rule: wfn.induct)
  case (leaf k v f)
  obtain x k' where x: "drop pos key = x # k'" using leaf.prems(1) by (cases "drop pos key") auto
  then have "2 \<le> fuel" using leaf.prems(2) by (simp add: need_def)
  then obtain fuel' where fuel: "fuel = Suc (Suc fuel')" using two_Suc by blast
  have p: "path (k @ [16])" using leaf.hyps(1) by (auto simp: path_def)
  have "(\<exists>k'. drop pos key = (k @ [16]) @ k') \<longleftrightarrow> drop pos key = k @ [16]"
    using path_prefix_eq [OF p] leaf.prems(1) by (metis append_Nil2)
  note m = short_match [of key pos "k @ [16]", unfolded this]
  show ?case
  proof (cases "drop pos key = k @ [16]")
    case True
    then show ?thesis using m same_node_refl [OF wfn.leaf [OF leaf.hyps]] by (simp add: fuel) auto
  next
    case False
    then show ?thesis using m same_node_refl [OF wfn.leaf [OF leaf.hyps]] by (simp add: fuel) auto
  qed
next
  case (ext k n f)
  obtain fuel' where fuel: "fuel = Suc fuel'" using ext.prems(2) fuel_Suc by blast
  show ?case
  proof (cases "\<exists>k'. drop pos key = k @ k'")
    case True
    then obtain k' where k': "drop pos key = k @ k'" by blast
    then have d: "drop (pos + length k) key = k'" by (metis add.commute append_eq_conv_conj drop_drop)
    have "path k'" using ext.prems(1) ext.hyps(1) k' by (simp add: path_append)
    moreover have "need k' n \<le> fuel'" using ext.prems(2) ext.hyps(2) k' fuel by (cases k) (auto simp: need_def)
    ultimately obtain val n' b where "tryGet D fuel' t (Some n) key (pos + length k) = Some (val, Some n', b, None)"
      "\<forall>v. val = Some v \<longleftrightarrow> holds R (Some n) k' v" "same_node R n n'"
      using ext.IH [of "pos + length k" fuel'] d by auto
    then show ?thesis
      using True k' short_match [of key pos k] same_node_Short [OF ext.hyps(1,2,4), of n' f] same_node_refl [OF wfn.ext [OF ext.hyps]]
      by (auto simp: fuel)
  qed (use short_match [of key pos k] ext.hyps same_node_refl [OF wfn.ext] in \<open>auto simp: fuel\<close>)
next
  case (full cs f)
  have w: "wfn R (FullNode cs f)" using full.hyps by (rule wfn.full)
  obtain x k where x: "drop pos key = x # k" using full.prems(1) by (cases "drop pos key") auto
  then have k: "drop (Suc pos) key = k" by (metis drop_Suc list.sel(3) tl_drop)
  have f: "2 * length k + 3 \<le> fuel" using full.prems(2) x by (simp add: need_def)
  then obtain fuel' where fuel: "fuel = Suc (Suc fuel')" using two_Suc [of fuel] by auto
  have "unat x < 17" using full.prems(1) x by (auto simp: path_Cons child_index)
  then have c: "slice_at cs (uint x) = Some (cs ! unat x)" using full.hyps(1) by (simp add: slice_at_child)
  consider "x = 16" "k = []" | "x < 16" "path k" "cs ! unat x = None" | n where "x < 16" "path k" "cs ! unat x = Some n"
    using full.prems(1) x by (cases "cs ! unat x") (auto simp: path_Cons)
  then show ?case
  proof cases
    case 1
    then show ?thesis
      using tryGet_value [OF full.hyps(3), of D fuel' t key "Suc pos" R] x c same_node_refl [OF w] slice_at_drop [OF x] full.hyps(1)
      by (auto simp: fuel)
  next
    case 2
    then show ?thesis using x c same_node_refl [OF w] slice_at_drop [OF x] full.hyps(1) by (auto simp: fuel)
  next
    case 3
    then have "unat x < 16" by (simp add: word_less_nat_alt)
    then obtain val n' b where "tryGet D (Suc fuel') t (Some n) key (Suc pos) = Some (val, Some n', b, None)"
      "\<forall>v. val = Some v \<longleftrightarrow> holds R (Some n) k v" "same_node R n n'"
      using full.IH [of "unat x" n "Suc pos" "Suc fuel'"] 3 k need_le [of k n] f fuel by auto
    then show ?thesis
      using x c same_node_refl [OF w] slice_at_drop [OF x] full.hyps(1) same_node_Full [OF w 3(1,3)] 3 \<open>unat x < 17\<close>
      unfolding fuel by (auto simp: tryGet_full simp del: tryGet.simps)
  qed
next
  case (hash h n)
  obtain fuel' where fuel: "fuel = Suc fuel'" using hash.prems(2) fuel_Suc by blast
  have "need (drop pos key) n \<le> fuel'" using hash.prems(2) hash.hyps(3) by (simp add: fuel need_def)
  then obtain val n' b where "tryGet D fuel' t (Some n) key pos = Some (val, Some n', b, None)"
    "\<forall>v. val = Some v \<longleftrightarrow> holds R (Some n) (drop pos key) v" "same_node R n n'"
    using hash.IH [OF hash.prems(1)] by blast
  moreover have "resolveHash D t h (take pos key) = Some (Inr n)" using hash.hyps(1) assms(2) by (simp add: resolveHash_loads)
  ultimately show ?case using hash.hyps by (auto simp: fuel same_node_def dest: is_full_branch [of _ R])
qed

end
