(* ===== verification/TrieInsert.thy ===== *)
theory TrieInsert
  imports TrieWf
begin

text \<open>
  Insertion into a well-formed trie: the new node is well formed, holds the value at the key, and holds what it held
  everywhere else.
\<close>

section \<open>Where two keys part\<close>

lemma prefix_split_aux:
  "(\<exists>s. a = b @ s \<and> prefixLen a b = length b) \<or> (\<exists>s. s \<noteq> [] \<and> b = a @ s) \<or>
   (\<exists>p x s y s'. b = p @ x # s \<and> a = p @ y # s' \<and> x \<noteq> y \<and> prefixLen a b = length p)"
proof (induction a b rule: prefixLen.induct)
  case (1 x a y b)
  show ?case
  proof (cases "x = y")
    case True
    then consider s where "a = b @ s" "prefixLen a b = length b" | s where "s \<noteq> []" "b = a @ s"
      | p u s w s' where "b = p @ u # s" "a = p @ w # s'" "u \<noteq> w" "prefixLen a b = length p"
      using 1 by blast
    then show ?thesis
    proof cases
      case 3
      then have "y # b = (y # p) @ u # s" "x # a = (y # p) @ w # s'" "prefixLen (x # a) (y # b) = length (y # p)"
        using True by auto
      then show ?thesis using 3(3) by blast
    qed (use True in auto)
  next
    case False
    then have "y # b = [] @ y # b" "x # a = [] @ x # a" "y \<noteq> x" "prefixLen (x # a) (y # b) = length []" by auto
    then show ?thesis by blast
  qed
qed auto

lemma wf_Short_cases:
  assumes "wfn R (ShortNode sk c f)"
  obtains (leaf) k v where "sk = k @ [16]" "c = Some (ValueNode v)" "nibbles k" "v \<noteq> []"
    | (ext) n where "c = Some n" "nibbles sk" "sk \<noteq> []" "wfn R n" "branch R n"
  using assms by (auto elim: wf_ShortE)

text \<open>A path against the key of a well-formed short node.\<close>

lemma short_key:
  assumes "wfn R (ShortNode sk c f)" "path key"
  obtains (whole) s where "key = sk @ s" "prefixLen key sk = length sk"
    | (differ) p x s y s' where "sk = p @ x # s" "key = p @ y # s'" "x \<noteq> y" "prefixLen key sk = length p"
proof -
  have "path sk \<or> nibbles sk" using assms(1) by (auto elim: wf_ShortE simp: path_def)
  then have "\<not> (\<exists>s. s \<noteq> [] \<and> sk = key @ s)"
    using assms(2) path_prefix_eq [OF assms(2)] by (fastforce simp: path_def)
  then show ?thesis using prefix_split_aux [of key sk] that by metis
qed

section \<open>The rest of a short node\<close>

definition tail_node :: "'d Trie \<Rightarrow> byte list \<Rightarrow> node option \<Rightarrow> node option" where
  "tail_node t k c = (if k = [] then c else Some (ShortNode k c (newFlag t)))"

definition slot :: "resolver \<Rightarrow> byte \<Rightarrow> node option \<Rightarrow> bool" where
  "slot R i c \<longleftrightarrow> (if i < 16 then \<forall>n. c = Some n \<longrightarrow> wfn R n else i = 16 \<and> value_slot c)"

lemma insert_None: "trie_insert D (Suc fuel) t None prefix key value = Some (True, tail_node t key value, None)"
  by (simp add: tail_node_def)

lemma holds_tail [simp]: "holds R (tail_node t s c) k v \<longleftrightarrow> (\<exists>k'. k = s @ k' \<and> holds R c k' v)"
  by (auto simp: tail_node_def)

lemma tail_slot:
  assumes "wfn R (ShortNode sk c f)" "sk = p @ x # s"
  shows "slot R x (tail_node t s c)" "tail_node t s c \<noteq> None" "nibbles p"
proof -
  have "slot R x (tail_node t s c) \<and> tail_node t s c \<noteq> None \<and> nibbles p"
    using assms(1)
  proof (cases rule: wf_Short_cases)
    case (leaf k v)
    then have "p @ x # s = k @ [16]" using assms(2) by simp
    then consider "s = []" "x = 16" "p = k" | s' where "s = s' @ [16]" "k = p @ x # s'"
      by (cases s rule: rev_cases) auto
    then show ?thesis
      using leaf by cases (auto simp: slot_def tail_node_def value_slot_def intro: wfn.leaf)
  next
    case (ext n)
    then show ?thesis using assms(2) by (auto simp: slot_def tail_node_def intro: wfn.ext)
  qed
  then show "slot R x (tail_node t s c)" "tail_node t s c \<noteq> None" "nibbles p" by blast+
qed

lemma slot_index: "slot R i c \<Longrightarrow> unat i < 17"
  by (auto simp: slot_def child_index split: if_splits)

lemma wf_Full_slots:
  "wfn R (FullNode cs f) \<longleftrightarrow> length cs = 17 \<and> (\<forall>i. unat i < 17 \<longrightarrow> slot R i (cs ! unat i)) \<and> 2 \<le> occupied cs"
proof
  assume w: "wfn R (FullNode cs f)"
  note d = wf_FullD [OF w]
  have "slot R i (cs ! unat i)" if "unat i < 17" for i
    using that d(2) [of "unat i"] d(3) by (auto simp: slot_def child_index word_less_nat_alt)
  then show "length cs = 17 \<and> (\<forall>i. unat i < 17 \<longrightarrow> slot R i (cs ! unat i)) \<and> 2 \<le> occupied cs" using d by blast
next
  assume a: "length cs = 17 \<and> (\<forall>i. unat i < 17 \<longrightarrow> slot R i (cs ! unat i)) \<and> 2 \<le> occupied cs"
  have "wfn R n" if "i < 16" "cs ! i = Some n" for i n
  proof -
    have "unat (of_nat i :: byte) = i" using that(1) by (simp add: unsigned_of_nat take_bit_nat_eq_self)
    moreover have "of_nat i < (16 :: byte)" using that(1) calculation by (simp add: word_less_nat_alt)
    ultimately show ?thesis using a that spec [OF a [THEN conjunct2, THEN conjunct1], of "of_nat i"] by (simp add: slot_def)
  qed
  moreover have "value_slot (cs ! 16)" using spec [OF a [THEN conjunct2, THEN conjunct1], of 16] by (simp add: slot_def)
  ultimately show "wfn R (FullNode cs f)" using a by (intro wfn.full) auto
qed

section \<open>Forking a short node\<close>

lemma unat_eq: "unat (x :: byte) = unat y \<longleftrightarrow> x = y"
  by (simp add: word_unat_eq_iff)

lemma slot_None [simp]: "unat i < 17 \<Longrightarrow> slot R i None"
  by (auto simp: slot_def value_slot_def child_index)

definition fork_children :: "byte \<Rightarrow> node option \<Rightarrow> byte \<Rightarrow> node option \<Rightarrow> node option list" where
  "fork_children x c1 y c2 = (replicate 17 None)[unat x := c1, unat y := c2]"

lemma fork_nth:
  assumes "unat x < 17" "unat y < 17" "unat i < 17"
  shows "fork_children x c1 y c2 ! unat i = (if i = y then c2 else if i = x then c1 else None)"
  using assms by (auto simp: fork_children_def nth_list_update unat_eq)

lemma wf_fork:
  assumes "x \<noteq> y" "slot R x c1" "slot R y c2" "c1 \<noteq> None" "c2 \<noteq> None"
  shows "wfn R (FullNode (fork_children x c1 y c2) f)"
proof -
  have i: "unat x < 17" "unat y < 17" using assms by (auto intro: slot_index)
  have "occupied (replicate 17 None) = 0" by (simp add: occupied_def)
  then have "occupied ((replicate 17 None)[unat x := c1]) = 1"
    using occupied_update [of "unat x" "replicate 17 None" c1] i assms(4) by simp
  then have "occupied (fork_children x c1 y c2) = 2"
    using occupied_update [of "unat y" "(replicate 17 None)[unat x := c1]" c2] i assms(1,5)
    by (simp add: fork_children_def nth_list_update unat_eq)
  moreover have "length (fork_children x c1 y c2) = 17" by (simp add: fork_children_def)
  ultimately show ?thesis using fork_nth [OF i] assms by (simp add: wf_Full_slots)
qed

lemma holds_fork:
  assumes "x \<noteq> y" "unat x < 17" "unat y < 17"
  shows "holds R (Some (FullNode (fork_children x c1 y c2) f)) k v \<longleftrightarrow>
    (\<exists>k'. k = x # k' \<and> holds R c1 k' v \<or> k = y # k' \<and> holds R c2 k' v)"
proof -
  have l: "length (fork_children x c1 y c2) = 17" by (simp add: fork_children_def)
  show ?thesis using fork_nth [OF assms(2,3)] assms by (cases k) (auto simp: l split: if_splits)
qed

section \<open>Insertion\<close>

text \<open>The node \<open>n'\<close> holds \<open>v\<close> at \<open>key\<close>, and elsewhere what \<open>n\<close> holds.\<close>

definition adds :: "resolver \<Rightarrow> node option \<Rightarrow> byte list \<Rightarrow> byte list \<Rightarrow> node option \<Rightarrow> bool" where
  "adds R n key v n' \<longleftrightarrow> (\<forall>k w. holds R n' k w \<longleftrightarrow> (if k = key then w = v else holds R n k w))"

lemma adds_same: "holds R n key v \<Longrightarrow> adds R n key v n"
  using holds_unique by (fastforce simp: adds_def)

lemma adds_None: "adds R None key v (tail_node t key (Some (ValueNode v)))"
  by (auto simp: adds_def)

lemma adds_Short:
  "adds R c key v c' \<Longrightarrow> adds R (Some (ShortNode sk c f)) (sk @ key) v (Some (ShortNode sk c' f'))"
  by (auto simp: adds_def)

lemma adds_Full:
  assumes "adds R (cs ! unat i) key v c" "unat i < 17" "length cs = 17"
  shows "adds R (Some (FullNode cs f)) (i # key) v (Some (FullNode (cs[unat i := c]) f'))"
proof -
  have "holds R (Some (FullNode (cs[unat i := c]) f')) k w \<longleftrightarrow>
      (if k = i # key then w = v else holds R (Some (FullNode cs f)) k w)" for k w
    using assms by (cases k) (auto simp: adds_def nth_list_update unat_eq)
  then show ?thesis by (simp add: adds_def)
qed

lemma wf_leaf_path: "path key \<Longrightarrow> v \<noteq> [] \<Longrightarrow> wfn R (ShortNode key (Some (ValueNode v)) f)"
  by (auto simp: path_def intro: wfn.leaf)

lemma insert_differ_eq:
  assumes "sk = p @ x # s" "key = p @ y # s'" "prefixLen key sk = length p" "unat x < 17" "unat y < 17"
  shows "trie_insert D (Suc (Suc fuel)) t (Some (ShortNode sk c f)) prefix key value =
    Some (True, tail_node t p (Some (FullNode (fork_children x (tail_node t s c) y (tail_node t s' value)) (newFlag t))), None)"
proof -
  have "length p \<noteq> length sk" using assms(1) by simp
  moreover have "slice_at sk (int (length p)) = Some x" "slice_at key (int (length p)) = Some y"
    by (simp_all add: assms(1,2) slice_at_def)
  moreover have "slice_at (replicate 17 None) (uint x) = Some (None :: node option)"
    "slice_at ((replicate 17 None)[unat x := c1]) (uint y) = Some ((replicate 17 None)[unat x := c1] ! unat y)"
    for c1 :: "node option" using assms(4,5) by (simp_all add: slice_at_child)
  moreover have "drop (length p + 1) sk = s" "drop (length p + 1) key = s'" "take (length p) key = p"
    by (simp_all add: assms(1,2))
  moreover have "length key \<noteq> 0" by (simp add: assms(2))
  ultimately show ?thesis
    unfolding trie_insert.simps(2) [of D "Suc fuel"] insert_None Let_def using assms(3)
    by (simp del: trie_insert.simps) (simp add: tail_node_def fork_children_def)
qed

lemma insert_differ:
  assumes "wfn R (ShortNode sk c f)" "path key" "v \<noteq> []"
    and k: "sk = p @ x # s" "key = p @ y # s'" "x \<noteq> y" "prefixLen key sk = length p"
  shows "\<exists>n'. trie_insert D (Suc (Suc fuel)) t (Some (ShortNode sk c f)) prefix key (Some (ValueNode v)) = Some (True, Some n', None) \<and>
    wfn R n' \<and> adds R (Some (ShortNode sk c f)) key v (Some n')"
proof -
  let ?c1 = "tail_node t s c" and ?c2 = "tail_node t s' (Some (ValueNode v))"
  let ?b = "FullNode (fork_children x ?c1 y ?c2) (newFlag t)"
  note t1 = tail_slot(1,2) [OF assms(1) k(1), where t = t]
  note t2 = tail_slot(1,2) [OF wf_leaf_path [OF assms(2,3)] k(2), where t = t]
  have i: "unat x < 17" "unat y < 17" using t1 t2 by (auto intro: slot_index)
  have "wfn R ?b" by (rule wf_fork [OF k(3) t1(1) t2(1) t1(2) t2(2)])
  then have "\<exists>n'. tail_node t p (Some ?b) = Some n' \<and> wfn R n'" using tail_slot(3) [OF assms(1) k(1)] by (auto simp: tail_node_def intro: wfn.ext)
  moreover have "adds R (Some (ShortNode sk c f)) key v (tail_node t p (Some ?b))"
    using k(3) by (auto simp: adds_def holds_fork [OF k(3) i] k(1,2) simp del: holds_simps(4))
  ultimately show ?thesis using insert_differ_eq [OF k(1,2,4) i, of D fuel t c f prefix "Some (ValueNode v)"] by auto
qed

lemma insert_value:
  "value_slot c \<Longrightarrow> \<exists>d. trie_insert D (Suc fuel) t c prefix [] (Some (ValueNode v)) = Some (d, Some (ValueNode v), None) \<and>
     (\<not> d \<longrightarrow> holds R c [] v) \<and> adds R c [] v (Some (ValueNode v))"
  by (auto simp: value_slot_def adds_def)

text \<open>The result of an insertion below a node that is there.\<close>

definition inserted :: "resolver \<Rightarrow> node \<Rightarrow> byte list \<Rightarrow> byte list \<Rightarrow> bool \<times> node option \<times> trie_error option \<Rightarrow> bool" where
  "inserted R n key v r \<longleftrightarrow> (\<exists>d n'. r = (d, Some n', None) \<and> wfn R n' \<and> (branch R n \<longrightarrow> branch R n') \<and>
     (\<not> d \<longrightarrow> holds R (Some n) key v) \<and> adds R (Some n) key v (Some n'))"

lemma inserted_same:
  assumes "wfn R n'" "branch R n \<longrightarrow> branch R n'" "\<forall>k v. holds R (Some n') k v \<longleftrightarrow> holds R (Some n) k v" "holds R (Some n) key v"
  shows "inserted R n key v (False, Some n', None)"
proof -
  have "adds R (Some n') key v (Some n')" using assms(3,4) by (simp add: adds_same)
  then have "adds R (Some n) key v (Some n')" using assms(3) unfolding adds_def by metis
  then show ?thesis using assms by (simp add: inserted_def) blast
qed

lemma insert_leaf:
  assumes "nibbles k" "w \<noteq> []" "path key" "v \<noteq> []"
  shows "\<exists>r. trie_insert D (Suc (Suc fuel)) t (Some (ShortNode (k @ [16]) (Some (ValueNode w)) f)) prefix key (Some (ValueNode v)) = Some r \<and>
    inserted R (ShortNode (k @ [16]) (Some (ValueNode w)) f) key v r"
proof -
  have wf: "wfn R (ShortNode (k @ [16]) (Some (ValueNode w)) f)" using assms by (intro wfn.leaf) auto
  show ?thesis
    using wf assms(3)
  proof (cases rule: short_key)
    case (whole s)
    have "path (k @ [16])" using assms(1) by (auto simp: path_def)
    then have "s = []" using path_prefix_eq whole(1) assms(3) by blast
    then have k: "key = k @ [16]" "prefixLen key (k @ [16]) = Suc (length k)" using whole by auto
    have "adds R (Some (ShortNode (k @ [16]) (Some (ValueNode w)) f)) key v (Some (ShortNode (k @ [16]) (Some (ValueNode v)) f'))" for f'
      using adds_Short [of R "Some (ValueNode w)" "[]" v "Some (ValueNode v)" "k @ [16]" f f'] k(1) by (simp add: adds_def)
    then show ?thesis
      using k wf assms(1,4) by (auto simp: inserted_def adds_same intro: wfn.leaf)
  next
    case (differ p x s y s')
    then show ?thesis using insert_differ [OF wf assms(3,4) differ, of D fuel t prefix] by (auto simp: inserted_def)
  qed
qed

lemma insert_ext:
  assumes n: "nibbles k" "k \<noteq> []" "wfn R n" "branch R n" and key: "path key" "v \<noteq> []"
    and IH: "\<And>s prefix. path s \<Longrightarrow> length s < length key \<Longrightarrow>
      \<exists>r. trie_insert D (Suc fuel) t (Some n) prefix s (Some (ValueNode v)) = Some r \<and> inserted R n s v r"
  shows "\<exists>r. trie_insert D (Suc (Suc fuel)) t (Some (ShortNode k (Some n) f)) prefix key (Some (ValueNode v)) = Some r \<and>
    inserted R (ShortNode k (Some n) f) key v r"
proof -
  have wf: "wfn R (ShortNode k (Some n) f)" using n by (rule wfn.ext)
  show ?thesis
    using wf key(1)
  proof (cases rule: short_key)
    case (whole s)
    have "path s" "length s < length key" using key(1) n(1,2) whole(1) by (simp_all add: path_append)
    then obtain d n' where r: "trie_insert D (Suc fuel) t (Some n) (prefix @ take (length k) key) s (Some (ValueNode v)) = Some (d, Some n', None)"
      "wfn R n'" "branch R n'" "\<not> d \<longrightarrow> holds R (Some n) s v" "adds R (Some n) s v (Some n')"
      using IH [of s "prefix @ take (length k) key"] n(4) by (auto simp: inserted_def)
    have "trie_insert D (Suc (Suc fuel)) t (Some (ShortNode k (Some n) f)) prefix key (Some (ValueNode v)) =
        Some (if d then (True, Some (ShortNode k (Some n') (newFlag t)), None) else (False, Some (ShortNode k (Some n) f), None))"
      using whole r(1) key(1) n(2) unfolding trie_insert.simps(2) [of D "Suc fuel"] by (auto simp del: trie_insert.simps)
    moreover have "inserted R (ShortNode k (Some n) f) key v (True, Some (ShortNode k (Some n') (newFlag t)), None)"
      using r(2,3,5) n(1,2) whole(1) adds_Short [OF r(5), of k f "newFlag t"] by (auto simp: inserted_def intro: wfn.ext)
    moreover have "inserted R (ShortNode k (Some n) f) key v (False, Some (ShortNode k (Some n) f), None)" if "\<not> d"
      using wf that r(4) whole(1) by (intro inserted_same) auto
    ultimately show ?thesis by auto
  next
    case (differ p x s y s')
    then show ?thesis using insert_differ [OF wf key differ, of D fuel t prefix] by (auto simp: inserted_def)
  qed
qed

lemma wf_Full_slot_update:
  assumes "wfn R (FullNode cs f)" "slot R i c" "c \<noteq> None"
  shows "wfn R (FullNode (cs[unat i := c]) f')"
  using assms occupied_update [of "unat i" cs c] slot_index [OF assms(2)]
  by (auto simp: wf_Full_slots nth_list_update unat_eq split: if_splits)

lemma insert_full:
  assumes n: "wfn R (FullNode cs f)" and key: "path (x # k)"
    and c: "trie_insert D fuel t (cs ! unat x) (prefix @ [x]) k (Some (ValueNode v)) = Some (d, Some n', None)"
      "slot R x (Some n')" "\<not> d \<longrightarrow> holds R (cs ! unat x) k v" "adds R (cs ! unat x) k v (Some n')"
  shows "\<exists>r. trie_insert D (Suc fuel) t (Some (FullNode cs f)) prefix (x # k) (Some (ValueNode v)) = Some r \<and>
    inserted R (FullNode cs f) (x # k) v r"
proof -
  have l: "length cs = 17" "unat x < 17" using n c(2) by (auto simp: wf_Full_slots intro: slot_index)
  have "trie_insert D (Suc fuel) t (Some (FullNode cs f)) prefix (x # k) (Some (ValueNode v)) =
      Some (if d then (True, Some (FullNode (cs[unat x := Some n']) (newFlag t)), None) else (False, Some (FullNode cs f), None))"
    using c(1) slice_at_child [OF l] by auto
  moreover have "inserted R (FullNode cs f) (x # k) v (True, Some (FullNode (cs[unat x := Some n']) (newFlag t)), None)"
    using wf_Full_slot_update [OF n c(2)] adds_Full [OF c(4) l(2,1), of f "newFlag t"] by (auto simp: inserted_def)
  moreover have "inserted R (FullNode cs f) (x # k) v (False, Some (FullNode cs f), None)" if "\<not> d"
    using n that c(3) l by (intro inserted_same) auto
  ultimately show ?thesis by auto
qed

lemma insert_hash:
  assumes "R h = Some n" "wfn R n" "R = loads D t" "path key"
    and IH: "\<exists>r. trie_insert D fuel t (Some n) prefix key (Some (ValueNode v)) = Some r \<and> inserted R n key v r"
  shows "\<exists>r. trie_insert D (Suc fuel) t (Some (HashNode h)) prefix key (Some (ValueNode v)) = Some r \<and> inserted R (HashNode h) key v r"
proof -
  obtain d n' where r: "trie_insert D fuel t (Some n) prefix key (Some (ValueNode v)) = Some (d, Some n', None)"
    "wfn R n'" "branch R n \<longrightarrow> branch R n'" "\<not> d \<longrightarrow> holds R (Some n) key v" "adds R (Some n) key v (Some n')"
    using IH by (auto simp: inserted_def)
  have "resolveHash D t h prefix = Some (Inr n)" using assms(1,3) by (simp add: resolveHash_loads)
  then have "trie_insert D (Suc fuel) t (Some (HashNode h)) prefix key (Some (ValueNode v)) =
      Some (if d then (True, Some n', None) else (False, Some n, None))"
    using r(1) assms(4) by (auto simp: path_def)
  moreover have b: "branch R (HashNode h) \<longrightarrow> branch R n" using assms(1) by (auto dest: is_full_branch)
  moreover have "inserted R (HashNode h) key v (True, Some n', None)"
    using r(2,3,5) b assms(1) by (auto simp: inserted_def adds_def)
  moreover have "inserted R (HashNode h) key v (False, Some n, None)" if "\<not> d"
    using assms(1,2) that r(4) b by (intro inserted_same) auto
  ultimately show ?thesis by auto
qed

lemma insert_wf:
  assumes "wfn R n" "R = loads D t" "path key" "need key n \<le> fuel" "v \<noteq> []"
  shows "\<exists>r. trie_insert D fuel t (Some n) prefix key (Some (ValueNode v)) = Some r \<and> inserted R n key v r"
  using assms(1,3,4)
proof (induction arbitrary: key prefix fuel rule: wfn.induct)
  case (leaf k w f)
  have "2 \<le> fuel" using leaf.prems by (cases key) (auto simp: need_def)
  then obtain fuel' where fuel: "fuel = Suc (Suc fuel')" using two_Suc by blast
  show ?case unfolding fuel by (rule insert_leaf [OF leaf.hyps leaf.prems(1) assms(5)])
next
  case (ext k n f)
  have "2 \<le> fuel" using ext.prems by (cases key) (auto simp: need_def)
  then obtain fuel' where fuel: "fuel = Suc (Suc fuel')" using two_Suc by blast
  have "\<exists>r. trie_insert D (Suc fuel') t (Some n) prefix s (Some (ValueNode v)) = Some r \<and> inserted R n s v r"
    if "path s" "length s < length key" for s prefix
    using ext.IH [OF that(1), of "Suc fuel'"] that(2) ext.prems(2) fuel by (auto simp: need_def split: if_splits)
  then show ?case unfolding fuel by (rule insert_ext [OF ext.hyps ext.prems(1) assms(5)])
next
  case (full cs f)
  have w: "wfn R (FullNode cs f)" using full.hyps by (rule wfn.full)
  obtain x k where x: "key = x # k" using full.prems(1) by (cases key) auto
  have "2 \<le> fuel" using full.prems(2) x by (simp add: need_def)
  then obtain fuel' where fuel: "fuel = Suc (Suc fuel')" using two_Suc by blast
  consider "x = 16" "k = []" | "x < 16" "path k" "cs ! unat x = None" | n where "x < 16" "path k" "cs ! unat x = Some n"
    using full.prems(1) x by (cases "cs ! unat x") (auto simp: path_Cons)
  then have "\<exists>d n'. trie_insert D (Suc fuel') t (cs ! unat x) (prefix @ [x]) k (Some (ValueNode v)) = Some (d, Some n', None) \<and>
      slot R x (Some n') \<and> (\<not> d \<longrightarrow> holds R (cs ! unat x) k v) \<and> adds R (cs ! unat x) k v (Some n')"
  proof cases
    case 1
    then show ?thesis using insert_value [OF full.hyps(3), of D fuel' t "prefix @ [x]" v R] assms(5)
      by (auto simp: slot_def value_slot_def)
  next
    case 2
    then have "k \<noteq> []" by auto
    then show ?thesis
      using 2 adds_None [of R k v t] wf_leaf_path [OF 2(2) assms(5)] unfolding 2(3) insert_None
      by (auto simp: tail_node_def slot_def)
  next
    case 3
    have "\<exists>r. trie_insert D (Suc fuel') t (Some n) (prefix @ [x]) k (Some (ValueNode v)) = Some r \<and> inserted R n k v r"
      using full.IH [of "unat x" n k "Suc fuel'" "prefix @ [x]"] 3 full.prems(2) x fuel
      by (auto simp: need_def word_less_nat_alt split: if_splits)
    then show ?thesis using 3 by (auto simp: inserted_def slot_def)
  qed
  then show ?case
    using insert_full [OF w, of x k D "Suc fuel'" t prefix v] full.prems(1) unfolding fuel x by blast
next
  case (hash h n)
  obtain fuel' where fuel: "fuel = Suc fuel'" using hash.prems(2) fuel_Suc by blast
  have "need key n \<le> fuel'" using hash.prems(2) hash.hyps(3) by (simp add: fuel need_def)
  then show ?case
    unfolding fuel by (intro insert_hash [OF hash.hyps(1,2) assms(2) hash.prems(1)] hash.IH [OF hash.prems(1)])
qed

end
