(* ===== verification/TrieDelete.thy ===== *)
theory TrieDelete
  imports TrieInsert
begin

text \<open>
  Deletion from a well-formed trie: the key is gone, everything else is held as before, and the nodes on the way are
  brought back to minimal form.
\<close>

section \<open>The only child left\<close>

lemma single_child_found: "0 \<le> pos \<Longrightarrow> single_child cs i pos = (if occupied cs = 0 then pos else -2)"
  by (induction cs i pos rule: single_child.induct) (auto simp: occupied_def)

lemma occupied_zero: "occupied cs = 0 \<longleftrightarrow> (\<forall>j < length cs. cs ! j = None)"
  by (auto simp: occupied_def filter_empty_conv set_conv_nth)

lemma single_child_one:
  assumes "occupied cs = 1" "0 \<le> i"
  shows "\<exists>j < length cs. single_child cs i (-1) = i + int j \<and> cs ! j \<noteq> None \<and> (\<forall>l < length cs. l \<noteq> j \<longrightarrow> cs ! l = None)"
  using assms
proof (induction cs arbitrary: i)
  case (Cons c cs)
  show ?case
  proof (cases c)
    case None
    then obtain j where j: "j < length cs" "single_child cs (i + 1) (-1) = i + 1 + int j" "cs ! j \<noteq> None"
      "\<forall>l < length cs. l \<noteq> j \<longrightarrow> cs ! l = None"
      using Cons.IH [of "i + 1"] Cons.prems by (auto simp: occupied_def)
    show ?thesis using j None by (intro exI [of _ "Suc j"]) (auto simp: nth_Cons split: nat.splits)
  next
    case (Some n)
    then have "occupied cs = 0" using Cons.prems(1) by (simp add: occupied_def)
    then show ?thesis
      using Some single_child_found [OF Cons.prems(2), of cs "i + 1"]
      by (intro exI [of _ 0]) (auto simp: occupied_zero nth_Cons split: nat.splits)
  qed
qed (simp add: occupied_def)

lemma single_child_many: "2 \<le> occupied cs \<Longrightarrow> 0 \<le> i \<Longrightarrow> single_child cs i (-1) = -2"
proof (induction cs arbitrary: i)
  case (Cons c cs)
  then show ?case by (cases c) (auto simp: occupied_def single_child_found)
qed (simp add: occupied_def)

section \<open>Removing a key\<close>

definition removes :: "resolver \<Rightarrow> node option \<Rightarrow> byte list \<Rightarrow> node option \<Rightarrow> bool" where
  "removes R n key n' \<longleftrightarrow> (\<forall>k w. holds R n' k w \<longleftrightarrow> k \<noteq> key \<and> holds R n k w)"

lemma removes_same: "\<forall>v. \<not> holds R n key v \<Longrightarrow> removes R n key n"
  by (auto simp: removes_def)

lemma removes_Short: "removes R c key c' \<Longrightarrow> removes R (Some (ShortNode sk c f)) (sk @ key) (Some (ShortNode sk c' f'))"
  by (auto simp: removes_def)

lemma removes_Full:
  assumes "removes R (cs ! unat i) key c" "unat i < 17" "length cs = 17"
  shows "removes R (Some (FullNode cs f)) (i # key) (Some (FullNode (cs[unat i := c]) f'))"
proof -
  have "holds R (Some (FullNode (cs[unat i := c]) f')) k w \<longleftrightarrow> k \<noteq> i # key \<and> holds R (Some (FullNode cs f)) k w" for k w
    using assms by (cases k) (auto simp: removes_def nth_list_update unat_eq)
  then show ?thesis by (simp add: removes_def)
qed

text \<open>The result of a deletion below a node that is there.\<close>

definition deleted :: "resolver \<Rightarrow> node \<Rightarrow> byte list \<Rightarrow> bool \<times> node option \<times> trie_error option \<Rightarrow> bool" where
  "deleted R n key r \<longleftrightarrow> (\<exists>d n'. r = (d, n', None) \<and> (\<forall>m. n' = Some m \<longrightarrow> wfn R m) \<and>
     (branch R n \<and> d \<longrightarrow> (\<exists>m. n' = Some m \<and> \<not> is_hash m)) \<and>
     (\<not> d \<longrightarrow> (\<forall>v. \<not> holds R (Some n) key v)) \<and> removes R (Some n) key n')"

lemma deleted_same:
  "wfn R n \<Longrightarrow> \<forall>v. \<not> holds R (Some n) key v \<Longrightarrow> deleted R n key (False, Some n, None)"
  by (simp add: deleted_def removes_same) blast

text \<open>A short node followed by another is joined with it.\<close>

lemma wf_join:
  assumes "nibbles k" "wfn R (ShortNode ck c f)"
  shows "wfn R (ShortNode (k @ ck) c f')"
  using assms(2)
proof (cases rule: wf_Short_cases)
  case (leaf k' v)
  then show ?thesis using wfn.leaf [of "k @ k'" v R f'] assms(1) by auto
next
  case (ext n)
  then show ?thesis using wfn.ext [of "k @ ck" R n f'] assms(1) by auto
qed

definition joined :: "'d Trie \<Rightarrow> byte list \<Rightarrow> node \<Rightarrow> node" where
  "joined t k n = (case n of ShortNode ck c f \<Rightarrow> ShortNode (k @ ck) c (newFlag t) | _ \<Rightarrow> ShortNode k (Some n) (newFlag t))"

lemma wf_joined: "nibbles k \<Longrightarrow> k \<noteq> [] \<Longrightarrow> wfn R n \<Longrightarrow> \<not> is_hash n \<Longrightarrow> wfn R (joined t k n)"
  by (cases n) (auto simp: joined_def intro: wf_join wfn.ext)

lemma holds_joined: "holds R (Some (joined t k n)) key v \<longleftrightarrow> (\<exists>k'. key = k @ k' \<and> holds R (Some n) k' v)"
  by (cases n) (auto simp: joined_def)

lemma joined_not_hash [simp]: "\<not> is_hash (joined t k n)"
  by (cases n) (auto simp: joined_def)

section \<open>Deletion\<close>

lemma delete_differ:
  assumes "wfn R (ShortNode sk c f)" "sk = p @ x # s" "key = p @ y # s'" "x \<noteq> y" "prefixLen key sk = length p"
  shows "\<exists>r. trie_delete D (Suc fuel) t (Some (ShortNode sk c f)) prefix key = Some r \<and> deleted R (ShortNode sk c f) key r"
proof -
  have "trie_delete D (Suc fuel) t (Some (ShortNode sk c f)) prefix key = Some (False, Some (ShortNode sk c f), None)"
    using assms(2,5) by simp
  moreover have "\<forall>v. \<not> holds R (Some (ShortNode sk c f)) key v" using assms(2-4) by auto
  ultimately show ?thesis using deleted_same [OF assms(1)] by blast
qed

lemma delete_leaf:
  assumes "nibbles k" "w \<noteq> []" "path key"
  shows "\<exists>r. trie_delete D (Suc fuel) t (Some (ShortNode (k @ [16]) (Some (ValueNode w)) f)) prefix key = Some r \<and>
    deleted R (ShortNode (k @ [16]) (Some (ValueNode w)) f) key r"
proof -
  have wf: "wfn R (ShortNode (k @ [16]) (Some (ValueNode w)) f)" using assms by (intro wfn.leaf) auto
  show ?thesis
    using wf assms(3)
  proof (cases rule: short_key)
    case (whole s)
    have "path (k @ [16])" using assms(1) by (auto simp: path_def)
    then have "s = []" using path_prefix_eq whole(1) assms(3) by blast
    then have "key = k @ [16]" "prefixLen key (k @ [16]) = Suc (length k)" using whole by auto
    then show ?thesis by (auto simp: deleted_def removes_def)
  qed (rule delete_differ [OF wf])
qed

lemma delete_ext:
  assumes n: "nibbles k" "k \<noteq> []" "wfn R n" "branch R n" and key: "path key"
    and IH: "\<And>s prefix. path s \<Longrightarrow> length s < length key \<Longrightarrow> \<exists>r. trie_delete D fuel t (Some n) prefix s = Some r \<and> deleted R n s r"
  shows "\<exists>r. trie_delete D (Suc fuel) t (Some (ShortNode k (Some n) f)) prefix key = Some r \<and> deleted R (ShortNode k (Some n) f) key r"
proof -
  have wf: "wfn R (ShortNode k (Some n) f)" using n by (rule wfn.ext)
  show ?thesis
    using wf key
  proof (cases rule: short_key)
    case (whole s)
    have s: "path s" "length s < length key" using key n(1,2) whole(1) by (simp_all add: path_append)
    then obtain d n' where r: "trie_delete D fuel t (Some n) (prefix @ take (length k) key) s = Some (d, n', None)"
      "\<forall>m. n' = Some m \<longrightarrow> wfn R m" "d \<longrightarrow> (\<exists>m. n' = Some m \<and> \<not> is_hash m)" "\<not> d \<longrightarrow> (\<forall>v. \<not> holds R (Some n) s v)"
      "removes R (Some n) s n'"
      using IH [of s "prefix @ take (length k) key"] n(4) by (auto simp: deleted_def)
    have k: "prefixLen key k \<noteq> length key" "drop (length k) key = s" using whole s(1) by auto
    show ?thesis
    proof (cases d)
      case True
      then obtain m where m: "n' = Some m" "\<not> is_hash m" "wfn R m" using r(2,3) by blast
      have "trie_delete D (Suc fuel) t (Some (ShortNode k (Some n) f)) prefix key = Some (True, Some (joined t k m), None)"
        using True m(1) whole(2) k r(1) by (cases m) (auto simp: joined_def)
      moreover have "removes R (Some (ShortNode k (Some n) f)) key (Some (joined t k m))"
        using r(5) m(1) whole(1) by (auto simp: removes_def holds_joined)
      ultimately show ?thesis using wf_joined [OF n(1,2) m(3,2), of t] by (auto simp: deleted_def)
    next
      case False
      then have "trie_delete D (Suc fuel) t (Some (ShortNode k (Some n) f)) prefix key = Some (False, Some (ShortNode k (Some n) f), None)"
        using whole(2) k r(1) by simp
      then show ?thesis using deleted_same [OF wf] r(4) False whole(1) by auto
    qed
  qed (rule delete_differ [OF wf])
qed

lemma resolve_wf:
  assumes "wfn R n" "R = loads D t"
  obtains m where "resolve D t (Some n) prefix = Some (Inr (Some m))" "wfn R m" "\<not> is_hash m" "is_full m \<longrightarrow> branch R n"
    "\<And>k v. holds R (Some m) k v \<longleftrightarrow> holds R (Some n) k v"
proof (cases n)
  case (HashNode h)
  then show ?thesis
    using assms that by (auto elim!: wf_HashE simp: resolve_def resolveHash_loads)
qed (use assms that [of n] in \<open>auto simp: resolve_def\<close>)

lemma only_child:
  assumes "length cs = 17" "j < 17" "\<forall>l < 17. l \<noteq> j \<longrightarrow> cs ! l = None"
  shows "holds R (Some (FullNode cs f)) k v \<longleftrightarrow> (\<exists>k'. k = of_nat j # k' \<and> holds R (cs ! j) k' v)"
proof -
  have j: "unat (of_nat j :: byte) = j" using assms(2) by (simp add: unsigned_of_nat take_bit_nat_eq_self)
  show ?thesis
  proof (cases k)
    case (Cons i k')
    have "unat i \<noteq> j \<Longrightarrow> unat i < 17 \<Longrightarrow> cs ! unat i = None" using assms(3) by blast
    moreover have "i = of_nat j \<longleftrightarrow> unat i = j" using j by auto
    ultimately show ?thesis using Cons assms(1,2) by auto
  qed simp
qed

lemma collapse_wf:
  assumes cs: "length cs = 17" "\<forall>i. unat i < 17 \<longrightarrow> slot R i (cs ! unat i)" and "R = loads D t"
    and j: "j < 17" "cs ! j \<noteq> None" "\<forall>l < 17. l \<noteq> j \<longrightarrow> cs ! l = None"
  shows "\<exists>m. collapse D t prefix cs (int j) = Some (True, Some m, None) \<and> wfn R m \<and> \<not> is_hash m \<and>
    (\<forall>k v. holds R (Some m) k v \<longleftrightarrow> holds R (Some (FullNode cs f)) k v)"
proof -
  let ?b = "of_nat j :: byte"
  have b: "unat ?b = j" using j(1) by (simp add: unsigned_of_nat take_bit_nat_eq_self)
  have s: "slot R ?b (cs ! j)" using cs(2) j(1) b by (metis)
  note h = only_child [OF cs(1) j(1,3), of R f]
  obtain n where n: "cs ! j = Some n" using j(2) by blast
  show ?thesis
  proof (cases "j = 16")
    case True
    then obtain v where v: "n = ValueNode v" "v \<noteq> []" using s n by (auto simp: slot_def value_slot_def)
    have "wfn R (ShortNode ([] @ [16]) (Some n) (newFlag t))" unfolding v(1) by (rule wfn.leaf) (auto simp: v)
    then show ?thesis using h n True by (auto simp: collapse_def)
  next
    case False
    then have "?b < 16" using j(1) b by (simp add: word_less_nat_alt)
    then have "wfn R n" using s n by (simp add: slot_def)
    then obtain m where m: "resolve D t (Some n) prefix = Some (Inr (Some m))" "wfn R m" "\<not> is_hash m" "is_full m \<longrightarrow> branch R n"
      "\<And>k v. holds R (Some m) k v \<longleftrightarrow> holds R (Some n) k v" using resolve_wf [OF _ assms(3)] by metis
    show ?thesis
    proof (cases m)
      case (ShortNode ck c f')
      then have "collapse D t prefix cs (int j) = Some (True, Some (joined t [?b] m), None)"
        using m(1) n False by (simp add: collapse_def joined_def)
      then show ?thesis using wf_joined [of "[?b]" R m t] \<open>?b < 16\<close> m(2,3,5) h n by (auto simp: holds_joined)
    next
      case (FullNode cs' f')
      then have "collapse D t prefix cs (int j) = Some (True, Some (ShortNode [?b] (Some n) (newFlag t)), None)"
        using m(1) n False by (simp add: collapse_def)
      then show ?thesis using wfn.ext [of "[?b]" R n "newFlag t"] \<open>?b < 16\<close> \<open>wfn R n\<close> m(4) h n FullNode by auto
    qed (use m in auto)
  qed
qed

lemma wf_Full_occupied:
  assumes "wfn R (FullNode cs f)" "slot R i c"
  shows "length (cs[unat i := c]) = 17" "\<forall>l. unat l < 17 \<longrightarrow> slot R l (cs[unat i := c] ! unat l)" "0 < occupied (cs[unat i := c])"
  using assms occupied_update [of "unat i" cs c] slot_index [OF assms(2)]
  by (auto simp: wf_Full_slots nth_list_update unat_eq split: if_splits)

lemma delete_full:
  assumes n: "wfn R (FullNode cs f)" "R = loads D t" and key: "path (x # k)"
    and c: "trie_delete D fuel t (cs ! unat x) (prefix @ [x]) k = Some (d, c', None)"
      "slot R x c'" "\<not> d \<longrightarrow> (\<forall>v. \<not> holds R (cs ! unat x) k v)" "removes R (cs ! unat x) k c'"
  shows "\<exists>r. trie_delete D (Suc fuel) t (Some (FullNode cs f)) prefix (x # k) = Some r \<and> deleted R (FullNode cs f) (x # k) r"
proof -
  have l: "length cs = 17" "unat x < 17" using n c(2) by (auto simp: wf_Full_slots intro: slot_index)
  have x: "slice_at (x # k) 0 = Some x" by (simp add: slice_at_def)
  let ?cs = "cs[unat x := c']"
  note w = wf_Full_occupied [OF n(1) c(2)]
  note rm = removes_Full [OF c(4) l(2,1), of f "newFlag t"]
  consider "\<not> d" | "d" "occupied ?cs = 1" | "d" "2 \<le> occupied ?cs" using w(3) by linarith
  then show ?thesis
  proof cases
    case 1
    then have "trie_delete D (Suc fuel) t (Some (FullNode cs f)) prefix (x # k) = Some (False, Some (FullNode cs f), None)"
      using c(1) slice_at_child [OF l] x by simp
    then show ?thesis using deleted_same [OF n(1)] 1 c(3) by auto
  next
    case 2
    obtain j where j: "j < 17" "single_child ?cs 0 (-1) = int j" "?cs ! j \<noteq> None" "\<forall>l < 17. l \<noteq> j \<longrightarrow> ?cs ! l = None"
      using single_child_one [OF 2(2), of 0] w(1) by auto
    obtain m where m: "collapse D t prefix ?cs (int j) = Some (True, Some m, None)" "wfn R m" "\<not> is_hash m"
      "\<forall>k v. holds R (Some m) k v \<longleftrightarrow> holds R (Some (FullNode ?cs (newFlag t))) k v"
      using collapse_wf [OF w(1,2) n(2) j(1,3,4)] by metis
    have "trie_delete D (Suc fuel) t (Some (FullNode cs f)) prefix (x # k) = Some (True, Some m, None)"
      using c(1) slice_at_child [OF l] x 2(1) j(2) m(1) by simp
    moreover have "removes R (Some (FullNode cs f)) (x # k) (Some m)" using rm m(4) unfolding removes_def by blast
    ultimately show ?thesis using m(2,3) by (auto simp: deleted_def)
  next
    case 3
    then have "trie_delete D (Suc fuel) t (Some (FullNode cs f)) prefix (x # k) = Some (True, Some (FullNode ?cs (newFlag t)), None)"
      using c(1) slice_at_child [OF l] x single_child_many [OF 3(2), of 0] by simp
    then show ?thesis using rm w 3(2) by (auto simp: deleted_def wf_Full_slots)
  qed
qed

lemma delete_hash:
  assumes "R h = Some n" "wfn R n" "R = loads D t"
    and IH: "\<exists>r. trie_delete D fuel t (Some n) prefix key = Some r \<and> deleted R n key r"
  shows "\<exists>r. trie_delete D (Suc fuel) t (Some (HashNode h)) prefix key = Some r \<and> deleted R (HashNode h) key r"
proof -
  obtain d n' where r: "trie_delete D fuel t (Some n) prefix key = Some (d, n', None)" "deleted R n key (d, n', None)"
    using IH by (auto simp: deleted_def)
  have "resolveHash D t h prefix = Some (Inr n)" using assms(1,3) by (simp add: resolveHash_loads)
  then have "trie_delete D (Suc fuel) t (Some (HashNode h)) prefix key = Some (if d then (True, n', None) else (False, Some n, None))"
    using r(1) by simp
  moreover have "deleted R (HashNode h) key (if d then (True, n', None) else (False, Some n, None))"
    using r(2) assms(1,2) by (auto simp: deleted_def removes_def dest: is_full_branch)
  ultimately show ?thesis by blast
qed

lemma delete_value:
  "value_slot c \<Longrightarrow> \<exists>d. trie_delete D (Suc fuel) t c prefix [] = Some (d, None, None) \<and> (\<not> d \<longrightarrow> c = None) \<and> removes R c [] None"
  by (auto simp: value_slot_def removes_def)

lemma delete_wf:
  assumes "wfn R n" "R = loads D t" "path key" "need key n \<le> fuel"
  shows "\<exists>r. trie_delete D fuel t (Some n) prefix key = Some r \<and> deleted R n key r"
  using assms(1,3,4)
proof (induction arbitrary: key prefix fuel rule: wfn.induct)
  case (leaf k w f)
  obtain fuel' where fuel: "fuel = Suc fuel'" using leaf.prems(2) fuel_Suc by blast
  show ?case unfolding fuel by (rule delete_leaf [OF leaf.hyps leaf.prems(1)])
next
  case (ext k n f)
  obtain fuel' where fuel: "fuel = Suc fuel'" using ext.prems(2) fuel_Suc by blast
  have "\<exists>r. trie_delete D fuel' t (Some n) prefix s = Some r \<and> deleted R n s r" if "path s" "length s < length key" for s prefix
    using ext.IH [OF that(1), of fuel'] that(2) ext.prems(2) fuel by (auto simp: need_def split: if_splits)
  then show ?case unfolding fuel by (rule delete_ext [OF ext.hyps ext.prems(1)])
next
  case (full cs f)
  have w: "wfn R (FullNode cs f)" using full.hyps by (rule wfn.full)
  obtain x k where x: "key = x # k" using full.prems(1) by (cases key) auto
  have "2 \<le> fuel" using full.prems(2) x by (simp add: need_def)
  then obtain fuel' where fuel: "fuel = Suc (Suc fuel')" using two_Suc by blast
  consider "x = 16" "k = []" | "x < 16" "path k" "cs ! unat x = None" | n where "x < 16" "path k" "cs ! unat x = Some n"
    using full.prems(1) x by (cases "cs ! unat x") (auto simp: path_Cons)
  then have "\<exists>d c'. trie_delete D (Suc fuel') t (cs ! unat x) (prefix @ [x]) k = Some (d, c', None) \<and>
      slot R x c' \<and> (\<not> d \<longrightarrow> (\<forall>v. \<not> holds R (cs ! unat x) k v)) \<and> removes R (cs ! unat x) k c'"
  proof cases
    case 1
    then show ?thesis using delete_value [OF full.hyps(3), of D fuel' t "prefix @ [x]" R] by (auto simp: slot_def value_slot_def)
  next
    case 2
    then show ?thesis by (auto simp: slot_def removes_def)
  next
    case 3
    have "\<exists>r. trie_delete D (Suc fuel') t (Some n) (prefix @ [x]) k = Some r \<and> deleted R n k r"
      using full.IH [of "unat x" n k "Suc fuel'" "prefix @ [x]"] 3 full.prems(2) x fuel
      by (auto simp: need_def word_less_nat_alt split: if_splits)
    then show ?thesis using 3 by (auto simp: deleted_def slot_def)
  qed
  then show ?case
    using delete_full [OF w assms(2), of x k "Suc fuel'" prefix] full.prems(1) unfolding fuel x by blast
next
  case (hash h n)
  obtain fuel' where fuel: "fuel = Suc fuel'" using hash.prems(2) fuel_Suc by blast
  have "need key n \<le> fuel'" using hash.prems(2) hash.hyps(3) by (simp add: fuel need_def)
  then show ?case unfolding fuel by (intro delete_hash [OF hash.hyps(1,2) assms(2)] hash.IH [OF hash.prems(1)])
qed

end
