(* ===== verification/TrieMap.thy ===== *)
theory TrieMap
  imports TrieDelete
begin

text \<open>
  The trie as a map from keys to non-empty values.  \<open>byte_map\<close> is the contract of a key-value container whose
  operations may fail to return; the trie implements it whatever part of it is still in the database.
\<close>

section \<open>The contract\<close>

text \<open>
  \<open>rep s m\<close> says that the state \<open>s\<close> stands for the map \<open>m\<close>.  Storing an empty value deletes the key.
\<close>

definition store_value :: "byte list \<Rightarrow> byte list \<Rightarrow> (byte list \<rightharpoonup> byte list) \<Rightarrow> (byte list \<rightharpoonup> byte list)" where
  "store_value k v m = m(k := if v = [] then None else Some v)"

locale byte_map =
  fixes rep :: "'s \<Rightarrow> (byte list \<rightharpoonup> byte list) \<Rightarrow> bool"
    and get :: "byte list \<Rightarrow> ('s, byte list option \<times> 'e option) op"
    and update :: "byte list \<Rightarrow> byte list \<Rightarrow> ('s, 'e option) op"
    and delete :: "byte list \<Rightarrow> ('s, 'e option) op"
  assumes get_rep: "rep s m \<Longrightarrow> \<exists>s'. get k s = Some ((m k, None), s') \<and> rep s' m"
    and update_rep: "rep s m \<Longrightarrow> \<exists>s'. update k v s = Some (None, s') \<and> rep s' (store_value k v m)"
    and delete_rep: "rep s m \<Longrightarrow> \<exists>s'. delete k s = Some (None, s') \<and> rep s' (m(k := None))"
begin

text \<open>Any sequence of writes succeeds and leaves the map that the writes describe.\<close>

fun writes :: "(byte list \<times> byte list) list \<Rightarrow> ('s, 'e option) op" where
  "writes [] s = Some (None, s)"
| "writes ((k, v) # kvs) s = do { (err, s) \<leftarrow> update k v s; if err \<noteq> None then Some (err, s) else writes kvs s }"

lemma writes_rep: "rep s m \<Longrightarrow> \<exists>s'. writes kvs s = Some (None, s') \<and> rep s' (fold (\<lambda>(k, v). store_value k v) kvs m)"
proof (induction kvs arbitrary: s m)
  case (Cons kv kvs)
  obtain k v where kv: "kv = (k, v)" by (cases kv)
  obtain s' where "update k v s = Some (None, s')" "rep s' (store_value k v m)" using update_rep [OF Cons.prems] by blast
  then show ?case using Cons.IH kv by simp
qed simp

lemma update_get:
  assumes "rep s m"
  obtains s1 s2 where "update k v s = Some (None, s1)" "get k' s1 = Some (((store_value k v m) k', None), s2)" "rep s2 (store_value k v m)"
  using update_rep [OF assms, of k v] get_rep by metis

end

section \<open>The trie implements it\<close>

definition trie_rep :: "'d Database \<Rightarrow> 'd Trie \<Rightarrow> (byte list \<rightharpoonup> byte list) \<Rightarrow> bool" where
  "trie_rep D t m \<longleftrightarrow> (\<forall>n. root t = Some n \<longrightarrow> wfn (loads D t) n) \<and>
     (\<forall>p v. holds (loads D t) (root t) p v \<longleftrightarrow> (\<exists>k. p = keybytesToHex k \<and> m k = Some v))"

definition trie_fuel :: "byte list \<Rightarrow> nat" where
  "trie_fuel key = 4 * length key + 4"

lemma trie_fuel_Suc: obtains fuel where "trie_fuel key = Suc fuel"
  by (rule that [of "4 * length key + 3"]) (simp add: trie_fuel_def)

lemma length_keybytesToHex: "length (keybytesToHex key) = 2 * length key + 1"
proof -
  have "length (concat (map (\<lambda>b. [b div 16, b mod 16]) key)) = 2 * length key" by (induction key) simp_all
  then show ?thesis by (simp add: keybytesToHex_def)
qed

lemma trie_fuel_need: "need (keybytesToHex key) n \<le> trie_fuel key"
  using need_le [of "keybytesToHex key" n] by (simp add: trie_fuel_def length_keybytesToHex)

lemma keybytesToHex_inject: "keybytesToHex a = keybytesToHex b \<longleftrightarrow> a = b"
proof -
  have "hexToKeybytes (keybytesToHex str) = Some str" for str
    using decodeNibbles_bytes [of str] nibbles_keybytes [of str] length_keybytesToHex [of str]
    by (simp add: hexToKeybytes_def keybytesToHex_def)
  then show ?thesis by (metis option.inject)
qed

lemma loads_root [simp]: "loads D (t\<lparr>root := n\<rparr>) = loads D t"
  by (simp add: fun_eq_iff loads_def split: option.split sum.split)

lemma trie_rep_lookup: "trie_rep D t m \<Longrightarrow> holds (loads D t) (root t) (keybytesToHex k) v \<longleftrightarrow> m k = Some v"
  by (auto simp: trie_rep_def keybytesToHex_inject)

lemma trie_rep_get:
  assumes "trie_rep D t m"
  shows "\<exists>t'. TryGet D (trie_fuel k) k t = Some ((m k, None), t') \<and> trie_rep D t' m"
proof (cases "root t")
  case None
  then have "m k = None" using trie_rep_lookup [OF assms, of k] by (cases "m k") auto
  moreover obtain fuel where "trie_fuel k = Suc fuel" by (rule trie_fuel_Suc)
  ultimately show ?thesis using None assms by (auto simp: TryGet_def)
next
  case (Some n)
  then obtain val n' b where r: "tryGet D (trie_fuel k) t (Some n) (keybytesToHex k) 0 = Some (val, Some n', b, None)"
    "\<forall>v. val = Some v \<longleftrightarrow> holds (loads D t) (Some n) (keybytesToHex k) v" "same_node (loads D t) n n'"
    using tryGet_wf [of "loads D t" n D t 0 "keybytesToHex k" "trie_fuel k"] assms path_keybytes trie_fuel_need
    by (auto simp: trie_rep_def)
  have "val = m k" using trie_rep_lookup [OF assms, of k] r(2) Some by (metis not_Some_eq)
  moreover have "trie_rep D (t\<lparr>root := Some n'\<rparr>) m" using assms r(3) Some by (simp add: trie_rep_def same_node_def)
  ultimately show ?thesis using r(1) Some assms by (auto simp: TryGet_def)
qed

lemma trie_rep_removed:
  assumes "trie_rep D t m" "removes (loads D t) (root t) (keybytesToHex k) n'" "\<forall>n. n' = Some n \<longrightarrow> wfn (loads D t) n"
  shows "trie_rep D (t\<lparr>root := n'\<rparr>) (m(k := None))"
proof -
  have "holds (loads D t) n' p v \<longleftrightarrow> p \<noteq> keybytesToHex k \<and> (\<exists>k'. p = keybytesToHex k' \<and> m k' = Some v)" for p v
    using assms(1,2) by (simp add: trie_rep_def removes_def)
  moreover have "p \<noteq> keybytesToHex k \<and> (\<exists>k'. p = keybytesToHex k' \<and> m k' = Some v) \<longleftrightarrow>
      (\<exists>k'. p = keybytesToHex k' \<and> (m(k := None)) k' = Some v)" for p v
    by (auto simp: keybytesToHex_inject)
  ultimately show ?thesis using assms(3) by (simp add: trie_rep_def)
qed

lemma trie_rep_delete:
  assumes "trie_rep D t m"
  shows "\<exists>d n'. trie_delete D (trie_fuel k) t (root t) [] (keybytesToHex k) = Some (d, n', None) \<and>
    trie_rep D (t\<lparr>root := n'\<rparr>) (m(k := None))"
proof (cases "root t")
  case None
  moreover obtain fuel where "trie_fuel k = Suc fuel" by (rule trie_fuel_Suc)
  ultimately show ?thesis
    using trie_rep_removed [OF assms, of k None] None removes_same [of "loads D t" None "keybytesToHex k"] by auto
next
  case (Some n)
  then show ?thesis
    using delete_wf [of "loads D t" n D t "keybytesToHex k" "trie_fuel k" "[]"] assms path_keybytes trie_fuel_need
      trie_rep_removed [OF assms, of k] by (fastforce simp: trie_rep_def deleted_def)
qed

lemma trie_rep_added:
  assumes "trie_rep D t m" "wfn (loads D t) n'" "adds (loads D t) (root t) (keybytesToHex k) v (Some n')"
  shows "trie_rep D (t\<lparr>root := Some n'\<rparr>) (m(k \<mapsto> v))"
proof -
  have "holds (loads D t) (Some n') p w \<longleftrightarrow>
      (if p = keybytesToHex k then w = v else (\<exists>k'. p = keybytesToHex k' \<and> m k' = Some w))" for p w
    using assms(1,3) by (simp add: trie_rep_def adds_def)
  moreover have "(if p = keybytesToHex k then w = v else (\<exists>k'. p = keybytesToHex k' \<and> m k' = Some w)) \<longleftrightarrow>
      (\<exists>k'. p = keybytesToHex k' \<and> (m(k \<mapsto> v)) k' = Some w)" for p w
    by (auto simp: keybytesToHex_inject)
  ultimately show ?thesis using assms(2) by (simp add: trie_rep_def)
qed

lemma trie_rep_insert:
  assumes "trie_rep D t m" "v \<noteq> []"
  shows "\<exists>d n'. trie_insert D (trie_fuel k) t (root t) [] (keybytesToHex k) (Some (ValueNode v)) = Some (d, n', None) \<and>
    trie_rep D (t\<lparr>root := n'\<rparr>) (m(k \<mapsto> v))"
proof -
  have "\<exists>d n'. trie_insert D (trie_fuel k) t (root t) [] (keybytesToHex k) (Some (ValueNode v)) = Some (d, Some n', None) \<and>
      wfn (loads D t) n' \<and> adds (loads D t) (root t) (keybytesToHex k) v (Some n')"
  proof (cases "root t")
    case None
    have "keybytesToHex k \<noteq> []" using path_keybytes [of k] by auto
    moreover obtain fuel where "trie_fuel k = Suc fuel" by (rule trie_fuel_Suc)
    ultimately show ?thesis
      unfolding None using insert_None [of D fuel t "[]" "keybytesToHex k"] adds_None [of "loads D t" "keybytesToHex k" v t] wf_leaf_path [OF path_keybytes assms(2)]
      by (auto simp: tail_node_def simp del: trie_insert.simps)
  next
    case (Some n)
    then show ?thesis
      using insert_wf [of "loads D t" n D t "keybytesToHex k" "trie_fuel k" v "[]"] assms path_keybytes trie_fuel_need
      by (fastforce simp: trie_rep_def inserted_def)
  qed
  moreover have "trie_rep D (t\<lparr>root := Some n'\<rparr>) (m(k \<mapsto> v))"
    if "wfn (loads D t) n'" "adds (loads D t) (root t) (keybytesToHex k) v (Some n')" for n'
    using assms(1) that by (rule trie_rep_added)
  ultimately show ?thesis by blast
qed

interpretation trie_map: byte_map "trie_rep D" "\<lambda>k. TryGet D (trie_fuel k) k" "\<lambda>k v. TryUpdate D (trie_fuel k) k v"
  "\<lambda>k. TryDelete D (trie_fuel k) k" for D :: "'d Database"
proof
  fix t :: "'d Trie" and m k v
  assume t: "trie_rep D t m"
  show "\<exists>t'. TryGet D (trie_fuel k) k t = Some ((m k, None), t') \<and> trie_rep D t' m" using t by (rule trie_rep_get)
  show "\<exists>t'. TryUpdate D (trie_fuel k) k v t = Some (None, t') \<and> trie_rep D t' (store_value k v m)"
    using trie_rep_delete [OF t, of k] trie_rep_insert [OF t, of v k] by (auto simp: TryUpdate_def store_value_def)
  show "\<exists>t'. TryDelete D (trie_fuel k) k t = Some (None, t') \<and> trie_rep D t' (m(k := None))"
    using trie_rep_delete [OF t, of k] by (auto simp: TryDelete_def)
qed

section \<open>Missing nodes\<close>

text \<open>An error of the trie's own: a node on the path to the key is not in the database.\<close>

definition missing :: "'d Database \<Rightarrow> 'd Trie \<Rightarrow> byte list \<Rightarrow> trie_error \<Rightarrow> bool" where
  "missing D t key e \<longleftrightarrow> (\<exists>h p q db. e = MissingNodeError (BytesToHash h) p \<and> key = p @ q \<and> tr_db t = Some db \<and>
     (\<forall>enc. db_Get D h db \<noteq> Inr (Some enc)))"

lemma resolveHash_missing:
  assumes "resolveHash D t h p = Some (Inl e)"
  shows "missing D t (p @ q) e"
proof -
  obtain db where db: "tr_db t = Some db" using assms by (cases "tr_db t") (auto simp: resolveHash_def)
  then have "e = MissingNodeError (BytesToHash h) p \<and> (\<forall>enc. db_Get D h db \<noteq> Inr (Some enc))"
    using assms by (auto simp: resolveHash_def split: sum.splits option.splits)
  then show ?thesis using db by (auto simp: missing_def)
qed

lemma resolve_missing:
  assumes "resolve D t n p = Some (Inl e)"
  shows "missing D t (p @ q) e"
proof -
  obtain h where h: "n = Some (HashNode h)" using assms by (auto simp: resolve_def split: option.splits node.splits)
  then obtain r where "resolveHash D t h p = Some r" "map_sum id Some r = Inl e" using assms by (auto simp: resolve_def)
  then show ?thesis using resolveHash_missing by (cases r) auto
qed

lemma tryGet_missing:
  "tryGet D fuel t n key pos = Some (val, n', b, Some e) \<Longrightarrow> val = None \<and> missing D t key e"
proof (induction fuel arbitrary: n pos val n' b)
  case (Suc fuel)
  show ?case
  proof (cases n)
    case (Some m)
    show ?thesis
    proof (cases m)
      case (HashNode h)
      then obtain r where r: "resolveHash D t h (take pos key) = Some r" using Suc.prems Some by (auto simp: bind_eq_Some_conv)
      show ?thesis
      proof (cases r)
        case (Inl e')
        then show ?thesis
          using r Suc.prems Some HashNode resolveHash_missing [of D t h "take pos key" e "drop pos key"] by auto
      next
        case (Inr c)
        then show ?thesis using r Suc.prems Some HashNode Suc.IH by (auto simp: bind_eq_Some_conv)
      qed
    qed (use Suc Some in \<open>auto simp: bind_eq_Some_conv split: if_splits\<close>)
  qed (use Suc.prems in simp)
qed simp

lemma insert_None_ok: "trie_insert D fuel t None prefix key value = Some (d, n, err) \<Longrightarrow> err = None"
  by (cases fuel) (auto split: if_splits)

lemma insert_missing:
  "trie_insert D fuel t n prefix key value = Some (d, n', Some e) \<Longrightarrow> missing D t (prefix @ key) e"
proof (induction fuel arbitrary: n prefix key d n')
  case (Suc fuel)
  show ?case
  proof (cases "key = []")
    case True
    then show ?thesis using Suc.prems by (auto split: option.splits node.splits)
  next
    case False
    show ?thesis
    proof (cases n)
      case (Some m)
      show ?thesis
      proof (cases m)
        case (ShortNode k v f)
        show ?thesis
        proof (cases "prefixLen key k = length k")
          case True
          then show ?thesis
            using Suc.prems False Some ShortNode Suc.IH [of v "prefix @ take (length k) key" "drop (length k) key"]
            by (auto simp: bind_eq_Some_conv Let_def split: if_splits)
        next
          case neq: False
          show ?thesis
            using Suc.prems False Some ShortNode neq
            by (auto simp: bind_eq_Some_conv Let_def dest: insert_None_ok split: if_splits)
        qed
      next
        case (FullNode cs f)
        then show ?thesis
          using Suc.prems False Some Suc.IH [of _ "prefix @ [hd key]" "tl key"] by (auto simp: bind_eq_Some_conv Let_def split: if_splits)
      next
        case (HashNode h)
        then obtain r where r: "resolveHash D t h prefix = Some r" using Suc.prems False Some by (auto simp: bind_eq_Some_conv)
        show ?thesis
        proof (cases r)
          case (Inl e')
          then show ?thesis using r Suc.prems False Some HashNode resolveHash_missing [of D t h prefix e key] by auto
        next
          case (Inr c)
          then show ?thesis using r Suc.prems False Some HashNode Suc.IH by (auto simp: bind_eq_Some_conv split: if_splits)
        qed
      qed (use Suc.prems False Some in simp)
    qed (use Suc.prems False in simp)
  qed
qed simp

lemma collapse_missing:
  assumes "collapse D t prefix cs pos = Some (d, n, Some e)"
  shows "missing D t (prefix @ q) e"
proof -
  obtain r where r: "(if pos \<noteq> 16 then resolve D t (cs ! nat pos) prefix else Some (Inr None)) = Some r"
    using assms by (auto simp: collapse_def bind_eq_Some_conv Let_def)
  then have "r = Inl e" using assms unfolding collapse_def Let_def by (auto split: sum.splits option.splits node.splits)
  then show ?thesis using r resolve_missing [of D t "cs ! nat pos" prefix e q] by (auto split: if_splits)
qed

lemma delete_missing:
  "trie_delete D fuel t n prefix key = Some (d, n', Some e) \<Longrightarrow> missing D t (prefix @ key) e"
proof (induction fuel arbitrary: n prefix key d n')
  case (Suc fuel)
  show ?case
  proof (cases n)
    case (Some m)
    show ?thesis
    proof (cases m)
      case (ShortNode k v f)
      then show ?thesis
        using Suc.prems Some Suc.IH [of v "prefix @ take (length k) key" "drop (length k) key"]
        by (auto simp: bind_eq_Some_conv Let_def split: if_splits option.splits node.splits)
    next
      case (FullNode cs f)
      then obtain x k where x: "key = x # k" using Suc.prems Some by (cases key) (auto simp: slice_at_def)
      then show ?thesis
        using Suc.prems Some FullNode Suc.IH [of _ "prefix @ [x]" k] collapse_missing [of D t prefix _ _ _ _ e key]
        by (auto simp: bind_eq_Some_conv Let_def slice_at_def split: if_splits)
    next
      case (HashNode h)
      then obtain r where r: "resolveHash D t h prefix = Some r" using Suc.prems Some by (auto simp: bind_eq_Some_conv)
      show ?thesis
      proof (cases r)
        case (Inl e')
        then show ?thesis using r Suc.prems Some HashNode resolveHash_missing [of D t h prefix e key] by auto
      next
        case (Inr c)
        then show ?thesis using r Suc.prems Some HashNode Suc.IH by (auto simp: bind_eq_Some_conv split: if_splits)
      qed
    qed (use Suc.prems Some in simp)
  qed (use Suc.prems in simp)
qed simp

section \<open>Properties\<close>

text \<open>
  Claim C8. The trie is a map.  Whatever part of it is still in the database, with fuel linear in the length of the
  key, reading returns the value of the key, writing stores it or, for an empty value, deletes the key, deleting
  deletes it, none of them reports an error, and the trie they leave stands for the changed map.
\<close>

theorem trie_refines_map:
  assumes "trie_rep D t m"
  shows "(\<exists>t'. TryGet D (trie_fuel k) k t = Some ((m k, None), t') \<and> trie_rep D t' m) \<and>
    (\<exists>t'. TryUpdate D (trie_fuel k) k v t = Some (None, t') \<and> trie_rep D t' (m(k := if v = [] then None else Some v))) \<and>
    (\<exists>t'. TryDelete D (trie_fuel k) k t = Some (None, t') \<and> trie_rep D t' (m(k := None)))"
  using trie_map.get_rep [OF assms, of k] trie_map.update_rep [OF assms, of k v] trie_map.delete_rep [OF assms, of k]
  by (simp add: store_value_def)

text \<open>A trie whose only node, a leaf for the key 12 with the value 07, is still in the database.\<close>

definition sample_db :: "byte list \<Rightarrow> unit Database" where
  "sample_db h = \<lparr>db_Get = \<lambda>k _. Inr (if k = h then Some [0xC4, 0x82, 0x20, 0x12, 0x07] else None), db_Put = \<lambda>k v d. (None, d)\<rparr>"

definition sample_trie :: "byte list \<Rightarrow> unit Trie" where
  "sample_trie h = \<lparr>root = Some (HashNode h), tr_db = Some (), originalRoot = h, cachegen = 0, cachelimit = 0\<rparr>"

lemma sample_loads:
  "loads (sample_db [9]) (sample_trie [9]) [9] =
     Some (ShortNode [1, 2, 16] (Some (ValueNode [7])) \<lparr>fl_hash = Some [9], fl_gen = 0, fl_dirty = False\<rparr>)"
  unfolding loads_def sample_db_def sample_trie_def by code_simp

lemma sample_rep: "trie_rep (sample_db [9]) (sample_trie [9]) [[0x12] \<mapsto> [7]]"
proof -
  let ?R = "loads (sample_db [9]) (sample_trie [9])"
  obtain f where f: "?R [9] = Some (ShortNode ([1, 2] @ [16]) (Some (ValueNode [7])) f)" using sample_loads by auto
  have "wfn ?R (HashNode [9])" by (rule wfn.hash [where R = ?R, OF f wfn.leaf]) simp_all
  moreover have h: "keybytesToHex [0x12] = [1, 2, 16]" by (simp add: keybytesToHex_def)
  have "holds ?R (Some (HashNode [9])) p v \<longleftrightarrow> (\<exists>k. p = keybytesToHex k \<and> [[0x12] \<mapsto> [7]] k = Some v)" for p v
    using h f by (cases "p = [1, 2, 16]") auto
  ultimately show ?thesis by (simp add: trie_rep_def sample_trie_def)
qed

theorem trie_refines_map_witness:
  "\<exists>t'. TryGet (sample_db [9]) (trie_fuel [0x12]) [0x12] (sample_trie [9]) = Some ((Some [7], None), t') \<and>
    trie_rep (sample_db [9]) t' [[0x12] \<mapsto> [7]]"
  using trie_refines_map [OF sample_rep, of "[0x12]"] by simp



end
