(* ===== verification/TrieCanon.thy ===== *)
theory TrieCanon
  imports TrieMap
begin

text \<open>
  The shape of a trie is determined by what it holds.  \<open>expands R n x\<close> says that \<open>x\<close> is the node \<open>n\<close> with everything
  loaded and the flags cleared; two well-formed nodes with the same contents expand to the same node.
\<close>

section \<open>Expansion\<close>

definition no_flag :: nodeFlag where
  "no_flag = \<lparr>fl_hash = None, fl_gen = 0, fl_dirty = False\<rparr>"

inductive expands :: "resolver \<Rightarrow> node \<Rightarrow> node \<Rightarrow> bool" for R where
  ex_value: "expands R (ValueNode v) (ValueNode v)"
| ex_short: "expands R c x \<Longrightarrow> expands R (ShortNode k (Some c) f) (ShortNode k (Some x) no_flag)"
| ex_full: "list_all2 (rel_option (expands R)) cs xs \<Longrightarrow> expands R (FullNode cs f) (FullNode xs no_flag)"
| ex_hash: "R h = Some n \<Longrightarrow> expands R n x \<Longrightarrow> expands R (HashNode h) x"

inductive_simps expands_simps [simp]:
  "expands R (ValueNode v) x"
  "expands R (ShortNode k c f) x"
  "expands R (FullNode cs f) x"
  "expands R (HashNode h) x"

lemma expands_unique: "expands R n x \<Longrightarrow> expands R n y \<Longrightarrow> x = y"
proof (induction arbitrary: y rule: expands.induct)
  case (ex_full cs xs f)
  then obtain ys where y: "y = FullNode ys no_flag" "list_all2 (rel_option (expands R)) cs ys" by auto
  have "xs ! i = ys ! i" if "i < length cs" for i
    using list_all2_nthD [OF ex_full.IH that] list_all2_nthD [OF y(2) that]
    by (cases "cs ! i") (auto simp: option_rel_Some1)
  moreover have "length xs = length cs" "length ys = length cs" using ex_full.IH y(2) by (auto dest: list_all2_lengthD)
  ultimately have "xs = ys" by (intro nth_equalityI) auto
  then show ?case using y(1) by simp
next
  case (ex_short c x k f)
  from ex_short.prems obtain z where "y = ShortNode k (Some z) no_flag" "expands R c z" by auto
  then show ?case using ex_short.IH by simp
next
  case (ex_hash h n x)
  then show ?case by simp
qed simp

text \<open>An expanded node holds the same, needs no resolver, and is well formed.\<close>

lemma expands_holds: "expands R n x \<Longrightarrow> holds R' (Some x) k v \<longleftrightarrow> holds R (Some n) k v"
proof (induction arbitrary: k v rule: expands.induct)
  case (ex_full cs xs f)
  have "holds R' (xs ! i) k v \<longleftrightarrow> holds R (cs ! i) k v" if "i < length cs" for i k v
    using list_all2_nthD [OF ex_full.IH that] by (cases "cs ! i") (auto simp: option_rel_Some1)
  moreover have "length xs = length cs" using ex_full.IH by (auto dest: list_all2_lengthD)
  ultimately show ?case by auto
qed auto

lemma expands_full: "expands R n x \<Longrightarrow> branch R n \<Longrightarrow> is_full x"
  by (induction rule: expands.induct) (auto dest: is_full_branch)

lemma occupied_all2: "list_all2 (rel_option P) cs xs \<Longrightarrow> occupied xs = occupied cs"
  by (induction rule: list_all2_induct) (auto simp: occupied_def elim: option.rel_cases)

lemma wf_expands:
  assumes "wfn R n"
  shows "\<exists>x. expands R n x \<and> wfn R' x \<and> \<not> is_hash x"
  using assms
proof (induction rule: wfn.induct)
  case (leaf k v f)
  then show ?case by (auto intro: wfn.leaf)
next
  case (ext k n f)
  then obtain x where "expands R n x" "wfn R' x" by blast
  then show ?case using ext.hyps expands_full [of R n x] by (auto intro!: wfn.ext is_full_branch)
next
  case (full cs f)
  define ex where "ex i = (SOME x. expands R (the (cs ! i)) x \<and> wfn R' x)" for i
  define xs where "xs = map (\<lambda>i. if i < 16 then map_option (\<lambda>_. ex i) (cs ! i) else cs ! i) [0..<17]"
  have e: "expands R n (ex i) \<and> wfn R' (ex i)" if "i < 16" "cs ! i = Some n" for i n
    unfolding ex_def that(2) option.sel by (rule someI_ex) (use full.IH [OF that] in blast)
  have r: "rel_option (expands R) (cs ! i) (xs ! i)" if "i < 17" for i
  proof (cases "i < 16")
    case True
    then show ?thesis using e by (cases "cs ! i") (auto simp: xs_def)
  next
    case False
    then have "i = 16" using that by simp
    then show ?thesis using full.hyps(3) by (auto simp: xs_def value_slot_def)
  qed
  then have l: "list_all2 (rel_option (expands R)) cs xs" by (simp add: list_all2_conv_all_nth full.hyps(1) xs_def)
  have "wfn R' (FullNode xs no_flag)"
  proof (rule wfn.full)
    show "length xs = 17" "value_slot (xs ! 16)" using full.hyps(3) by (simp_all add: xs_def)
    show "wfn R' m" if "i < 16" "xs ! i = Some m" for i m using that e by (auto simp: xs_def)
    show "2 \<le> occupied xs" using full.hyps(4) occupied_all2 [OF l] by simp
  qed
  then show ?case using l by auto
next
  case (hash h n)
  then show ?case by auto
qed

lemma expands_idem: "expands R n x \<Longrightarrow> expands R' x x"
proof (induction rule: expands.induct)
  case (ex_full cs xs f)
  have "rel_option (expands R') (xs ! i) (xs ! i)" if "i < length cs" for i
    using list_all2_nthD [OF ex_full.IH that] by (cases "cs ! i") (auto simp: option_rel_Some1)
  moreover have "length xs = length cs" using ex_full.IH by (auto dest: list_all2_lengthD)
  ultimately show ?case by (simp add: list_all2_conv_all_nth)
qed auto

section \<open>Contents determine the shape\<close>

lemma occupied_two:
  assumes "2 \<le> occupied cs"
  obtains i j where "i < length cs" "j < length cs" "i \<noteq> j" "cs ! i \<noteq> None" "cs ! j \<noteq> None"
proof -
  obtain i where i: "i < length cs" "cs ! i \<noteq> None" using assms occupied_zero [of cs] by auto
  then have "0 < occupied (cs[i := None])" using occupied_update [OF i(1), of None] assms by auto
  then obtain j where "j < length cs" "cs[i := None] ! j \<noteq> None" using occupied_zero [of "cs[i := None]"] by auto
  then show ?thesis using that i by (metis nth_list_update_eq nth_list_update_neq)
qed

lemma full_child:
  assumes "wfn R (FullNode cs f)" "i < 17" "cs ! i \<noteq> None"
    and IH: "\<And>j n. j < 16 \<Longrightarrow> cs ! j = Some n \<Longrightarrow> \<exists>k v. holds R (Some n) k v"
  shows "\<exists>k v. holds R (Some (FullNode cs f)) (of_nat i # k) v"
proof -
  have u: "unat (of_nat i :: byte) = i" using assms(2) by (simp add: unsigned_of_nat take_bit_nat_eq_self)
  obtain n where n: "cs ! i = Some n" using assms(3) by blast
  have "\<exists>k v. holds R (cs ! i) k v"
  proof (cases "i < 16")
    case False
    then have "i = 16" using assms(2) by simp
    then show ?thesis using wf_FullD(3) [OF assms(1)] assms(3) by (auto simp: value_slot_def)
  qed (use IH n in auto)
  then show ?thesis using u assms(2) wf_FullD(1) [OF assms(1)] by auto
qed

lemma of_nat_byte_inject: "i < 17 \<Longrightarrow> j < 17 \<Longrightarrow> (of_nat i :: byte) = of_nat j \<longleftrightarrow> i = j"
  by (auto simp: word_unat_eq_iff unsigned_of_nat take_bit_nat_eq_self)

lemma wf_nonempty: "wfn R n \<Longrightarrow> \<exists>k v. holds R (Some n) k v"
proof (induction rule: wfn.induct)
  case (full cs f)
  have w: "wfn R (FullNode cs f)" using full.hyps by (rule wfn.full)
  obtain i where "i < 17" "cs ! i \<noteq> None" using occupied_two [OF full.hyps(4)] full.hyps(1) by metis
  then show ?case using full_child [OF w] full.IH by blast
qed auto

text \<open>A full node holds keys with different first nibbles, a short node only keys with its own.\<close>

lemma wf_full_two:
  assumes "wfn R n" "is_full n"
  obtains x y k k' v v' where "x \<noteq> y" "holds R (Some n) (x # k) v" "holds R (Some n) (y # k') v'"
proof -
  obtain cs f where n: "n = FullNode cs f" using assms(2) by (cases n) auto
  note d = wf_FullD [OF assms(1) [unfolded n]]
  obtain i j where ij: "i < 17" "j < 17" "i \<noteq> j" "cs ! i \<noteq> None" "cs ! j \<noteq> None" using occupied_two [OF d(4)] d(1) by metis
  have "\<exists>k v. holds R (Some n) (of_nat i # k) v" "\<exists>k v. holds R (Some n) (of_nat j # k) v"
    using ij full_child [OF assms(1) [unfolded n]] wf_nonempty d(2) unfolding n by blast+
  then show ?thesis using that of_nat_byte_inject [OF ij(1,2)] ij(3) by metis
qed

lemma common_prefix: "k2 @ a # s = k @ t \<Longrightarrow> k2 @ b # s' = k @ t' \<Longrightarrow> a \<noteq> b \<Longrightarrow> \<exists>u. k2 = k @ u"
proof (induction k arbitrary: k2)
  case (Cons x k)
  then show ?case by (cases k2) auto
qed simp

lemma ext_prefix:
  assumes "wfn R n" "is_full n" "\<And>p v. holds R (Some n) p v \<Longrightarrow> \<exists>t. k2 @ p = k @ t"
  shows "\<exists>u. k2 = k @ u"
proof -
  obtain x y p p' v v' where h: "x \<noteq> y" "holds R (Some n) (x # p) v" "holds R (Some n) (y # p') v'"
    by (rule wf_full_two [OF assms(1,2)])
  obtain t t' where "k2 @ x # p = k @ t" "k2 @ y # p' = k @ t'" using assms(3) [OF h(2)] assms(3) [OF h(3)] by blast
  then show ?thesis using h(1) by (rule common_prefix)
qed

text \<open>The key of a short node is the longest common prefix of what it holds.\<close>

lemma expands_not_hash: "expands R n x \<Longrightarrow> \<not> is_hash x"
  by (induction rule: expands.induct) auto

lemma plain_cases:
  assumes "wfn R y" "expands R y y"
  obtains (pleaf) k v where "y = ShortNode (k @ [16]) (Some (ValueNode v)) no_flag"
    | (pext) k n where "y = ShortNode k (Some n) no_flag" "k \<noteq> []" "wfn R n" "is_full n" "expands R n n"
    | (pfull) cs where "y = FullNode cs no_flag" "length cs = 17" "list_all2 (rel_option (expands R)) cs cs"
proof (cases y)
  case (ShortNode k c f)
  have f: "f = no_flag" "\<exists>n. c = Some n \<and> expands R n n" using assms(2) ShortNode by auto
  show ?thesis
    using assms(1) [unfolded ShortNode]
  proof (cases rule: wf_Short_cases)
    case (leaf k' v)
    then show ?thesis using that(1) ShortNode f by blast
  next
    case (ext n)
    have "is_full n" using ext(1,5) f(2) expands_not_hash [of R n n] by (cases n) auto
    then show ?thesis using that(2) ext ShortNode f by auto
  qed
next
  case (FullNode cs f)
  then show ?thesis using assms that(3) wf_FullD(1) by auto
qed (use assms expands_not_hash [OF assms(2)] in auto)

definition same_contents :: "resolver \<Rightarrow> node \<Rightarrow> node \<Rightarrow> bool" where
  "same_contents R x y \<longleftrightarrow> (\<forall>k v. holds R (Some x) k v \<longleftrightarrow> holds R (Some y) k v)"

lemma leaf_not_ext:
  assumes "wfn R n" "is_full n"
  shows "\<not> same_contents R (ShortNode p (Some (ValueNode v)) f) (ShortNode k (Some n) f')"
proof
  assume a: "same_contents R (ShortNode p (Some (ValueNode v)) f) (ShortNode k (Some n) f')"
  obtain x y s s' w w' where h: "x \<noteq> y" "holds R (Some n) (x # s) w" "holds R (Some n) (y # s') w'"
    by (rule wf_full_two [OF assms])
  then have "k @ x # s = p" "k @ y # s' = p" using a by (auto simp: same_contents_def)
  then show False using h(1) by auto
qed

lemma short_not_full:
  assumes "wfn R (FullNode cs f')" "p \<noteq> []"
  shows "\<not> same_contents R (ShortNode p c f) (FullNode cs f')"
proof
  assume a: "same_contents R (ShortNode p c f) (FullNode cs f')"
  obtain x y s s' w w' where h: "x \<noteq> y" "holds R (Some (FullNode cs f')) (x # s) w" "holds R (Some (FullNode cs f')) (y # s') w'"
    by (rule wf_full_two [OF assms(1)]) simp
  then have "holds R (Some (ShortNode p c f)) (x # s) w" "holds R (Some (ShortNode p c f)) (y # s') w'"
    using a by (simp_all only: same_contents_def)
  then obtain q q' where "x # s = p @ q" "y # s' = p @ q'" by auto
  then show False using h(1) assms(2) by (cases p) auto
qed

lemma same_ext:
  assumes "wfn R n" "is_full n" "wfn R n'" "is_full n'" "same_contents R (ShortNode k (Some n) f) (ShortNode k' (Some n') f')"
  shows "k = k' \<and> same_contents R n n'"
proof -
  have h: "(\<exists>q. p = k @ q \<and> holds R (Some n) q v) \<longleftrightarrow> (\<exists>q. p = k' @ q \<and> holds R (Some n') q v)" for p v
    using assms(5) by (simp add: same_contents_def)
  have "\<exists>t. k' @ p = k @ t" if "holds R (Some n') p v" for p v using h [of "k' @ p" v] that by blast
  then have "\<exists>u. k' = k @ u" by (rule ext_prefix [OF assms(3,4)])
  moreover have "\<exists>t. k @ p = k' @ t" if "holds R (Some n) p v" for p v using h [of "k @ p" v] that by blast
  then have "\<exists>u. k = k' @ u" by (rule ext_prefix [OF assms(1,2)])
  ultimately have "k = k'" by auto
  then show ?thesis using h [of "k @ _"] by (simp add: same_contents_def)
qed

lemma same_full:
  assumes "same_contents R (FullNode cs f) (FullNode cs' f')" "length cs = 17" "length cs' = 17" "i < 17"
  shows "holds R (cs ! i) k v \<longleftrightarrow> holds R (cs' ! i) k v"
proof -
  have "unat (of_nat i :: byte) = i" using assms(4) by (simp add: unsigned_of_nat take_bit_nat_eq_self)
  then show ?thesis
    using assms(2-4) spec [OF spec [OF assms(1) [unfolded same_contents_def], of "of_nat i # k"], of v] by simp
qed

lemma same_contents_sym: "same_contents R x y \<Longrightarrow> same_contents R y x"
  by (simp add: same_contents_def)

lemma same_contentsD: "same_contents R x y \<Longrightarrow> holds R (Some x) k v \<Longrightarrow> holds R (Some y) k v"
  by (simp add: same_contents_def)

lemma canonical_full:
  assumes "wfn R (FullNode cs f)" "wfn R (FullNode cs' f)" "same_contents R (FullNode cs f) (FullNode cs' f)"
    and p: "list_all2 (rel_option (expands R)) cs cs" "list_all2 (rel_option (expands R)) cs' cs'"
    and IH: "\<And>i n y. i < 16 \<Longrightarrow> cs ! i = Some n \<Longrightarrow> expands R n n \<Longrightarrow> wfn R y \<Longrightarrow> expands R y y \<Longrightarrow> same_contents R n y \<Longrightarrow> n = y"
  shows "cs = cs'"
proof (rule nth_equalityI)
  note l = wf_FullD(1) [OF assms(1)] wf_FullD(1) [OF assms(2)]
  show "length cs = length cs'" using l by simp
  fix i assume "i < length cs"
  then have i: "i < 17" using l by simp
  note h = same_full [OF assms(3) l i]
  show "cs ! i = cs' ! i"
  proof (cases "i < 16")
    case True
    have e: "expands R n n" if "cs ! i = Some n" for n using list_all2_nthD [OF p(1), of i] i l that by simp
    have e': "expands R n n" if "cs' ! i = Some n" for n using list_all2_nthD [OF p(2), of i] i l that by simp
    have w: "wfn R n" if "cs ! i = Some n" for n using wf_FullD(2) [OF assms(1) True that] .
    have w': "wfn R n" if "cs' ! i = Some n" for n using wf_FullD(2) [OF assms(2) True that] .
    show ?thesis
    proof (cases "cs ! i")
      case None
      then show ?thesis using h w' wf_nonempty by (cases "cs' ! i") fastforce+
    next
      case (Some n)
      then obtain n' where n': "cs' ! i = Some n'" using h w wf_nonempty by (cases "cs' ! i") fastforce+
      then have "same_contents R n n'" using h Some by (simp add: same_contents_def)
      then show ?thesis using IH [OF True Some e [OF Some] w' [OF n'] e' [OF n']] Some n' by simp
    qed
  next
    case False
    then have "i = 16" using i by simp
    moreover have v: "\<forall>v. holds R (cs ! i) [] v \<longleftrightarrow> holds R (cs' ! i) [] v" using h by blast
    ultimately show ?thesis using wf_FullD(3) [OF assms(1)] wf_FullD(3) [OF assms(2)] v by (auto simp: value_slot_def)
  qed
qed

lemma canonical:
  assumes "wfn R x" "expands R x x" "wfn R y" "expands R y y" "same_contents R x y"
  shows "x = y"
  using assms
proof (induction arbitrary: y rule: wfn.induct)
  case (leaf k v f)
  show ?case
    using leaf.prems(2,3)
  proof (cases rule: plain_cases)
    case (pleaf k' v')
    have "holds R (Some y) (k @ [16]) v" by (rule same_contentsD [OF leaf.prems(4)]) simp
    then show ?thesis using pleaf leaf.prems(1) by simp
  next
    case (pext k' n)
    then show ?thesis using leaf.prems(4) leaf_not_ext [OF pext(3,4)] by blast
  next
    case (pfull cs)
    then show ?thesis using leaf.prems(2,4) short_not_full [of R cs no_flag "k @ [16]"] by blast
  qed
next
  case (ext k n f)
  have n: "expands R n n" "f = no_flag" using ext.prems(1) by auto
  then have "is_full n" using ext.hyps(4) expands_not_hash [of R n n] by (cases n) auto
  show ?case
    using ext.prems(2,3)
  proof (cases rule: plain_cases)
    case (pleaf k' v')
    then show ?thesis using same_contents_sym [OF ext.prems(4)] leaf_not_ext [OF ext.hyps(3) \<open>is_full n\<close>] by blast
  next
    case (pext k' n')
    then have "k = k'" "same_contents R n n'" using same_ext [OF ext.hyps(3) \<open>is_full n\<close> pext(3,4)] ext.prems(4) by blast+
    then show ?thesis using ext.IH [OF n(1) pext(3,5)] pext(1) n(2) by simp
  next
    case (pfull cs)
    then show ?thesis using ext.prems(2,4) ext.hyps(2) short_not_full [of R cs no_flag k] by blast
  qed
next
  case (full cs f)
  have w: "wfn R (FullNode cs f)" using full.hyps by (rule wfn.full)
  have f: "f = no_flag" "list_all2 (rel_option (expands R)) cs cs" using full.prems(1) by auto
  show ?case
    using full.prems(2,3)
  proof (cases rule: plain_cases)
    case (pleaf k' v')
    then show ?thesis using same_contents_sym [OF full.prems(4)] short_not_full [OF w, of "k' @ [16]"] by blast
  next
    case (pext k' n')
    then show ?thesis using same_contents_sym [OF full.prems(4)] short_not_full [OF w, of k'] by blast
  next
    case (pfull cs')
    have "cs = cs'"
      using full.prems(2,4) pfull w f full.IH by (intro canonical_full [of R cs f cs']) simp_all
    then show ?thesis using pfull(1) f(1) by simp
  qed
next
  case (hash h n)
  show ?case using expands_not_hash [OF hash.prems(1)] by simp
qed

end
