(* ===== verification/TrieHasher.thy ===== *)
theory TrieHasher
  imports MerkleTrie
begin

text \<open>
  Hashing and committing a trie, \<^verbatim>\<open>src/trie/hasher.go\<close> and the end of \<^verbatim>\<open>src/trie/trie.go\<close>, and the trie with hashed keys,
  \<^verbatim>\<open>src/trie/secure_trie.go\<close>.

  \<open>sha\<close> is the hash function, a parameter.  The writer behind \<^verbatim>\<open>DatabaseWriter\<close> is what \<^verbatim>\<open>Put\<close> does to its state; a nil
  writer, as \<^verbatim>\<open>Hash\<close> passes it, is the state \<^term>\<open>None\<close>.  \<open>eb\<close> is the encode buffer that the pool of the RLP
  package hands out.  Results are \<^term>\<open>None\<close> where the code panics.
\<close>

type_synonym 'w put = "byte list \<Rightarrow> byte list \<Rightarrow> 'w \<Rightarrow> string option \<times> 'w"

record hasher =
  sha :: "byte list \<Rightarrow> byte list"
  ha_cachegen :: "16 word"
  ha_cachelimit :: "16 word"

text \<open>Nodes that encode to less than 32 bytes stay inside their parent.  The callers never pass nil.\<close>

definition hasher_store :: "'w put \<Rightarrow> encbuf \<Rightarrow> hasher \<Rightarrow> node \<Rightarrow> bool \<Rightarrow> ('w option, node \<times> string option) op" where
  "hasher_store P eb h n force db = (case n of
     HashNode _ \<Rightarrow> Some ((n, None), db)
   | _ \<Rightarrow> (case rlp_Encode eb buffer_Write (node_value n) [] of
       (Inr None, tmp) \<Rightarrow>
         if length tmp < 32 \<and> \<not> force then Some ((n, None), db)
         else let hash = (case fst (node_cache n) of Some hash \<Rightarrow> hash | None \<Rightarrow> sha h tmp)
              in (case db of
                    None \<Rightarrow> Some ((HashNode hash, None), None)
                  | Some w \<Rightarrow> let (err, w) = P hash tmp w in Some ((HashNode hash, err), Some w))
     | _ \<Rightarrow> None))"

text \<open>The hash, and in commit mode a clear dirty flag, go into the flags of the cached copy.\<close>

definition set_flags :: "byte list option \<Rightarrow> bool \<Rightarrow> nodeFlag \<Rightarrow> nodeFlag" where
  "set_flags cachedHash commit f =
     (let f = f\<lparr>fl_hash := cachedHash\<rparr> in if commit then f\<lparr>fl_dirty := False\<rparr> else f)"

fun set_cached :: "byte list option \<Rightarrow> bool \<Rightarrow> node \<Rightarrow> node" where
  "set_cached cachedHash commit (ShortNode k v f) = ShortNode k v (set_flags cachedHash commit f)"
| "set_cached cachedHash commit (FullNode cs f) = FullNode cs (set_flags cachedHash commit f)"
| "set_cached cachedHash commit n = n"

fun as_hash :: "node \<Rightarrow> byte list option" where
  "as_hash (HashNode h) = Some h" | "as_hash _ = None"

text \<open>
  \<open>hash_list\<close> is the loop of \<^verbatim>\<open>hashChildren\<close> over the array of a full node, from index \<open>i\<close> on: the first sixteen children are
  hashed, the last one is a value and stays.  A nil child is encoded as the empty string.
\<close>

function (sequential) hasher_hash :: "'w put \<Rightarrow> encbuf \<Rightarrow> hasher \<Rightarrow> node \<Rightarrow> bool \<Rightarrow> ('w option, node \<times> node \<times> string option) op"
  and hashChildren :: "'w put \<Rightarrow> encbuf \<Rightarrow> hasher \<Rightarrow> node \<Rightarrow> ('w option, node \<times> node \<times> string option) op"
  and hash_list :: "'w put \<Rightarrow> encbuf \<Rightarrow> hasher \<Rightarrow> nat \<Rightarrow> node option list \<Rightarrow>
    ('w option, node option list \<times> node option list \<times> string option) op"
where
  "hasher_hash P eb h n force db =
     (case node_cache n of (hash, dirty) \<Rightarrow>
        if hash \<noteq> None \<and> db = None then Some ((HashNode (the hash), n, None), db)
        else if hash \<noteq> None \<and> node_canUnload n (ha_cachegen h) (ha_cachelimit h) then Some ((HashNode (the hash), HashNode (the hash), None), db)
        else if hash \<noteq> None \<and> \<not> dirty then Some ((HashNode (the hash), n, None), db)
        else do {
          ((collapsed, cached, err), db) \<leftarrow> hashChildren P eb h n db;
          if err \<noteq> None then Some ((HashNode [], n, err), db)
          else do {
            ((hashed, err), db) \<leftarrow> hasher_store P eb h collapsed force db;
            if err \<noteq> None then Some ((HashNode [], n, err), db)
            else Some ((hashed, set_cached (as_hash hashed) (db \<noteq> None) cached, None), db)
          }
        })"
| "hashChildren P eb h (ShortNode k v f) db = do {
     key \<leftarrow> hexToCompact k;
     (case v of
        None \<Rightarrow> None
      | Some (ValueNode w) \<Rightarrow> Some ((ShortNode key v f, ShortNode k v f, None), db)
      | Some child \<Rightarrow> do {
          ((hashed, cached, err), db) \<leftarrow> hasher_hash P eb h child False db;
          if err \<noteq> None then Some ((ShortNode k v f, ShortNode k v f, err), db)
          else Some ((ShortNode key (Some hashed) f, ShortNode k (Some cached) f, None), db)
        })
   }"
| "hashChildren P eb h (FullNode cs f) db = do {
     ((collapsed, cached, err), db) \<leftarrow> hash_list P eb h 0 cs db;
     if err \<noteq> None then Some ((FullNode cs f, FullNode cs f, err), db)
     else Some ((FullNode collapsed f, FullNode cached f, None), db)
   }"
| "hashChildren P eb h n db = Some ((n, n, None), db)"
| "hash_list P eb h i [] db = Some (([], [], None), db)"
| "hash_list P eb h i (c # cs) db = do {
     ((x, y, err), db) \<leftarrow> (case c of
         None \<Rightarrow> Some ((ValueNode [], None, None), db)
       | Some n \<Rightarrow>
           if i < 16 then do {
             ((hashed, cached, err), db) \<leftarrow> hasher_hash P eb h n False db;
             Some ((hashed, Some cached, err), db)
           } else Some ((n, c, None), db));
     if err \<noteq> None then Some (([], [], err), db)
     else do {
       ((xs, ys, err), db) \<leftarrow> hash_list P eb h (i + 1) cs db;
       Some ((Some x # xs, y # ys, err), db)
     }
   }"
  by pat_completeness auto
termination
  by (relation "measures [\<lambda>x. case x of Inl (P, eb, h, n, _) \<Rightarrow> size n | Inr (Inl (P, eb, h, n, _)) \<Rightarrow> size n
      | Inr (Inr (P, eb, h, i, cs, _)) \<Rightarrow> size_list (size_option size) cs,
      \<lambda>x. case x of Inl _ \<Rightarrow> 1 | _ \<Rightarrow> 0]") auto

section \<open>Hashing and committing a trie\<close>

definition hashRoot :: "'w put \<Rightarrow> encbuf \<Rightarrow> (byte list \<Rightarrow> byte list) \<Rightarrow> 'd Trie \<Rightarrow> ('w option, node \<times> node option \<times> string option) op" where
  "hashRoot P eb K t db = (case root t of
     None \<Rightarrow> Some ((HashNode emptyRoot, None, None), db)
   | Some n \<Rightarrow> do {
       ((hashed, cached, err), db) \<leftarrow> hasher_hash P eb \<lparr>sha = K, ha_cachegen = cachegen t, ha_cachelimit = cachelimit t\<rparr> n True db;
       Some ((hashed, Some cached, err), db)
     })"

text \<open>
  \<^verbatim>\<open>Hash\<close> has no writer; \<open>map_put\<close>, which fills a map, only gives it a type.  The type assertion \<^verbatim>\<open>hash.(hashNode)\<close>
  panics for another kind of node.
\<close>

definition map_put :: "(byte list \<rightharpoonup> byte list) put" where
  "map_put k v w = (None, w(k \<mapsto> v))"

definition Trie_Hash :: "encbuf \<Rightarrow> (byte list \<Rightarrow> byte list) \<Rightarrow> ('d Trie, byte list) op" where
  "Trie_Hash eb K t = do {
     ((hash, cached, _), _) \<leftarrow> hashRoot map_put eb K t None;
     h \<leftarrow> as_hash hash;
     Some (BytesToHash h, t\<lparr>root := cached\<rparr>)
   }"

definition Trie_CommitTo :: "'w put \<Rightarrow> encbuf \<Rightarrow> (byte list \<Rightarrow> byte list) \<Rightarrow> 'w \<Rightarrow> 'd Trie \<Rightarrow>
    ((byte list \<times> string option) \<times> 'd Trie \<times> 'w) option" where
  "Trie_CommitTo P eb K w t = do {
     ((hash, cached, err), db) \<leftarrow> hashRoot P eb K t (Some w);
     w \<leftarrow> db;
     if err \<noteq> None then Some ((zeroHash, err), t, w)
     else do {
       h \<leftarrow> as_hash hash;
       Some ((BytesToHash h, None), t\<lparr>root := cached, cachegen := cachegen t + 1\<rparr>, w)
     }
   }"

definition Trie_Commit :: "'d Database \<Rightarrow> encbuf \<Rightarrow> (byte list \<Rightarrow> byte list) \<Rightarrow> ('d Trie, byte list \<times> string option) op" where
  "Trie_Commit D eb K t = do {
     db \<leftarrow> tr_db t;
     (r, t, db) \<leftarrow> Trie_CommitTo (db_Put D) eb K db t;
     Some (r, t\<lparr>tr_db := Some db\<rparr>)
   }"

section \<open>The trie with hashed keys\<close>

text \<open>
  \<open>owned\<close> says that \<^verbatim>\<open>secKeyCacheOwner\<close> is the trie itself: it is false for a new trie and for a copy, which then start a cache of
  their own.
\<close>

record 'd SecureTrie =
  st_trie :: "'d Trie"
  secKeyCache :: "(byte list, byte list) gomap"
  owned :: bool

definition secureKeyPrefix :: "byte list" where
  "secureKeyPrefix = [0x73, 0x65, 0x63, 0x75, 0x72, 0x65, 0x2D, 0x6B, 0x65, 0x79, 0x2D]"

definition secKey :: "byte list \<Rightarrow> byte list" where
  "secKey key = secureKeyPrefix @ key"

definition NewSecure :: "'d Database \<Rightarrow> byte list \<Rightarrow> 'd option \<Rightarrow> 16 word \<Rightarrow> (trie_error, 'd SecureTrie) result option" where
  "NewSecure D rt db limit =
     (if db = None then None
      else do {
        r \<leftarrow> New D rt db;
        Some (case r of
            Inl e \<Rightarrow> Inl e
          | Inr t \<Rightarrow> Inr \<lparr>st_trie = SetCacheLimit limit t, secKeyCache = [], owned = False\<rparr>)
      })"

definition getSecKeyCache :: "'d SecureTrie \<Rightarrow> 'd SecureTrie" where
  "getSecKeyCache t = (if \<not> owned t then t\<lparr>owned := True, secKeyCache := []\<rparr> else t)"

definition SecureTrie_TryGet :: "'d Database \<Rightarrow> (byte list \<Rightarrow> byte list) \<Rightarrow> nat \<Rightarrow> byte list \<Rightarrow> ('d SecureTrie, byte list option \<times> trie_error option) op" where
  "SecureTrie_TryGet D K fuel key t = do {
     (r, tr) \<leftarrow> TryGet D fuel (K key) (st_trie t);
     Some (r, t\<lparr>st_trie := tr\<rparr>)
   }"

definition SecureTrie_TryUpdate :: "'d Database \<Rightarrow> (byte list \<Rightarrow> byte list) \<Rightarrow> nat \<Rightarrow> byte list \<Rightarrow> byte list \<Rightarrow> ('d SecureTrie, trie_error option) op" where
  "SecureTrie_TryUpdate D K fuel key value t = do {
     let hk = K key;
     (err, tr) \<leftarrow> TryUpdate D fuel hk value (st_trie t);
     let t = t\<lparr>st_trie := tr\<rparr>;
     if err \<noteq> None then Some (err, t)
     else let t = getSecKeyCache t in Some (None, t\<lparr>secKeyCache := AList.update hk key (secKeyCache t)\<rparr>)
   }"

definition SecureTrie_TryDelete :: "'d Database \<Rightarrow> (byte list \<Rightarrow> byte list) \<Rightarrow> nat \<Rightarrow> byte list \<Rightarrow> ('d SecureTrie, trie_error option) op" where
  "SecureTrie_TryDelete D K fuel key t = do {
     let hk = K key;
     let t = getSecKeyCache t;
     let t = t\<lparr>secKeyCache := AList.delete hk (secKeyCache t)\<rparr>;
     (err, tr) \<leftarrow> TryDelete D fuel hk (st_trie t);
     Some (err, t\<lparr>st_trie := tr\<rparr>)
   }"

text \<open>\<^verbatim>\<open>Get\<close>, \<^verbatim>\<open>Update\<close> and \<^verbatim>\<open>Delete\<close> log the error.\<close>

definition SecureTrie_Get :: "'d Database \<Rightarrow> (byte list \<Rightarrow> byte list) \<Rightarrow> nat \<Rightarrow> byte list \<Rightarrow> ('d SecureTrie, byte list option) op" where
  "SecureTrie_Get D K fuel key t = do { ((res, err), t) \<leftarrow> SecureTrie_TryGet D K fuel key t; Some (res, t) }"

definition SecureTrie_Update :: "'d Database \<Rightarrow> (byte list \<Rightarrow> byte list) \<Rightarrow> nat \<Rightarrow> byte list \<Rightarrow> byte list \<Rightarrow> ('d SecureTrie, unit) op" where
  "SecureTrie_Update D K fuel key value t = do { (err, t) \<leftarrow> SecureTrie_TryUpdate D K fuel key value t; Some ((), t) }"

definition SecureTrie_Delete :: "'d Database \<Rightarrow> (byte list \<Rightarrow> byte list) \<Rightarrow> nat \<Rightarrow> byte list \<Rightarrow> ('d SecureTrie, unit) op" where
  "SecureTrie_Delete D K fuel key t = do { (err, t) \<leftarrow> SecureTrie_TryDelete D K fuel key t; Some ((), t) }"

definition GetKey :: "'d Database \<Rightarrow> byte list \<Rightarrow> ('d SecureTrie, byte list option) op" where
  "GetKey D shaKey t = do {
     let t = getSecKeyCache t;
     (case map_of (secKeyCache t) shaKey of
        Some key \<Rightarrow> Some (Some key, t)
      | None \<Rightarrow> do {
          db \<leftarrow> tr_db (st_trie t);
          Some (case db_Get D (secKey shaKey) db of Inr key \<Rightarrow> key | Inl _ \<Rightarrow> None, t)
        })
   }"

definition SecureTrie_Copy :: "'d SecureTrie \<Rightarrow> 'd SecureTrie" where
  "SecureTrie_Copy t = t\<lparr>owned := False\<rparr>"

definition SecureTrie_Hash :: "encbuf \<Rightarrow> (byte list \<Rightarrow> byte list) \<Rightarrow> ('d SecureTrie, byte list) op" where
  "SecureTrie_Hash eb K t = do { (h, tr) \<leftarrow> Trie_Hash eb K (st_trie t); Some (h, t\<lparr>st_trie := tr\<rparr>) }"

text \<open>The loop over the key cache, in the order in which the map is ranged over.\<close>

fun put_keys :: "'w put \<Rightarrow> (byte list, byte list) gomap \<Rightarrow> 'w \<Rightarrow> string option \<times> 'w" where
  "put_keys P [] w = (None, w)"
| "put_keys P ((hk, key) # m) w =
     (let (err, w) = P (secKey hk) key w in if err \<noteq> None then (err, w) else put_keys P m w)"

definition SecureTrie_CommitTo :: "'w put \<Rightarrow> encbuf \<Rightarrow> (byte list \<Rightarrow> byte list) \<Rightarrow> 'w \<Rightarrow> 'd SecureTrie \<Rightarrow>
    ((byte list \<times> string option) \<times> 'd SecureTrie \<times> 'w) option" where
  "SecureTrie_CommitTo P eb K w t = do {
     let t = getSecKeyCache t;
     let (err, w) = put_keys P (secKeyCache t) w;
     if err \<noteq> None then Some ((zeroHash, err), t, w)
     else do {
       let t = t\<lparr>secKeyCache := []\<rparr>;
       (r, tr, w) \<leftarrow> Trie_CommitTo P eb K w (st_trie t);
       Some (r, t\<lparr>st_trie := tr\<rparr>, w)
     }
   }"

text \<open>A trie with hashed keys always has a database, see \<^verbatim>\<open>NewSecure\<close>.\<close>

definition SecureTrie_Commit :: "'d Database \<Rightarrow> encbuf \<Rightarrow> (byte list \<Rightarrow> byte list) \<Rightarrow> ('d SecureTrie, byte list \<times> string option) op" where
  "SecureTrie_Commit D eb K t = do {
     db \<leftarrow> tr_db (st_trie t);
     (r, t, db) \<leftarrow> SecureTrie_CommitTo (db_Put D) eb K db t;
     Some (r, t\<lparr>st_trie := (st_trie t)\<lparr>tr_db := Some db\<rparr>\<rparr>)
   }"

end
