(* ===== verification/TrieRep.thy ===== *)
theory TrieRep
  imports TrieCanon TrieHasher
begin

text \<open>
  What a node in memory stands for once hashes are taken into account.  The reference is a fully expanded node:
  \<open>nval\<close> is the value that is encoded for it, with children replaced by their hashes where their encoding has
  32 bytes or more.  \<open>stands_for\<close> relates a node in memory, some of it cached, hashed or left in the database, to its
  expansion.
\<close>

section \<open>The reference encoding\<close>

fun is_value :: "node \<Rightarrow> bool" where
  "is_value (ValueNode v) = True" | "is_value _ = False"

definition rlp_ref :: "(byte list \<Rightarrow> byte list) \<Rightarrow> rlp_value \<Rightarrow> rlp_value" where
  "rlp_ref K v = (if length (rlp_bytes v) < 32 then v else VBytes (K (rlp_bytes v)))"

fun nval :: "(byte list \<Rightarrow> byte list) \<Rightarrow> node \<Rightarrow> rlp_value" where
  "nval K (ValueNode v) = VBytes v"
| "nval K (HashNode h) = VBytes h"
| "nval K (ShortNode k c f) = VStruct [VBytes (the (hexToCompact k)),
     (case c of None \<Rightarrow> VBytes [] | Some n \<Rightarrow> if is_value n then nval K n else rlp_ref K (nval K n))]"
| "nval K (FullNode cs f) = VSlice False (map (\<lambda>c. case c of None \<Rightarrow> VBytes []
     | Some n \<Rightarrow> if is_value n then nval K n else rlp_ref K (nval K n)) cs)"

definition child_val :: "(byte list \<Rightarrow> byte list) \<Rightarrow> node option \<Rightarrow> rlp_value" where
  "child_val K c = (case c of None \<Rightarrow> VBytes [] | Some n \<Rightarrow> if is_value n then nval K n else rlp_ref K (nval K n))"

lemma nval_Short: "nval K (ShortNode k c f) = VStruct [VBytes (the (hexToCompact k)), child_val K c]"
  by (simp add: child_val_def)

lemma nval_Full: "nval K (FullNode cs f) = VSlice False (map (child_val K) cs)"
  by (simp add: child_val_def [abs_def])

declare nval.simps(3,4) [simp del]

definition node_enc :: "(byte list \<Rightarrow> byte list) \<Rightarrow> node \<Rightarrow> byte list" where
  "node_enc K x = rlp_bytes (nval K x)"

abbreviation big :: "(byte list \<Rightarrow> byte list) \<Rightarrow> node \<Rightarrow> bool" where
  "big K x \<equiv> 32 \<le> length (node_enc K x)"

text \<open>No encoding has 2 to the 63 bytes or more.\<close>

fun fits :: "(byte list \<Rightarrow> byte list) \<Rightarrow> node \<Rightarrow> bool" where
  "fits K (ShortNode k c f) \<longleftrightarrow> length (node_enc K (ShortNode k c f)) < 2 ^ 63 \<and>
     (case c of None \<Rightarrow> True | Some n \<Rightarrow> fits K n)"
| "fits K (FullNode cs f) \<longleftrightarrow> length (node_enc K (FullNode cs f)) < 2 ^ 63 \<and>
     (\<forall>c \<in> set cs. case c of None \<Rightarrow> True | Some n \<Rightarrow> fits K n)"
| "fits K _ \<longleftrightarrow> True"

text \<open>Everything below the node that has a hash of its own is in the database \<open>get\<close>, or the node itself as well.\<close>

fun saved_below :: "(byte list \<Rightarrow> byte list) \<Rightarrow> (byte list \<Rightarrow> byte list option) \<Rightarrow> node \<Rightarrow> bool" where
  "saved_below K get (ShortNode k c f) \<longleftrightarrow> (case c of None \<Rightarrow> True
     | Some n \<Rightarrow> saved_below K get n \<and> (\<not> is_value n \<and> big K n \<longrightarrow> get (K (node_enc K n)) = Some (node_enc K n)))"
| "saved_below K get (FullNode cs f) \<longleftrightarrow> (\<forall>c \<in> set cs. case c of None \<Rightarrow> True
     | Some n \<Rightarrow> saved_below K get n \<and> (\<not> is_value n \<and> big K n \<longrightarrow> get (K (node_enc K n)) = Some (node_enc K n)))"
| "saved_below K get _ \<longleftrightarrow> True"

definition saved :: "(byte list \<Rightarrow> byte list) \<Rightarrow> (byte list \<Rightarrow> byte list option) \<Rightarrow> node \<Rightarrow> bool" where
  "saved K get x \<longleftrightarrow> saved_below K get x \<and> get (K (node_enc K x)) = Some (node_enc K x)"

lemma saved_below_mono:
  "saved_below K get x \<Longrightarrow> (\<And>h e. get h = Some e \<Longrightarrow> get' h = Some e) \<Longrightarrow> saved_below K get' x"
  by (induction x) (fastforce split: option.splits)+

text \<open>Expanded nodes in minimal form.\<close>

definition ref_node :: "(byte list \<Rightarrow> byte list) \<Rightarrow> node \<Rightarrow> bool" where
  "ref_node K x \<longleftrightarrow> wfn (\<lambda>_. None) x \<and> expands (\<lambda>_. None) x x \<and> fits K x"

text \<open>
  A cached hash is the hash of the expansion and, below the root, that of an encoding with 32 bytes or more (the
  flag \<open>s\<close>).  A clean node with a cached hash is in the database; a clean one without is part of its parent.
\<close>

definition flag_ok :: "(byte list \<Rightarrow> byte list) \<Rightarrow> (byte list \<Rightarrow> byte list option) \<Rightarrow> bool \<Rightarrow> nodeFlag \<Rightarrow> node \<Rightarrow> bool" where
  "flag_ok K get s f x \<longleftrightarrow> (case fl_hash f of
     Some h \<Rightarrow> h = K (node_enc K x) \<and> (s \<longrightarrow> big K x) \<and> (\<not> fl_dirty f \<longrightarrow> ref_node K x \<and> saved K get x)
   | None \<Rightarrow> \<not> fl_dirty f \<longrightarrow> s \<and> \<not> big K x)"

inductive stands_for :: "(byte list \<Rightarrow> byte list) \<Rightarrow> (byte list \<Rightarrow> byte list option) \<Rightarrow> bool \<Rightarrow> node \<Rightarrow> node \<Rightarrow> bool"
  for K get where
  sf_value: "stands_for K get s (ValueNode v) (ValueNode v)"
| sf_short: "stands_for K get True c x \<Longrightarrow> flag_ok K get s f (ShortNode k (Some x) no_flag) \<Longrightarrow>
    stands_for K get s (ShortNode k (Some c) f) (ShortNode k (Some x) no_flag)"
| sf_full: "list_all2 (rel_option (stands_for K get True)) cs xs \<Longrightarrow> flag_ok K get s f (FullNode xs no_flag) \<Longrightarrow>
    stands_for K get s (FullNode cs f) (FullNode xs no_flag)"
| sf_hash: "ref_node K x \<Longrightarrow> saved K get x \<Longrightarrow> (s \<longrightarrow> big K x) \<Longrightarrow> stands_for K get s (HashNode (K (node_enc K x))) x"

inductive_cases sf_ValueE: "stands_for K get s (ValueNode v) x"
inductive_cases sf_ShortE: "stands_for K get s (ShortNode k c f) x"
inductive_cases sf_FullE: "stands_for K get s (FullNode cs f) x"
inductive_cases sf_HashE: "stands_for K get s (HashNode h) x"

section \<open>Decoding an encoded node\<close>

lemma node_enc_Short: "node_enc K (ShortNode k c f) = list_enc (str_enc (the (hexToCompact k)) @ rlp_bytes (child_val K c))"
  by (simp add: node_enc_def nval_Short)

lemma node_enc_Full: "node_enc K (FullNode cs f) = list_enc (concat (map (\<lambda>c. rlp_bytes (child_val K c)) cs))"
  by (simp add: node_enc_def nval_Full comp_def)

lemma one_value_node: "one_value (node_enc K x)"
  by (cases x) (auto simp: one_value_def node_enc_Short node_enc_Full, auto simp: node_enc_def)

lemma one_value_child: "one_value (rlp_bytes (child_val K c))"
  using one_value_node unfolding child_val_def rlp_ref_def node_enc_def
  by (auto simp: one_value_def split: option.splits)

lemma Split_string:
  assumes "length (str_enc b @ rest) < 2 ^ 63" "length b \<noteq> 1"
  shows "Split (str_enc b @ rest) = Some (Inr (String, b, rest))"
proof -
  obtain h where "str_enc b = h @ b" unfolding str_enc_def by (metis append_Nil)
  then show ?thesis using readKind_str [OF assms(1)] assms Split_read [of h b rest] by auto
qed

lemma node_enc_list: "\<not> is_value x \<Longrightarrow> \<not> is_hash x \<Longrightarrow> \<exists>c. node_enc K x = list_enc c"
  by (cases x) (auto simp: node_enc_Short node_enc_Full)

text \<open>A reference to a child: nothing, a hash, or the child itself when it is small.\<close>

lemma decodeRef_None:
  "length (rlp_bytes (child_val K None) @ rest) < 2 ^ 63 \<Longrightarrow>
   decodeRef_with dn (rlp_bytes (child_val K None) @ rest) = Some (Inr (None, rest))"
  using Split_string [of "[]" rest] by (simp add: child_val_def decodeRef_with_def)

lemma decodeRef_big:
  assumes "\<not> is_value x" "big K x" "\<And>e. length (K e) = 32" "length (rlp_bytes (child_val K (Some x)) @ rest) < 2 ^ 63"
  shows "decodeRef_with dn (rlp_bytes (child_val K (Some x)) @ rest) = Some (Inr (Some (HashNode (K (node_enc K x))), rest))"
proof -
  have c: "rlp_bytes (child_val K (Some x)) = str_enc (K (node_enc K x))"
    using assms(1,2) by (simp add: child_val_def rlp_ref_def node_enc_def)
  have "K (node_enc K x) \<noteq> []" using assms(3) [of "node_enc K x"] by auto
  then show ?thesis using Split_string [of "K (node_enc K x)" rest] assms(3,4) unfolding c by (simp add: decodeRef_with_def)
qed

lemma decodeRef_small:
  assumes "\<not> is_value x" "\<not> is_hash x" "\<not> big K x" "length (rlp_bytes (child_val K (Some x)) @ rest) < 2 ^ 63"
    and d: "dn (node_enc K x @ rest) = Some (Inr n)"
  shows "decodeRef_with dn (rlp_bytes (child_val K (Some x)) @ rest) = Some (Inr (Some n, rest))"
proof -
  have c: "rlp_bytes (child_val K (Some x)) = node_enc K x"
    using assms(1,3) by (simp add: child_val_def rlp_ref_def node_enc_def)
  obtain e where e: "node_enc K x = list_enc e" using node_enc_list assms(1,2) by blast
  have s: "Split (node_enc K x @ rest) = Some (Inr (List, e, rest))"
    using Split_list [of e rest] assms(4) unfolding c e by simp
  show ?thesis unfolding c using s d assms(3) by (simp add: decodeRef_with_def hashLen_def)
qed

lemma ref_node_Short:
  "ref_node K (ShortNode k (Some x) f) \<Longrightarrow> \<not> is_value x \<Longrightarrow> ref_node K x \<and> branch (\<lambda>_. None) x \<and> nibbles k \<and> k \<noteq> []"
  by (auto simp: ref_node_def elim: wf_ShortE)

lemma ref_node_not: "ref_node K x \<Longrightarrow> \<not> is_value x \<and> \<not> is_hash x"
  using expands_not_hash [of "\<lambda>_. None" x x] by (cases x) (auto simp: ref_node_def)

lemma ref_node_Full:
  assumes "ref_node K (FullNode cs f)"
  shows "length cs = 17" "i < 16 \<Longrightarrow> cs ! i = Some x \<Longrightarrow> ref_node K x" "value_slot (cs ! 16)"
proof -
  have w: "wfn (\<lambda>_. None) (FullNode cs f)" "list_all2 (rel_option (expands (\<lambda>_. None))) cs cs" "fits K (FullNode cs f)"
    using assms by (auto simp: ref_node_def)
  show "length cs = 17" "value_slot (cs ! 16)" using wf_FullD [OF w(1)] by auto
  show "ref_node K x" if "i < 16" "cs ! i = Some x"
  proof -
    have "i < length cs" using wf_FullD(1) [OF w(1)] that by simp
    then have "Some x \<in> set cs" using that(2) by (metis nth_mem)
    moreover have "expands (\<lambda>_. None) x x" using list_all2_nthD [OF w(2) \<open>i < length cs\<close>] that(2) by simp
    ultimately show ?thesis using wf_FullD(2) [OF w(1) that] w(3) by (fastforce simp: ref_node_def)
  qed
qed

lemma ref_node_child:
  assumes "ref_node K (FullNode cs f)" "Some y \<in> set cs"
  shows "is_value y \<or> ref_node K y"
proof -
  obtain i where i: "i < 17" "cs ! i = Some y" using assms(2) ref_node_Full(1) [OF assms(1)] by (auto simp: in_set_conv_nth)
  then consider "i < 16" | "i = 16" by linarith
  then show ?thesis using ref_node_Full(2) [OF assms(1)] ref_node_Full(3) [OF assms(1)] i by cases (auto simp: value_slot_def)
qed

text \<open>What the decoder makes of a child, given what it makes of a node.\<close>

lemma decodeRef_ref:
  assumes x: "ref_node K x" "saved_below K get x" "big K x \<longrightarrow> get (K (node_enc K x)) = Some (node_enc K x)"
    and K: "\<And>e. length (K e) = 32" and r: "length (rlp_bytes (child_val K (Some x)) @ rest) < 2 ^ 63"
    and d: "\<not> big K x \<Longrightarrow> \<exists>n. dn (node_enc K x @ rest) = Some (Inr n) \<and> stands_for K get True n x"
  shows "\<exists>n. decodeRef_with dn (rlp_bytes (child_val K (Some x)) @ rest) = Some (Inr (Some n, rest)) \<and> stands_for K get True n x"
proof (cases "big K x")
  case True
  then have "stands_for K get True (HashNode (K (node_enc K x))) x" using x by (intro sf_hash) (auto simp: saved_def)
  then show ?thesis using decodeRef_big [OF _ True K r] ref_node_not [OF x(1)] by blast
next
  case False
  then obtain n where n: "dn (node_enc K x @ rest) = Some (Inr n)" "stands_for K get True n x" using d by blast
  then show ?thesis using decodeRef_small [OF _ _ False r, of dn n] ref_node_not [OF x(1)] by blast
qed

lemma decode_head:
  assumes "length (list_enc c @ rest) < 2 ^ 63" "c = concat es" "list_all one_value es"
  shows "decodeNode (Suc n) h (list_enc c @ rest) g =
    (let dr = decodeRef_with (\<lambda>buf. decodeNode n None buf g)
     in if length es = 2 then map_option (map_sum (\<lambda>e. wrapError e ''short'') id) (decodeShort_with dr h c g)
        else if length es = 17 then map_option (map_sum (\<lambda>e. wrapError e ''full'') id) (decodeFull_with dr h c g)
        else Some (Inl (NodeErr (WCount (int (length es))))))"
proof -
  have "length c < 2 ^ 63" using assms(1) list_enc_length [of c] by simp
  then have "CountValues c = Some (Inr (int (length es)))" using CountValues_concat [OF assms(3)] assms(2) by simp
  moreover have "list_enc c \<noteq> []" by (simp add: list_enc_def puthead_def)
  ultimately show ?thesis using SplitList_list [OF assms(1)] by (simp add: Let_def)
qed

lemma decode_short:
  assumes "length (list_enc (a @ b) @ rest) < 2 ^ 63" "one_value a" "one_value b"
    "decodeShort_with (decodeRef_with (\<lambda>buf. decodeNode n None buf g)) h (a @ b) g = Some (Inr m)"
  shows "decodeNode (Suc n) h (list_enc (a @ b) @ rest) g = Some (Inr m)"
  using decode_head [OF assms(1), of "[a, b]" n h g] assms(2-) by (simp del: decodeNode.simps)

lemma compact_key:
  assumes "nibbles k" "t = [] \<or> t = [16]"
  shows "compactToHex (the (hexToCompact (k @ t))) = Some (k @ t)"
  using compact_inverse [OF assms] by auto

lemma one_value_str: "one_value (str_enc b)"
  by (auto simp: one_value_def)

lemma decode_leaf:
  assumes "nibbles k" "length (node_enc K (ShortNode (k @ [16]) (Some (ValueNode v)) f) @ rest) < 2 ^ 63"
  shows "decodeNode (Suc n) h (node_enc K (ShortNode (k @ [16]) (Some (ValueNode v)) f) @ rest) g =
    Some (Inr (ShortNode (k @ [16]) (Some (ValueNode v)) \<lparr>fl_hash = h, fl_gen = g, fl_dirty = False\<rparr>))"
proof -
  let ?k = "the (hexToCompact (k @ [16]))"
  have c: "rlp_bytes (child_val K (Some (ValueNode v))) = str_enc v" by (simp add: child_val_def)
  have l: "length (str_enc ?k @ str_enc v) < 2 ^ 63"
    using assms(2) list_enc_length [of "str_enc ?k @ str_enc v"] by (simp add: node_enc_Short c)
  have "SplitString (str_enc ?k @ str_enc v) = Some (Inr (?k, str_enc v))" using SplitString_str [OF l] .
  moreover have "SplitString (str_enc v) = Some (Inr (v, []))" using SplitString_str [of v "[]"] l by simp
  moreover have "compactToHex ?k = Some (k @ [16])" by (rule compact_key) (use assms(1) in simp_all)
  ultimately have "decodeShort_with dr h (str_enc ?k @ str_enc v) g =
      Some (Inr (ShortNode (k @ [16]) (Some (ValueNode v)) \<lparr>fl_hash = h, fl_gen = g, fl_dirty = False\<rparr>))" for dr
    by (simp add: decodeShort_with_def)
  then show ?thesis using decode_short assms(2) unfolding node_enc_Short c by (simp add: one_value_str del: decodeNode.simps)
qed

lemma decode_ext:
  assumes "nibbles k" "length (node_enc K (ShortNode k (Some x) f) @ rest) < 2 ^ 63"
    and d: "decodeRef_with (\<lambda>buf. decodeNode n None buf g) (rlp_bytes (child_val K (Some x)) @ []) = Some (Inr (Some c, []))"
  shows "decodeNode (Suc n) h (node_enc K (ShortNode k (Some x) f) @ rest) g =
    Some (Inr (ShortNode k (Some c) \<lparr>fl_hash = h, fl_gen = g, fl_dirty = False\<rparr>))"
proof -
  let ?k = "the (hexToCompact k)" and ?c = "rlp_bytes (child_val K (Some x))"
  have l: "length (str_enc ?k @ ?c) < 2 ^ 63"
    using assms(2) list_enc_length [of "str_enc ?k @ ?c"] by (simp add: node_enc_Short)
  have "SplitString (str_enc ?k @ ?c) = Some (Inr (?k, ?c))" using SplitString_str [OF l] .
  moreover have "compactToHex ?k = Some k" using compact_key [of k "[]"] assms(1) by simp
  moreover have "\<not> hasTerm k" using assms(1) by simp
  ultimately have "decodeShort_with (decodeRef_with (\<lambda>buf. decodeNode n None buf g)) h (str_enc ?k @ ?c) g =
      Some (Inr (ShortNode k (Some c) \<lparr>fl_hash = h, fl_gen = g, fl_dirty = False\<rparr>))"
    using d by (simp add: decodeShort_with_def)
  then show ?thesis
    using decode_short assms(2) one_value_child unfolding node_enc_Short by (simp add: one_value_str del: decodeNode.simps)
qed

lemma decodeChildren_refs:
  assumes "length cs = length is" "length (concat (map (\<lambda>c. rlp_bytes (child_val K c)) cs) @ rest) < 2 ^ 63"
    and "\<And>c rest. c \<in> set cs \<Longrightarrow> length (rlp_bytes (child_val K c) @ rest) < 2 ^ 63 \<Longrightarrow>
      \<exists>n. dr (rlp_bytes (child_val K c) @ rest) = Some (Inr (n, rest)) \<and> rel_option P n c"
  shows "\<exists>ns. decodeChildren dr is (concat (map (\<lambda>c. rlp_bytes (child_val K c)) cs) @ rest) = Some (Inr (ns, rest)) \<and>
    list_all2 (rel_option P) ns cs"
  using assms
proof (induction cs "is" rule: list_induct2)
  case (Cons c cs i "is")
  let ?r = "concat (map (\<lambda>c. rlp_bytes (child_val K c)) cs) @ rest"
  obtain n where "dr (rlp_bytes (child_val K c) @ ?r) = Some (Inr (n, ?r))" "rel_option P n c"
    using Cons.prems(2) [of c ?r] Cons.prems(1) by auto
  moreover obtain ns where "decodeChildren dr is ?r = Some (Inr (ns, rest))" "list_all2 (rel_option P) ns cs"
    using Cons.IH Cons.prems by auto
  ultimately show ?case by simp
qed simp

lemma concat_child_length: "c \<in> set cs \<Longrightarrow> length (rlp_bytes (child_val K c)) \<le> length (concat (map (\<lambda>c. rlp_bytes (child_val K c)) cs))"
  by (induction cs) auto

lemma list_enc_longer: "length c < length (list_enc c)"
  by (simp add: list_enc_def puthead_def)

lemma child_shorter: "\<not> is_value x \<Longrightarrow> \<not> big K x \<Longrightarrow> rlp_bytes (child_val K (Some x)) = node_enc K x"
  by (simp add: child_val_def rlp_ref_def node_enc_def)

lemma decode_full:
  assumes "length cs = 17" "value_slot (cs ! 16)" "length (node_enc K (FullNode cs f) @ rest) < 2 ^ 63"
    and "\<And>c rest. c \<in> set (take 16 cs) \<Longrightarrow> length (rlp_bytes (child_val K c) @ rest) < 2 ^ 63 \<Longrightarrow>
      \<exists>m. decodeRef_with (\<lambda>buf. decodeNode n None buf g) (rlp_bytes (child_val K c) @ rest) = Some (Inr (m, rest)) \<and> rel_option P m c"
    and P: "\<And>v. P (ValueNode v) (ValueNode v)"
  shows "\<exists>ns. decodeNode (Suc n) h (node_enc K (FullNode cs f) @ rest) g =
      Some (Inr (FullNode ns \<lparr>fl_hash = h, fl_gen = g, fl_dirty = False\<rparr>)) \<and> list_all2 (rel_option P) ns cs"
proof -
  let ?e = "\<lambda>cs. concat (map (\<lambda>c. rlp_bytes (child_val K c)) cs)"
  have cs: "cs = take 16 cs @ [cs ! 16]" using id_take_nth_drop [of 16 cs] assms(1) by simp
  define v where "v = (case cs ! 16 of Some (ValueNode v) \<Rightarrow> v | _ \<Rightarrow> [])"
  have v: "rlp_bytes (child_val K (cs ! 16)) = str_enc v" "(if 0 < length v then Some (ValueNode v) else None) = cs ! 16"
    using assms(2) by (auto simp: v_def value_slot_def child_val_def)
  have e: "?e cs = ?e (take 16 cs) @ str_enc v" by (subst cs) (simp add: v)
  have l: "length (?e (take 16 cs) @ str_enc v) < 2 ^ 63"
    using assms(3) list_enc_longer [of "?e cs"] by (simp add: node_enc_Full e)
  obtain ns where ns: "decodeChildren (decodeRef_with (\<lambda>buf. decodeNode n None buf g)) [0..<16] (?e (take 16 cs) @ str_enc v) = Some (Inr (ns, str_enc v))"
    "list_all2 (rel_option P) ns (take 16 cs)"
    using decodeChildren_refs [OF _ l assms(4), of "[0..<16]"] assms(1) by auto
  have "SplitString (str_enc v) = Some (Inr (v, []))" using SplitString_str [of v "[]"] l by simp
  then have "decodeFull_with (decodeRef_with (\<lambda>buf. decodeNode n None buf g)) h (?e cs) g =
      Some (Inr (FullNode (ns @ [cs ! 16]) \<lparr>fl_hash = h, fl_gen = g, fl_dirty = False\<rparr>))"
    using ns(1) v(2) unfolding e by (simp add: decodeFull_with_def)
  moreover have "list_all one_value (map (\<lambda>c. rlp_bytes (child_val K c)) cs)" using one_value_child by (simp add: list_all_iff)
  ultimately have "decodeNode (Suc n) h (node_enc K (FullNode cs f) @ rest) g =
      Some (Inr (FullNode (ns @ [cs ! 16]) \<lparr>fl_hash = h, fl_gen = g, fl_dirty = False\<rparr>))"
    using decode_head [of "?e cs" rest "map (\<lambda>c. rlp_bytes (child_val K c)) cs" n h g] assms(1,3)
    unfolding node_enc_Full by (simp del: decodeNode.simps)
  moreover have "rel_option P (cs ! 16) (cs ! 16)" using assms(2) P by (auto simp: value_slot_def)
  then have "list_all2 (rel_option P) (ns @ [cs ! 16]) (take 16 cs @ [cs ! 16])" using ns(2) by (intro list_all2_appendI) simp_all
  then have "list_all2 (rel_option P) (ns @ [cs ! 16]) cs" using cs by simp
  ultimately show ?thesis by blast
qed

lemma decode_node:
  assumes "wfn (\<lambda>_. None) x" "\<And>e. length (K e) = 32" "ref_node K x" "saved_below K get x"
    "length (node_enc K x @ rest) < 2 ^ 63" "length (node_enc K x) < fuel"
    "flag_ok K get s \<lparr>fl_hash = h, fl_gen = g, fl_dirty = False\<rparr> x"
  shows "\<exists>n. decodeNode fuel h (node_enc K x @ rest) g = Some (Inr n) \<and> stands_for K get s n x"
  using assms(1,3-)
proof (induction arbitrary: rest fuel h s rule: wfn.induct)
  case (leaf k v f)
  obtain m where "fuel = Suc m" using leaf.prems(4) by (cases fuel) auto
  moreover have "f = no_flag" using leaf.prems(1) by (simp add: ref_node_def)
  ultimately show ?case using decode_leaf [OF leaf.hyps(1) leaf.prems(3)] leaf.prems(5) by (auto intro: sf_short sf_value)
next
  case (ext k y f)
  obtain m where m: "fuel = Suc m" using ext.prems(4) by (cases fuel) auto
  have f: "f = no_flag" using ext.prems(1) by (simp add: ref_node_def)
  have nv: "\<not> is_value y" using ext.hyps(3) by (cases y) auto
  then have y: "ref_node K y" using ref_node_Short [OF ext.prems(1)] by blast
  let ?c = "rlp_bytes (child_val K (Some y))"
  have l: "length ?c < length (node_enc K (ShortNode k (Some y) f))"
    using list_enc_longer [of "str_enc (the (hexToCompact k)) @ ?c"] by (simp add: node_enc_Short)
  have "\<exists>n. decodeRef_with (\<lambda>buf. decodeNode m None buf g) (?c @ []) = Some (Inr (Some n, [])) \<and> stands_for K get True n y"
  proof (rule decodeRef_ref [OF y _ _ assms(2)])
    show "saved_below K get y" "big K y \<longrightarrow> get (K (node_enc K y)) = Some (node_enc K y)"
      using ext.prems(2) nv by auto
    show "length (?c @ []) < 2 ^ 63" using l ext.prems(3) by simp
    show "\<exists>n. decodeNode m None (node_enc K y @ []) g = Some (Inr n) \<and> stands_for K get True n y" if "\<not> big K y"
      using ext.IH [OF y, of "[]" m True None] ext.prems(2,4) that nv l m child_shorter [OF nv that] by (simp add: flag_ok_def)
  qed
  then obtain n where n: "decodeRef_with (\<lambda>buf. decodeNode m None buf g) (?c @ []) = Some (Inr (Some n, []))" "stands_for K get True n y"
    by blast
  show ?case
    using decode_ext [OF ext.hyps(1) ext.prems(3) n(1), of h] sf_short [OF n(2) ext.prems(5) [unfolded f]] f m by blast
next
  case (full cs f)
  obtain m where m: "fuel = Suc m" using full.prems(4) by (cases fuel) auto
  have f: "f = no_flag" using full.prems(1) by (simp add: ref_node_def)
  have "\<exists>n. decodeRef_with (\<lambda>buf. decodeNode m None buf g) (rlp_bytes (child_val K c) @ rest) = Some (Inr (n, rest)) \<and>
      rel_option (stands_for K get True) n c"
    if c: "c \<in> set (take 16 cs)" and r: "length (rlp_bytes (child_val K c) @ rest) < 2 ^ 63" for c rest
  proof (cases c)
    case None
    then show ?thesis using decodeRef_None r by auto
  next
    case (Some y)
    obtain i where i: "i < 16" "cs ! i = Some y" using c Some full.hyps(1) by (auto simp: in_set_conv_nth)
    have mem: "Some y \<in> set cs" using c Some by (meson in_set_takeD)
    have y: "ref_node K y" using ref_node_Full(2) [OF full.prems(1) i] .
    have nv: "\<not> is_value y" using ref_node_not [OF y] by blast
    have l: "length (rlp_bytes (child_val K (Some y))) < m"
      using concat_child_length [OF mem, of K] list_enc_longer [of "concat (map (\<lambda>c. rlp_bytes (child_val K c)) cs)"] full.prems(4) m
      by (simp add: node_enc_Full)
    have "saved_below K get y \<and> (big K y \<longrightarrow> get (K (node_enc K y)) = Some (node_enc K y))"
      using full.prems(2) mem nv by fastforce
    then have "\<exists>n. decodeRef_with (\<lambda>buf. decodeNode m None buf g) (rlp_bytes (child_val K (Some y)) @ rest) = Some (Inr (Some n, rest)) \<and>
        stands_for K get True n y"
      using full.IH [OF i y, of rest m True None] r l child_shorter [OF nv] Some
      by (intro decodeRef_ref [OF y _ _ assms(2)]) (auto simp: flag_ok_def)
    then show ?thesis using Some by auto
  qed
  from decode_full [OF full.hyps(1,3) full.prems(3) this sf_value]
  obtain ns where "decodeNode (Suc m) h (node_enc K (FullNode cs f) @ rest) g =
      Some (Inr (FullNode ns \<lparr>fl_hash = h, fl_gen = g, fl_dirty = False\<rparr>))" "list_all2 (rel_option (stands_for K get True)) ns cs"
    by blast
  then show ?case using full.prems(5) f m by (auto intro: sf_full)
next
  case (hash h n)
  then show ?case by simp
qed

section \<open>Loading\<close>

definition trie_get :: "'d Database \<Rightarrow> 'd Trie \<Rightarrow> byte list \<Rightarrow> byte list option" where
  "trie_get D t h = (case tr_db t of None \<Rightarrow> None | Some w \<Rightarrow> (case db_Get D h w of Inr e \<Rightarrow> e | Inl _ \<Rightarrow> None))"

lemma loads_get: "loads D t h = (case trie_get D t h of None \<Rightarrow> None | Some e \<Rightarrow> mustDecodeNode h e (cachegen t))"
  by (auto simp: loads_def trie_get_def split: option.splits sum.splits)

lemma ref_node_fits: "ref_node K x \<Longrightarrow> length (node_enc K x) < 2 ^ 63"
  using ref_node_not [of K x] by (cases x) (auto simp: ref_node_def)

lemma loads_saved:
  assumes K: "\<And>e. length (K e) = 32" and x: "ref_node K x" "saved K (trie_get D t) x" "s \<longrightarrow> big K x"
  shows "\<exists>n. loads D t (K (node_enc K x)) = Some n \<and> stands_for K (trie_get D t) s n x"
proof -
  let ?h = "K (node_enc K x)" and ?f = "\<lparr>fl_hash = Some (K (node_enc K x)), fl_gen = cachegen t, fl_dirty = False\<rparr>"
  have "flag_ok K (trie_get D t) s ?f x" using x by (simp add: flag_ok_def)
  then obtain n where "decodeNode (Suc (length (node_enc K x))) (Some ?h) (node_enc K x @ []) (cachegen t) = Some (Inr n)"
    "stands_for K (trie_get D t) s n x"
    using decode_node [of x K "trie_get D t" "[]" "Suc (length (node_enc K x))" s "Some ?h" "cachegen t"] K x ref_node_fits [OF x(1)]
    by (auto simp: ref_node_def saved_def)
  then show ?thesis using x(2) by (auto simp: loads_get saved_def mustDecodeNode_def simp del: decodeNode.simps)
qed

lemma decodeShort_not_hash: "decodeShort_with dr h elems g = Some (Inr n) \<Longrightarrow> \<not> is_hash n \<and> \<not> is_value n"
  by (auto simp: decodeShort_with_def Let_def split: Option.bind_splits sum.splits if_splits prod.splits)

lemma decodeFull_not_hash: "decodeFull_with dr h elems g = Some (Inr n) \<Longrightarrow> \<not> is_hash n \<and> \<not> is_value n"
  by (auto simp: decodeFull_with_def split: Option.bind_splits sum.splits prod.splits)

lemma map_sum_Inr: "map_sum f id r = Inr n \<longleftrightarrow> r = Inr n"
  by (cases r) auto

lemma decodeNode_not_hash: "decodeNode fuel h buf g = Some (Inr n) \<Longrightarrow> \<not> is_hash n \<and> \<not> is_value n"
  by (cases fuel) (auto simp: Let_def map_sum_Inr dest: decodeShort_not_hash decodeFull_not_hash
    split: Option.bind_splits sum.splits if_splits prod.splits)

lemma mustDecode_not_hash: "mustDecodeNode h e g = Some n \<Longrightarrow> \<not> is_hash n \<and> \<not> is_value n"
  by (auto simp: mustDecodeNode_def simp del: decodeNode.simps dest: decodeNode_not_hash split: Option.bind_splits sum.splits)

lemma loads_not_hash: "loads D t h = Some n \<Longrightarrow> \<not> is_hash n \<and> \<not> is_value n"
  by (auto simp: loads_get mustDecode_not_hash split: option.splits)

text \<open>A node in memory expands to what it stands for.\<close>

lemma size_child: "Some y \<in> set cs \<Longrightarrow> size y < size (FullNode cs f)"
  by (induction cs) auto

lemma sf_children:
  assumes "list_all2 (rel_option (stands_for K get True)) cs xs"
    and "\<And>n y. Some y \<in> set xs \<Longrightarrow> stands_for K get True n y \<Longrightarrow> P n y"
  shows "list_all2 (rel_option P) cs xs"
  using assms by (induction rule: list_all2_induct) (auto simp: rel_option_iff split: option.splits)

lemma sf_expands:
  assumes K: "\<And>e. length (K e) = 32" and "stands_for K (trie_get D t) s n x"
  shows "expands (loads D t) n x"
  using assms(2)
proof (induction x arbitrary: s n rule: measure_induct_rule [of size])
  case (less x)
  have mem: "expands (loads D t) m x" if "stands_for K (trie_get D t) s m x" "\<not> is_hash m" for m s
    using that(1)
  proof cases
    case (sf_short c y f k)
    then show ?thesis using less.IH [of y] by (auto intro: ex_short)
  next
    case (sf_full cs xs f)
    have "list_all2 (rel_option (expands (loads D t))) cs xs"
      using less.IH size_child sf_full(2) by (intro sf_children [OF sf_full(3)]) auto
    then show ?thesis using sf_full by (auto intro: ex_full)
  qed (use that in auto)
  show ?case
  proof (cases "is_hash n")
    case True
    then obtain h where HashNode: "n = HashNode h" by (cases n) auto
    then have h: "h = K (node_enc K x)" "ref_node K x" "saved K (trie_get D t) x" "s \<longrightarrow> big K x"
      using less.prems by (auto elim: sf_HashE)
    then obtain m where m: "loads D t h = Some m" "stands_for K (trie_get D t) s m x" using loads_saved [where K = K, OF K] by blast
    then show ?thesis using mem [OF m(2)] loads_not_hash [OF m(1)] HashNode by auto
  qed (rule mem [OF less.prems])
qed

definition loads_nodes :: "resolver \<Rightarrow> bool" where
  "loads_nodes R \<longleftrightarrow> (\<forall>h m. R h = Some m \<longrightarrow> \<not> is_hash m \<and> \<not> is_value m)"

lemma loads_loads_nodes [simp]: "loads_nodes (loads D t)"
  using loads_not_hash by (auto simp: loads_nodes_def)

lemma full_branch:
  assumes "expands R n x" "is_full x" "loads_nodes R"
  shows "branch R n"
proof -
  have full: "is_full m" if "expands R m x" "\<not> is_hash m" for m
    using that assms(2) by (cases m) auto
  show ?thesis
  proof (cases n)
    case (HashNode h)
    then obtain m where "R h = Some m" "expands R m x" using assms(1) by auto
    then show ?thesis using full assms(3) HashNode by (simp add: loads_nodes_def)
  qed (use assms(1) full [OF assms(1)] in \<open>auto intro: is_full_branch\<close>)
qed

lemma value_child:
  assumes "expands R n (ValueNode v)" "loads_nodes R"
  shows "n = ValueNode v"
proof -
  have "is_hash m \<or> is_value m" if "expands R m (ValueNode v)" for m using that by (cases m) auto
  then show ?thesis using assms by (cases n) (auto simp: loads_nodes_def)
qed

lemma expands_wf:
  assumes "expands R n x" "wfn R' x" "loads_nodes R"
  shows "wfn R n"
  using assms(1,2)
proof (induction rule: expands.induct)
  case (ex_short c x k f)
  show ?case
    using ex_short.prems
  proof (cases rule: wf_Short_cases)
    case (leaf k' v)
    then have "c = ValueNode v" using value_child [OF _ assms(3)] ex_short.hyps by blast
    then show ?thesis using leaf by (auto intro: wfn.leaf)
  next
    case (ext m)
    then have "wfn R c" using ex_short.IH by simp
    moreover have "is_full m" using ext(1,5) expands_not_hash [OF ex_short.hyps] by (cases m) auto
    then have "branch R c" using full_branch [OF ex_short.hyps _ assms(3)] ext(1) by blast
    ultimately show ?thesis using ext by (auto intro: wfn.ext)
  qed
next
  case (ex_full cs xs f)
  note d = wf_FullD [OF ex_full.prems]
  have l: "length cs = 17" using list_all2_lengthD [OF ex_full.IH] d(1) by simp
  have r: "rel_option (\<lambda>n x. expands R n x \<and> (wfn R' x \<longrightarrow> wfn R n)) (cs ! i) (xs ! i)" if "i < 17" for i
    using list_all2_nthD [OF ex_full.IH, of i] that l by simp
  show ?case
  proof (rule wfn.full)
    show "length cs = 17" by (rule l)
    show "wfn R n" if "i < 16" "cs ! i = Some n" for i n using r [of i] d(2) [of i] that by (auto simp: option_rel_Some1)
    show "value_slot (cs ! 16)"
      using r [of 16] d(3) by (cases "cs ! 16") (auto simp: value_slot_def option_rel_Some1 dest!: value_child [OF _ assms(3)])
    have "list_all2 (rel_option (expands R)) cs xs" using ex_full.IH by (auto elim!: list_all2_mono option.rel_mono_strong)
    then show "2 \<le> occupied cs" using occupied_all2 [of "expands R" cs xs] d(4) by simp
  qed
next
  case (ex_hash h n x)
  then show ?case using assms(3) by (auto simp: loads_nodes_def intro: wfn.hash)
qed auto

end
