(* ===== verification/TrieCommit.thy ===== *)
theory TrieCommit
  imports TrieRep
begin

text \<open>
  Hashing and committing.  The hash of a trie is the hash of its expansion, however much of the trie is cached, and
  after a commit all of it can be loaded from the root hash alone.
\<close>

section \<open>Writing without collisions\<close>

fun encs :: "(byte list \<Rightarrow> byte list) \<Rightarrow> node \<Rightarrow> byte list set" where
  "encs K (ShortNode k c f) = insert (node_enc K (ShortNode k c f)) (case c of None \<Rightarrow> {} | Some n \<Rightarrow> encs K n)"
| "encs K (FullNode cs f) = insert (node_enc K (FullNode cs f)) (\<Union>c \<in> set cs. case c of None \<Rightarrow> {} | Some n \<Rightarrow> encs K n)"
| "encs K _ = {}"

lemma encs_self: "\<not> is_value x \<Longrightarrow> \<not> is_hash x \<Longrightarrow> node_enc K x \<in> encs K x"
  by (cases x) auto

text \<open>The entries for the encodings in \<open>E\<close> stay.\<close>

definition keeps :: "(byte list \<Rightarrow> byte list) \<Rightarrow> byte list set \<Rightarrow> (byte list \<Rightarrow> byte list option) \<Rightarrow> (byte list \<Rightarrow> byte list option) \<Rightarrow> bool" where
  "keeps K E get get' \<longleftrightarrow> (\<forall>e \<in> E. get (K e) = Some e \<longrightarrow> get' (K e) = Some e)"

lemma keeps_refl [simp]: "keeps K E g g"
  by (simp add: keeps_def)

lemma keeps_trans: "keeps K E f g \<Longrightarrow> keeps K E g h \<Longrightarrow> keeps K E f h"
  by (simp add: keeps_def)

lemma keeps_put: "inj_on K E \<Longrightarrow> e \<in> E \<Longrightarrow> keeps K E g (g(K e \<mapsto> e))"
  by (auto simp: keeps_def dest: inj_onD)

lemma saved_below_keeps:
  assumes "saved_below K g x" "encs K x \<subseteq> E" "keeps K E g g'" "ref_node K x"
  shows "saved_below K g' x"
  using assms(1,2,4)
proof (induction x rule: measure_induct_rule [of size])
  case (less x)
  have child: "saved_below K g' y \<and> (\<not> is_value y \<and> big K y \<longrightarrow> g' (K (node_enc K y)) = Some (node_enc K y))"
    if "saved_below K g y \<and> (\<not> is_value y \<and> big K y \<longrightarrow> g (K (node_enc K y)) = Some (node_enc K y))"
      "encs K y \<subseteq> E" "is_value y \<or> ref_node K y" "size y < size x" for y
  proof (cases "is_value y")
    case True
    then show ?thesis by (cases y) auto
  next
    case False
    then have "ref_node K y" "node_enc K y \<in> E" using that(2,3) encs_self [of y K] ref_node_not [of K y] by auto
    then show ?thesis using less.IH [OF that(4)] that(1,2) assms(3) by (auto simp: keeps_def)
  qed
  show ?case
  proof (cases x)
    case (ShortNode k c f)
    show ?thesis
    proof (cases c)
      case (Some y)
      have "is_value y \<or> ref_node K y" using ref_node_Short [of K k y f] less.prems(3) ShortNode Some by blast
      then show ?thesis using child [of y] less.prems(1,2) ShortNode Some by auto
    qed (simp add: ShortNode)
  next
    case (FullNode cs f)
    have "case c of None \<Rightarrow> True
       | Some y \<Rightarrow> saved_below K g' y \<and> (\<not> is_value y \<and> big K y \<longrightarrow> g' (K (node_enc K y)) = Some (node_enc K y))" if "c \<in> set cs" for c
    proof (cases c)
      case (Some y)
      have "is_value y \<or> ref_node K y" using ref_node_child [of K cs f y] less.prems(3) FullNode Some that by simp
      then show ?thesis using child [of y] less.prems(1,2) FullNode Some that size_child [of y cs f] by fastforce
    qed simp
    then show ?thesis using FullNode by simp
  qed simp_all
qed

lemma saved_keeps:
  assumes "saved K g x" "ref_node K x" "encs K x \<subseteq> E" "keeps K E g g'"
  shows "saved K g' x"
proof -
  have "node_enc K x \<in> E" using encs_self [of x K] ref_node_not [OF assms(2)] assms(3) by blast
  then show ?thesis using assms saved_below_keeps [OF _ assms(3,4,2)] by (auto simp: saved_def keeps_def)
qed

lemma flag_ok_keeps: "flag_ok K g s f x \<Longrightarrow> encs K x \<subseteq> E \<Longrightarrow> keeps K E g g' \<Longrightarrow> flag_ok K g' s f x"
  using saved_keeps [of K g x E g'] by (auto simp: flag_ok_def split: option.splits)

lemma encs_child: "Some y \<in> set cs \<Longrightarrow> encs K y \<subseteq> encs K (FullNode cs f)"
  by force

lemma sf_keeps:
  assumes "stands_for K g s n x" "keeps K E g g'" "encs K x \<subseteq> E"
  shows "stands_for K g' s n x"
  using assms(1,3)
proof (induction rule: stands_for.induct)
  case (sf_short c x s f k)
  then show ?case using flag_ok_keeps [OF sf_short.hyps(2) _ assms(2)] by (intro stands_for.sf_short) auto
next
  case (sf_full cs xs s f)
  have "rel_option (stands_for K g' True) (cs ! i) (xs ! i)" if "i < length cs" for i
  proof -
    have "i < length xs" using sf_full.IH that by (simp add: list_all2_lengthD)
    then have "xs ! i = Some y \<Longrightarrow> encs K y \<subseteq> E" for y
      using encs_child [of y xs K no_flag] sf_full.prems nth_mem [of i xs] by fastforce
    then show ?thesis using list_all2_nthD [OF sf_full.IH that] by (cases "cs ! i"; cases "xs ! i") auto
  qed
  then have "list_all2 (rel_option (stands_for K g' True)) cs xs"
    using sf_full.IH by (simp add: list_all2_conv_all_nth)
  then show ?case using flag_ok_keeps [OF sf_full.hyps(1) sf_full.prems assms(2)] by (rule stands_for.sf_full)
next
  case (sf_hash x s)
  then show ?case using saved_keeps [OF _ _ _ assms(2)] by (intro stands_for.sf_hash) auto
qed (rule stands_for.sf_value)

section \<open>Hashing a node\<close>

declare hasher_hash.simps [simp del]

text \<open>
  The database that a node under hashing lives in: \<open>V db\<close> is what can be read from it, and a write succeeds and is
  read back.
\<close>

locale node_writer =
  fixes P :: "'w put" and V :: "'w option \<Rightarrow> byte list \<Rightarrow> byte list option"
  assumes put: "\<exists>w'. P k e w = (None, w') \<and> V (Some w') = (V (Some w))(k \<mapsto> e)"

definition hash_val :: "(byte list \<Rightarrow> byte list) \<Rightarrow> bool \<Rightarrow> node \<Rightarrow> rlp_value" where
  "hash_val K force x = (if force \<or> big K x then VBytes (K (node_enc K x)) else nval K x)"

definition hash_of :: "(byte list \<Rightarrow> byte list) \<Rightarrow> bool \<Rightarrow> node \<Rightarrow> byte list option" where
  "hash_of K force x = (if force \<or> big K x then Some (K (node_enc K x)) else None)"

lemma encodable_nval: "encodable (nval K x)"
proof (induction x)
  case (FullNode cs f)
  then show ?case by (auto simp: nval_Full child_val_def rlp_ref_def list_all_iff split: option.splits)
next
  case (ShortNode k c f)
  then show ?case by (auto simp: nval_Short child_val_def rlp_ref_def split: option.splits)
qed auto

lemma hash_val_child: "\<not> is_value x \<Longrightarrow> hash_val K False x = child_val K (Some x)"
  by (simp add: hash_val_def child_val_def rlp_ref_def node_enc_def)

definition kept :: "(byte list \<Rightarrow> byte list) \<Rightarrow> byte list set \<Rightarrow> ('w option \<Rightarrow> byte list \<Rightarrow> byte list option) \<Rightarrow> 'w option \<Rightarrow> 'w option \<Rightarrow> bool" where
  "kept K E V db db' \<longleftrightarrow> (db' = None \<longleftrightarrow> db = None) \<and> keeps K E (V db) (V db')"

lemma kept_refl [simp]: "kept K E V db db"
  by (simp add: kept_def)

lemma kept_trans: "kept K E V a b \<Longrightarrow> kept K E V b c \<Longrightarrow> kept K E V a c"
  by (auto simp: kept_def intro: keeps_trans)

text \<open>The result of hashing a node that stands for \<open>x\<close>.\<close>

definition hash_result :: "(byte list \<Rightarrow> byte list) \<Rightarrow> byte list set \<Rightarrow> ('w option \<Rightarrow> byte list \<Rightarrow> byte list option) \<Rightarrow>
    bool \<Rightarrow> node \<Rightarrow> 'w option \<Rightarrow> ((node \<times> node \<times> string option) \<times> 'w option) \<Rightarrow> bool" where
  "hash_result K E V force x db r \<longleftrightarrow> (\<exists>hashed cached db'. r = ((hashed, cached, None), db') \<and> kept K E V db db' \<and>
     node_value hashed = hash_val K force x \<and> as_hash hashed = hash_of K force x \<and>
     stands_for K (V db') (\<not> force) cached x \<and>
     (db \<noteq> None \<longrightarrow> saved_below K (V db') x \<and> (force \<or> big K x \<longrightarrow> V db' (K (node_enc K x)) = Some (node_enc K x))))"

context node_writer
begin

lemma store_node:
  assumes "\<not> is_hash n" "node_value n = nval K x" "ref_node K x" "node_enc K x \<in> E" "db \<noteq> None \<longrightarrow> inj_on K E"
    "fst (node_cache n) = None \<or> fst (node_cache n) = Some (K (node_enc K x))" "sha h = K"
  shows "\<exists>db'. hasher_store P eb h n force db =
      Some ((if force \<or> big K x then HashNode (K (node_enc K x)) else n, None), db') \<and> kept K E V db db' \<and>
    (db \<noteq> None \<and> (force \<or> big K x) \<longrightarrow> V db' (K (node_enc K x)) = Some (node_enc K x))"
proof -
  have e: "rlp_Encode eb buffer_Write (node_value n) [] = (Inr None, node_enc K x)"
    using encode_bytes(2) [OF _ encodable_nval, of K x eb "[]"] ref_node_fits [OF assms(3)] assms(2) by (simp add: node_enc_def)
  have hash: "(case fst (node_cache n) of Some hash \<Rightarrow> hash | None \<Rightarrow> sha h (node_enc K x)) = K (node_enc K x)"
    using assms(6,7) by auto
  have s: "hasher_store P eb h n force db =
      (if length (node_enc K x) < 32 \<and> \<not> force then Some ((n, None), db)
       else (case db of None \<Rightarrow> Some ((HashNode (K (node_enc K x)), None), None)
             | Some w \<Rightarrow> let (err, w) = P (K (node_enc K x)) (node_enc K x) w in Some ((HashNode (K (node_enc K x)), err), Some w)))"
    using assms(1) e hash by (cases n) (simp_all add: hasher_store_def Let_def)
  show ?thesis
  proof (cases "force \<or> big K x")
    case True
    show ?thesis
    proof (cases db)
      case (Some w)
      obtain w' where w': "P (K (node_enc K x)) (node_enc K x) w = (None, w')" "V (Some w') = (V (Some w))(K (node_enc K x) \<mapsto> node_enc K x)"
        using put by blast
      have "keeps K E (V (Some w)) (V (Some w'))" using keeps_put [OF _ assms(4)] assms(5) Some w'(2) by simp
      then show ?thesis using s True Some w' by (auto simp: kept_def)
    qed (use s True in auto)
  qed (use s in auto)
qed

lemma set_flags_simps [simp]: "fl_hash (set_flags h c f) = h" "fl_dirty (set_flags h c f) \<longleftrightarrow> \<not> c \<and> fl_dirty f"
  by (simp_all add: set_flags_def Let_def)

lemma finish_flag:
  assumes "flag_ok K (V db) (\<not> force) f x" "fl_hash f = None \<or> db \<noteq> None" "ref_node K x"
    "db \<noteq> None \<longrightarrow> saved_below K g x \<and> (force \<or> big K x \<longrightarrow> g (K (node_enc K x)) = Some (node_enc K x))"
  shows "flag_ok K g (\<not> force) (set_flags (hash_of K force x) (db \<noteq> None) f) x"
  using assms by (auto simp: flag_ok_def hash_of_def saved_def split: option.splits)

lemma hash_finish:
  assumes c: "hashChildren P eb h n db = Some ((collapsed, cached, None), db1)" "kept K E V db db1"
    "\<not> is_hash collapsed" "node_value collapsed = nval K x" "fst (node_cache collapsed) = fl_hash f"
    and x: "ref_node K x" "encs K x \<subseteq> E" "db \<noteq> None \<longrightarrow> inj_on K E" "sha h = K"
    and n: "node_cache n = (fl_hash f, fl_dirty f)" "flag_ok K (V db) (\<not> force) f x"
    and go: "fl_hash f = None \<or> db \<noteq> None \<and> fl_dirty f \<and> \<not> node_canUnload n (ha_cachegen h) (ha_cachelimit h)"
    and mk: "\<And>h' commit. set_cached h' commit cached = mk (set_flags h' commit f)"
      "\<And>g f'. keeps K E (V db1) g \<Longrightarrow> flag_ok K g (\<not> force) f' x \<Longrightarrow> stands_for K g (\<not> force) (mk f') x"
    and sb: "db \<noteq> None \<longrightarrow> saved_below K (V db1) x"
  shows "\<exists>r. hasher_hash P eb h n force db = Some r \<and> hash_result K E V force x db r"
proof -
  have E: "node_enc K x \<in> E" using encs_self [of x K] ref_node_not [OF x(1)] x(2) by blast
  let ?hashed = "if force \<or> big K x then HashNode (K (node_enc K x)) else collapsed"
  obtain db2 where db2: "hasher_store P eb h collapsed force db1 = Some ((?hashed, None), db2)" "kept K E V db1 db2"
    "db1 \<noteq> None \<and> (force \<or> big K x) \<longrightarrow> V db2 (K (node_enc K x)) = Some (node_enc K x)"
    using store_node [OF c(3,4) x(1) E _ _ x(4), of db1 eb force] x(3) c(2,5) n(2) by (auto simp: flag_ok_def kept_def split: option.splits)
  have k: "kept K E V db db2" "db2 = None \<longleftrightarrow> db = None" "keeps K E (V db1) (V db2)"
    using kept_trans [OF c(2) db2(2)] db2(2) by (auto simp: kept_def)
  have as: "as_hash ?hashed = hash_of K force x" using c(3) by (cases collapsed) (auto simp: hash_of_def)
  have val: "node_value ?hashed = hash_val K force x" using c(4) by (auto simp: hash_val_def)
  have "hasher_hash P eb h n force db = Some ((?hashed, set_cached (as_hash ?hashed) (db2 \<noteq> None) cached, None), db2)"
    using c(1) db2(1) n(1) go by (auto simp: hasher_hash.simps)
  then have h: "hasher_hash P eb h n force db = Some ((?hashed, mk (set_flags (hash_of K force x) (db \<noteq> None) f), None), db2)"
    unfolding as mk(1) k(2) .
  have sv: "db \<noteq> None \<longrightarrow> saved_below K (V db2) x \<and> (force \<or> big K x \<longrightarrow> V db2 (K (node_enc K x)) = Some (node_enc K x))"
    using sb saved_below_keeps [OF _ x(2) k(3) x(1)] db2(3) c(2) by (auto simp: kept_def)
  have "flag_ok K (V db2) (\<not> force) (set_flags (hash_of K force x) (db \<noteq> None) f) x"
    using n(2) go x(1) sv by (intro finish_flag) auto
  then have "stands_for K (V db2) (\<not> force) (mk (set_flags (hash_of K force x) (db \<noteq> None) f)) x" by (rule mk(2) [OF k(3)])
  then show ?thesis using h k(1) as val sv unfolding hash_result_def by blast
qed

end

context node_writer
begin

lemma sf_flag:
  "stands_for K g s (ShortNode k c f) x \<Longrightarrow> flag_ok K g s f x"
  "stands_for K g s (FullNode cs f) x \<Longrightarrow> flag_ok K g s f x"
  by (auto elim: sf_ShortE sf_FullE)

lemma hash_cached:
  assumes "stands_for K (V db) (\<not> force) n x" "flag_ok K (V db) (\<not> force) f x" "node_cache n = (fl_hash f, fl_dirty f)"
    "\<And>gen limit. node_canUnload n gen limit \<Longrightarrow> \<not> fl_dirty f"
    "fl_hash f = Some hh" "db = None \<or> \<not> fl_dirty f"
  shows "\<exists>r. hasher_hash P eb h n force db = Some r \<and> hash_result K E V force x db r"
proof -
  have hh: "hh = K (node_enc K x)" "force \<or> big K x" using assms(2,5) by (auto simp: flag_ok_def)
  have cl: "ref_node K x \<and> saved K (V db) x" if "\<not> fl_dirty f" using assms(2,5) that by (simp add: flag_ok_def)
  have "hasher_hash P eb h n force db = Some ((HashNode hh, n, None), db) \<or>
      \<not> fl_dirty f \<and> hasher_hash P eb h n force db = Some ((HashNode hh, HashNode hh, None), db)"
    using assms(3-6) by (cases db) (auto simp: hasher_hash.simps)
  moreover have "hash_result K E V force x db ((HashNode hh, n, None), db)"
    using assms(1,6) hh cl by (auto simp: hash_result_def hash_val_def hash_of_def saved_def)
  moreover have "hash_result K E V force x db ((HashNode hh, HashNode hh, None), db)" if "\<not> fl_dirty f"
    using cl [OF that] hh by (auto simp: hash_result_def hash_val_def hash_of_def saved_def intro!: sf_hash)
  ultimately show ?thesis by auto
qed

lemma short_compact: "ref_node K (ShortNode k (Some y) f) \<Longrightarrow> hexToCompact k = Some (the (hexToCompact k))"
  using compact_inverse [of k "[]"] compact_inverse [of "butlast k" "[16]"] by (auto simp: ref_node_def elim!: wf_ShortE)

lemma hash_short:
  assumes n: "stands_for K (V db) (\<not> force) (ShortNode k (Some c) f) (ShortNode k (Some y) no_flag)"
    and x: "ref_node K (ShortNode k (Some y) no_flag)" "encs K (ShortNode k (Some y) no_flag) \<subseteq> E" "db \<noteq> None \<longrightarrow> inj_on K E" "sha h = K"
    and IH: "\<not> is_value c \<Longrightarrow> \<exists>r. hasher_hash P eb h c False db = Some r \<and> hash_result K E V False y db r"
  shows "\<exists>r. hasher_hash P eb h (ShortNode k (Some c) f) force db = Some r \<and> hash_result K E V force (ShortNode k (Some y) no_flag) db r"
proof (cases "\<exists>hh. fl_hash f = Some hh \<and> (db = None \<or> \<not> fl_dirty f)")
  case True
  then obtain hh where "fl_hash f = Some hh" "db = None \<or> \<not> fl_dirty f" by blast
  then show ?thesis by (rule hash_cached [OF n sf_flag(1) [OF n], rotated 2]) (auto simp: flag_canUnload_def)
next
  case False
  have c: "stands_for K (V db) True c y" using n by (auto elim: sf_ShortE)
  obtain kk where key: "hexToCompact k = Some kk" using short_compact [OF x(1)] by blast
  have nv: "is_value y \<longleftrightarrow> is_value c" using c by (cases c) (auto elim: sf_ValueE sf_ShortE sf_FullE sf_HashE dest: ref_node_not)
  have unload: "\<not> node_canUnload (ShortNode k (Some c) f) gen limit" if "fl_dirty f" for gen limit using that by (simp add: flag_canUnload_def)
  have "\<exists>collapsed c' db1. hashChildren P eb h (ShortNode k (Some c) f) db =
        Some ((ShortNode (the (hexToCompact k)) (Some collapsed) f, ShortNode k (Some c') f, None), db1) \<and>
      kept K E V db db1 \<and> node_value collapsed = child_val K (Some y) \<and> stands_for K (V db1) True c' y \<and>
      (db \<noteq> None \<longrightarrow> saved_below K (V db1) y \<and> (\<not> is_value y \<and> big K y \<longrightarrow> V db1 (K (node_enc K y)) = Some (node_enc K y)))"
  proof (cases "is_value c")
    case True
    then obtain v where v: "c = ValueNode v" "y = ValueNode v" using c by (cases c) (auto elim: sf_ValueE)
    then show ?thesis using key by (auto simp: child_val_def intro: sf_value)
  next
    case False
    then obtain hashed cached db1 where r: "hasher_hash P eb h c False db = Some ((hashed, cached, None), db1)"
      "hash_result K E V False y db ((hashed, cached, None), db1)" using IH by (auto simp: hash_result_def)
    have "hashChildren P eb h (ShortNode k (Some c) f) db =
        Some ((ShortNode (the (hexToCompact k)) (Some hashed) f, ShortNode k (Some cached) f, None), db1)"
      using False key r(1) by (cases c) auto
    then show ?thesis using r(2) False nv hash_val_child [of y K] by (auto simp: hash_result_def)
  qed
  then obtain collapsed c' db1 where r: "hashChildren P eb h (ShortNode k (Some c) f) db =
      Some ((ShortNode (the (hexToCompact k)) (Some collapsed) f, ShortNode k (Some c') f, None), db1)"
    "kept K E V db db1" "node_value collapsed = child_val K (Some y)" "stands_for K (V db1) True c' y"
    "db \<noteq> None \<longrightarrow> saved_below K (V db1) y \<and> (\<not> is_value y \<and> big K y \<longrightarrow> V db1 (K (node_enc K y)) = Some (node_enc K y))"
    by blast
  show ?thesis
  proof (rule hash_finish [OF r(1,2) _ _ _ x _ sf_flag(1) [OF n], where mk = "\<lambda>f. ShortNode k (Some c') f"])
    show "node_value (ShortNode (the (hexToCompact k)) (Some collapsed) f) = nval K (ShortNode k (Some y) no_flag)"
      using r(3) by (simp add: nval_Short)
    show "stands_for K g (\<not> force) (ShortNode k (Some c') f') (ShortNode k (Some y) no_flag)"
      if "keeps K E (V db1) g" "flag_ok K g (\<not> force) f' (ShortNode k (Some y) no_flag)" for g f'
      using that sf_keeps [OF r(4) that(1)] x(2) by (intro sf_short) auto
  qed (use r(5) False unload in auto)
qed

end

definition child_saved :: "(byte list \<Rightarrow> byte list) \<Rightarrow> (byte list \<Rightarrow> byte list option) \<Rightarrow> node option \<Rightarrow> bool" where
  "child_saved K g c = (case c of None \<Rightarrow> True
     | Some n \<Rightarrow> saved_below K g n \<and> (\<not> is_value n \<and> big K n \<longrightarrow> g (K (node_enc K n)) = Some (node_enc K n)))"

lemma child_saved_keeps:
  assumes "child_saved K g c" "keeps K E g g'" "\<And>y. c = Some y \<Longrightarrow> encs K y \<subseteq> E \<and> (is_value y \<or> ref_node K y)"
  shows "child_saved K g' c"
proof (cases c)
  case (Some y)
  show ?thesis
  proof (cases "is_value y")
    case True
    then show ?thesis using Some by (cases y) (auto simp: child_saved_def)
  next
    case False
    then have y: "ref_node K y" "encs K y \<subseteq> E" "node_enc K y \<in> E"
      using assms(3) [OF Some] encs_self [of y K] ref_node_not [of K y] by auto
    then show ?thesis using assms(1,2) Some saved_below_keeps [OF _ y(2) assms(2) y(1)] by (auto simp: child_saved_def keeps_def)
  qed
qed (simp add: child_saved_def)

lemma sf_list_keeps:
  assumes "list_all2 (rel_option (stands_for K g True)) cs xs" "keeps K E g g'" "\<forall>y. Some y \<in> set xs \<longrightarrow> encs K y \<subseteq> E"
  shows "list_all2 (rel_option (stands_for K g' True)) cs xs"
  using assms(2,3) by (intro sf_children [OF assms(1)]) (auto intro: sf_keeps)

abbreviation opt_value :: "node option \<Rightarrow> rlp_value" where
  "opt_value c \<equiv> (case c of None \<Rightarrow> VNilInterface | Some n \<Rightarrow> node_value n)"

context node_writer
begin

text \<open>One child of a full node.\<close>

lemma hash_child:
  assumes "rel_option (stands_for K (V db) True) c x" "\<And>y. x = Some y \<Longrightarrow> if i < 16 then ref_node K y else is_value y"
    and IH: "\<And>n y. x = Some y \<Longrightarrow> ref_node K y \<Longrightarrow> stands_for K (V db) True n y \<Longrightarrow>
      \<exists>r. hasher_hash P eb h n False db = Some r \<and> hash_result K E V False y db r"
  shows "\<exists>l c' db'. (case c of
         None \<Rightarrow> Some ((ValueNode [], None, None), db)
       | Some n \<Rightarrow>
           if i < 16 then do {
             ((hashed, cached, err), db) \<leftarrow> hasher_hash P eb h n False db;
             Some ((hashed, Some cached, err), db)
           } else Some ((n, c, None), db)) = Some ((l, c', None), db') \<and> kept K E V db db' \<and>
      node_value l = child_val K x \<and> rel_option (stands_for K (V db') True) c' x \<and> (db \<noteq> None \<longrightarrow> child_saved K (V db') x)"
proof (cases c)
  case None
  then show ?thesis using assms(1) by (cases x) (auto simp: child_val_def child_saved_def)
next
  case (Some n)
  then obtain y where y: "x = Some y" "stands_for K (V db) True n y" using assms(1) by (auto simp: option_rel_Some1)
  show ?thesis
  proof (cases "i < 16")
    case True
    then have ref: "ref_node K y" using assms(2) y by auto
    then obtain hashed cached db' where r: "hasher_hash P eb h n False db = Some ((hashed, cached, None), db')"
      "hash_result K E V False y db ((hashed, cached, None), db')"
      using IH [OF y(1) _ y(2)] by (auto simp: hash_result_def)
    have "\<not> is_value y" using ref_node_not [OF ref] by blast
    then show ?thesis
      using Some y(1) True r hash_val_child [of y K] by (auto simp: hash_result_def child_saved_def)
  next
    case False
    then obtain v where "y = ValueNode v" using assms(2) y by (cases y) auto
    moreover have "n = ValueNode v" using y(2) calculation ref_node_not [of K "ValueNode v"]
      by (cases n) (auto elim: sf_ShortE sf_FullE sf_ValueE sf_HashE)
    ultimately show ?thesis using Some y False by (auto simp: child_val_def child_saved_def)
  qed
qed

lemma hash_list_ok:
  assumes "list_all2 (rel_option (stands_for K (V db) True)) cs xs"
    and "\<And>j y. j < length xs \<Longrightarrow> xs ! j = Some y \<Longrightarrow> if i + j < 16 then ref_node K y else is_value y"
    and "\<forall>y. Some y \<in> set xs \<longrightarrow> encs K y \<subseteq> E" "db \<noteq> None \<longrightarrow> inj_on K E"
    and IH: "\<And>n y db. Some y \<in> set xs \<Longrightarrow> ref_node K y \<Longrightarrow> stands_for K (V db) True n y \<Longrightarrow> db \<noteq> None \<longrightarrow> inj_on K E \<Longrightarrow>
      \<exists>r. hasher_hash P eb h n False db = Some r \<and> hash_result K E V False y db r"
  shows "\<exists>ls cs' db'. hash_list P eb h i cs db = Some ((ls, cs', None), db') \<and> kept K E V db db' \<and>
    map opt_value ls = map (child_val K) xs \<and> list_all2 (rel_option (stands_for K (V db') True)) cs' xs \<and>
    (db \<noteq> None \<longrightarrow> (\<forall>x \<in> set xs. child_saved K (V db') x))"
  using assms
proof (induction cs arbitrary: xs i db)
  case (Cons c cs)
  then obtain x xs' where xs: "xs = x # xs'" "rel_option (stands_for K (V db) True) c x" "list_all2 (rel_option (stands_for K (V db) True)) cs xs'"
    by (auto simp: list_all2_Cons1)
  obtain l c' db1 where h: "(case c of
         None \<Rightarrow> Some ((ValueNode [], None, None), db)
       | Some n \<Rightarrow>
           if i < 16 then do {
             ((hashed, cached, err), db) \<leftarrow> hasher_hash P eb h n False db;
             Some ((hashed, Some cached, err), db)
           } else Some ((n, c, None), db)) = Some ((l, c', None), db1)" "kept K E V db db1"
      "node_value l = child_val K x" "rel_option (stands_for K (V db1) True) c' x" "db \<noteq> None \<longrightarrow> child_saved K (V db1) x"
    using hash_child [OF xs(2), of i eb h E] Cons.prems(2) [of 0] Cons.prems(5) [OF _ _ _ Cons.prems(4)] xs(1) by fastforce
  have sf: "list_all2 (rel_option (stands_for K (V db1) True)) cs xs'"
    using sf_list_keeps [OF xs(3)] h(2) Cons.prems(3) xs(1) by (auto simp: kept_def)
  have slots: "if i + 1 + j < 16 then ref_node K y else is_value y" if "j < length xs'" "xs' ! j = Some y" for j y
    using Cons.prems(2) [of "Suc j" y] that xs(1) by simp
  have enc: "\<forall>y. Some y \<in> set xs' \<longrightarrow> encs K y \<subseteq> E" using Cons.prems(3) xs(1) by simp
  have ih: "\<exists>r. hasher_hash P eb h n False db = Some r \<and> hash_result K E V False y db r"
    if "Some y \<in> set xs'" "ref_node K y" "stands_for K (V db) True n y" "db \<noteq> None \<longrightarrow> inj_on K E" for n y db
    using Cons.prems(5) [OF _ that(2-)] that(1) xs(1) by simp
  have inj: "db1 \<noteq> None \<longrightarrow> inj_on K E" using Cons.prems(4) h(2) by (simp add: kept_def)
  obtain ls cs' db2 where t: "hash_list P eb h (i + 1) cs db1 = Some ((ls, cs', None), db2)" "kept K E V db1 db2"
    "map opt_value ls = map (child_val K) xs'" "list_all2 (rel_option (stands_for K (V db2) True)) cs' xs'"
    "db1 \<noteq> None \<longrightarrow> (\<forall>x \<in> set xs'. child_saved K (V db2) x)"
    using Cons.IH [OF sf slots enc inj ih] by blast
  have "hash_list P eb h i (c # cs) db = Some ((Some l # ls, c' # cs', None), db2)" using h(1) t(1) by simp
  moreover have k: "keeps K E (V db1) (V db2)" "db1 = None \<longleftrightarrow> db = None" using t(2) h(2) by (auto simp: kept_def)
  moreover have "rel_option (stands_for K (V db2) True) c' x"
    using h(4) sf_keeps [OF _ k(1)] Cons.prems(3) xs(1) by (cases x) (auto simp: option_rel_Some2)
  moreover have "is_value y \<or> ref_node K y" if "x = Some y" for y
    using Cons.prems(2) [of 0 y] xs(1) that by (auto split: if_splits)
  then have "db \<noteq> None \<longrightarrow> child_saved K (V db2) x"
    using h(5) Cons.prems(3) xs(1) by (auto intro: child_saved_keeps [OF _ k(1)])
  ultimately show ?case
    using h(3) t(3-5) kept_trans [OF h(2) t(2)] xs(1) by (intro exI [of _ "Some l # ls"] exI [of _ "c' # cs'"] exI [of _ db2]) auto
qed simp

end

context node_writer
begin

lemma hash_full:
  assumes n: "stands_for K (V db) (\<not> force) (FullNode cs f) (FullNode xs no_flag)"
    and x: "ref_node K (FullNode xs no_flag)" "encs K (FullNode xs no_flag) \<subseteq> E" "db \<noteq> None \<longrightarrow> inj_on K E" "sha h = K"
    and IH: "\<And>n y db. Some y \<in> set xs \<Longrightarrow> ref_node K y \<Longrightarrow> stands_for K (V db) True n y \<Longrightarrow> db \<noteq> None \<longrightarrow> inj_on K E \<Longrightarrow>
      \<exists>r. hasher_hash P eb h n False db = Some r \<and> hash_result K E V False y db r"
  shows "\<exists>r. hasher_hash P eb h (FullNode cs f) force db = Some r \<and> hash_result K E V force (FullNode xs no_flag) db r"
proof (cases "\<exists>hh. fl_hash f = Some hh \<and> (db = None \<or> \<not> fl_dirty f)")
  case True
  then obtain hh where "fl_hash f = Some hh" "db = None \<or> \<not> fl_dirty f" by blast
  then show ?thesis by (rule hash_cached [OF n sf_flag(2) [OF n], rotated 2]) (auto simp: flag_canUnload_def)
next
  case False
  have c: "list_all2 (rel_option (stands_for K (V db) True)) cs xs" using n by (auto elim: sf_FullE)
  have slots: "if 0 + j < 16 then ref_node K y else is_value y" if "j < length xs" "xs ! j = Some y" for j y
  proof (cases "j < 16")
    case True
    then show ?thesis using ref_node_Full(2) [OF x(1)] that by simp
  next
    case False
    then have "j = 16" using that(1) ref_node_Full(1) [OF x(1)] by simp
    then show ?thesis using ref_node_Full(3) [OF x(1)] that(2) by (auto simp: value_slot_def)
  qed
  have enc: "\<forall>y. Some y \<in> set xs \<longrightarrow> encs K y \<subseteq> E" using encs_child [of _ xs K no_flag] x(2) by blast
  obtain ls cs' db1 where r: "hash_list P eb h 0 cs db = Some ((ls, cs', None), db1)" "kept K E V db db1"
    "map opt_value ls = map (child_val K) xs" "list_all2 (rel_option (stands_for K (V db1) True)) cs' xs"
    "db \<noteq> None \<longrightarrow> (\<forall>x \<in> set xs. child_saved K (V db1) x)"
    using hash_list_ok [OF c slots enc x(3) IH] by blast
  have ch: "hashChildren P eb h (FullNode cs f) db = Some ((FullNode ls f, FullNode cs' f, None), db1)" using r(1) by simp
  show ?thesis
  proof (rule hash_finish [OF ch r(2) _ _ _ x _ sf_flag(2) [OF n], where mk = "\<lambda>f. FullNode cs' f"])
    show "node_value (FullNode ls f) = nval K (FullNode xs no_flag)" using r(3) by (simp add: nval_Full)
    show "stands_for K g (\<not> force) (FullNode cs' f') (FullNode xs no_flag)"
      if "keeps K E (V db1) g" "flag_ok K g (\<not> force) f' (FullNode xs no_flag)" for g f'
      using that sf_list_keeps [OF r(4) that(1) enc] by (intro sf_full) auto
    show "db \<noteq> None \<longrightarrow> saved_below K (V db1) (FullNode xs no_flag)" using r(5) by (auto simp: child_saved_def)
  qed (use False in \<open>auto simp: flag_canUnload_def\<close>)
qed

lemma hash_correct:
  assumes "stands_for K (V db) (\<not> force) n x" "ref_node K x" "encs K x \<subseteq> E" "db \<noteq> None \<longrightarrow> inj_on K E" "sha h = K"
  shows "\<exists>r. hasher_hash P eb h n force db = Some r \<and> hash_result K E V force x db r"
  using assms
proof (induction x arbitrary: n force db rule: measure_induct_rule [of size])
  case (less x)
  from less.prems(1) show ?case
  proof (cases rule: stands_for.cases)
    case (sf_value v)
    then show ?thesis using ref_node_not [OF less.prems(2)] by simp
  next
    case (sf_short c y f k)
    have "ref_node K y" "encs K y \<subseteq> E" if "\<not> is_value c"
    proof -
      have "\<not> is_value y" using sf_short(3) that ref_node_not [of K y] by (cases c) (auto elim: sf_ShortE sf_FullE sf_HashE)
      then show "ref_node K y" using ref_node_Short less.prems(2) sf_short(2) by blast
      show "encs K y \<subseteq> E" using less.prems(3) sf_short(2) by auto
    qed
    then show ?thesis
      using hash_short [of K db force k c f y E h eb] less.IH [of y db False c] less.prems sf_short by auto
  next
    case (sf_full cs xs f)
    have "\<exists>r. hasher_hash P eb h n False db = Some r \<and> hash_result K E V False y db r"
      if "Some y \<in> set xs" "ref_node K y" "stands_for K (V db) True n y" "db \<noteq> None \<longrightarrow> inj_on K E" for n y db
    proof (rule less.IH)
      show "encs K y \<subseteq> E" using encs_child [OF that(1), of K no_flag] less.prems(3) sf_full(2) by blast
    qed (use that less.prems(5) sf_full(2) size_child [OF that(1), of no_flag] in auto)
    then show ?thesis using hash_full [of K db force cs f xs E h eb] less.prems sf_full by blast
  next
    case sf_hash
    have "hasher_hash P eb h n force db = Some ((n, n, None), db)"
      using sf_hash(1) by (simp add: hasher_hash.simps hasher_store_def)
    moreover have "force \<or> big K x" using sf_hash by blast
    ultimately show ?thesis
      using less.prems(1) sf_hash by (auto simp: hash_result_def hash_val_def hash_of_def saved_def)
  qed
qed

end

end
