(* ===== verification/TrieGood.thy ===== *)
theory TrieGood
  imports TrieCommit
begin

text \<open>
  Tries whose cached hashes are right.  \<open>trie_good\<close> is the invariant under which the hash of a trie is determined by the
  map it stands for; every operation keeps it, and a commit makes the trie loadable from its root hash.
\<close>

section \<open>Sizes\<close>

lemma puthead_short: "length (puthead t l n) \<le> 9"
  using putint_bounds [of n] by (simp add: puthead_def)

lemma str_enc_bound: "length (str_enc b) \<le> length b + 9"
  using puthead_short by (auto simp: str_enc_def)

lemma list_enc_bound: "length (list_enc c) \<le> length c + 9"
  using puthead_short by (auto simp: list_enc_def)

lemma child_val_bound:
  assumes "\<And>e. length (K e) = 32" "\<And>v. c = Some (ValueNode v) \<Longrightarrow> length v \<le> b"
  shows "length (rlp_bytes (child_val K c)) \<le> b + 41"
proof (cases c)
  case (Some n)
  show ?thesis
  proof (cases "is_value n")
    case True
    then obtain v where v: "n = ValueNode v" by (cases n) auto
    then show ?thesis using str_enc_bound [of v] assms(2) [of v] Some by (simp add: child_val_def)
  next
    case False
    have "length (str_enc (K (rlp_bytes (nval K n)))) \<le> 41" using str_enc_bound [of "K (rlp_bytes (nval K n))"] assms(1) by simp
    then show ?thesis using Some False by (auto simp: child_val_def rlp_ref_def)
  qed
qed (simp add: child_val_def str_enc_simps)

text \<open>Keys and values that fit into memory many times over.\<close>

definition small_map :: "(byte list \<rightharpoonup> byte list) \<Rightarrow> bool" where
  "small_map m \<longleftrightarrow> (\<forall>k v. m k = Some v \<longrightarrow> length k < 2 ^ 40 \<and> length v < 2 ^ 40)"

lemma compact_bound:
  assumes "wfn R (ShortNode k c f)"
  shows "length (the (hexToCompact k)) \<le> length k"
  using assms
proof (cases rule: wf_Short_cases)
  case (leaf k' v)
  then show ?thesis using compact_inverse [of k' "[16]"] by auto
next
  case (ext n)
  then show ?thesis using compact_inverse [of k "[]"] by (cases k) auto
qed

lemma concat_bound: "(\<And>c. c \<in> set cs \<Longrightarrow> length (f c) \<le> b) \<Longrightarrow> length (concat (map f cs)) \<le> length cs * b"
  by (induction cs) (auto intro: add_mono)

lemma fits_bound:
  assumes "wfn R x" "\<And>e. length (K e) = 32" "\<And>p v. holds R (Some x) p v \<Longrightarrow> length p \<le> 2 ^ 42 \<and> length v \<le> 2 ^ 40"
    "expands R x x"
  shows "fits K x"
  using assms(1,3,4)
proof (induction rule: wfn.induct)
  case (leaf k v f)
  have w: "wfn R (ShortNode (k @ [16]) (Some (ValueNode v)) f)" using leaf.hyps by (rule wfn.leaf)
  have "length (k @ [16]) \<le> 2 ^ 42 \<and> length v \<le> 2 ^ 40" using leaf.prems(1) by simp
  moreover have "length (rlp_bytes (child_val K (Some (ValueNode v)))) \<le> length v + 41" by (rule child_val_bound [OF assms(2)]) simp
  ultimately show ?case
    using compact_bound [OF w] list_enc_bound [of "str_enc (the (hexToCompact (k @ [16]))) @ rlp_bytes (child_val K (Some (ValueNode v)))"]
      str_enc_bound [of "the (hexToCompact (k @ [16]))"] by (simp add: node_enc_Short)
next
  case (ext k n f)
  have w: "wfn R (ShortNode k (Some n) f)" using ext.hyps by (rule wfn.ext)
  obtain p v where p: "holds R (Some n) p v" using wf_nonempty [OF ext.hyps(3)] by blast
  then have "length (k @ p) \<le> 2 ^ 42" using ext.prems(1) [of "k @ p" v] by auto
  moreover have "length (rlp_bytes (child_val K (Some n))) \<le> 0 + 41"
    using ext.hyps(3) by (intro child_val_bound [OF assms(2)]) auto
  ultimately have "length (node_enc K (ShortNode k (Some n) f)) < 2 ^ 63"
    using compact_bound [OF w] list_enc_bound [of "str_enc (the (hexToCompact k)) @ rlp_bytes (child_val K (Some n))"]
      str_enc_bound [of "the (hexToCompact k)"] by (simp add: node_enc_Short)
  moreover have "fits K n"
  proof (rule ext.IH)
    show "length p \<le> 2 ^ 42 \<and> length v \<le> 2 ^ 40" if "holds R (Some n) p v" for p v
      using ext.prems(1) [of "k @ p" v] that by simp
  qed (use ext.prems(2) in simp)
  ultimately show ?case by simp
next
  case (full cs f)
  have w: "wfn R (FullNode cs f)" using full.hyps by (rule wfn.full)
  have held: "length p \<le> 2 ^ 42 \<and> length v \<le> 2 ^ 40" if "i < 17" "holds R (cs ! i) p v" for i p v
  proof -
    have "unat (of_nat i :: byte) = i" using that(1) by (simp add: unsigned_of_nat take_bit_nat_eq_self)
    then show ?thesis using full.prems(1) [of "of_nat i # p" v] that full.hyps(1) by simp
  qed
  have child: "fits K n \<and> (\<forall>v. n = ValueNode v \<longrightarrow> length v \<le> 2 ^ 40)" if c: "Some n \<in> set cs" for n
  proof -
    obtain i where i: "i < 17" "cs ! i = Some n" using c full.hyps(1) by (auto simp: in_set_conv_nth)
    have v: "length v \<le> 2 ^ 40" if "n = ValueNode v" for v using held [OF i(1), of "[]" v] i(2) that by simp
    show ?thesis
    proof (cases "i < 16")
      case True
      have "expands R n n" using full.prems(2) list_all2_nthD [of "rel_option (expands R)" cs cs i] i full.hyps(1) by auto
      then show ?thesis using full.IH [OF True i(2)] held [OF i(1)] i(2) v by auto
    next
      case False
      then have "i = 16" using i(1) by simp
      then show ?thesis using full.hyps(3) i(2) v by (auto simp: value_slot_def)
    qed
  qed
  have "length (rlp_bytes (child_val K c)) \<le> 2 ^ 40 + 41" if "c \<in> set cs" for c
    using child that by (intro child_val_bound [OF assms(2)]) auto
  then have "length (concat (map (\<lambda>c. rlp_bytes (child_val K c)) cs)) \<le> length cs * (2 ^ 40 + 41)"
    by (rule concat_bound)
  then have "length (node_enc K (FullNode cs f)) < 2 ^ 63"
    using list_enc_bound [of "concat (map (\<lambda>c. rlp_bytes (child_val K c)) cs)"] full.hyps(1) by (simp add: node_enc_Full)
  then show ?case using child by (auto split: option.splits)
next
  case (hash h n)
  then show ?case by simp
qed

section \<open>Operations keep what nodes stand for\<close>

definition hash32 :: "(byte list \<Rightarrow> byte list) \<Rightarrow> bool" where
  "hash32 K \<longleftrightarrow> (\<forall>e. length (K e) = 32)"

lemma hash32D: "hash32 K \<Longrightarrow> length (K e) = 32"
  by (simp add: hash32_def)

lemma resolveHash_Inr: "resolveHash D t h p = Some (Inr n) \<Longrightarrow> loads D t h = Some n"
  by (auto simp: resolveHash_def loads_def split: Option.bind_splits sum.splits option.splits)

lemma flag_ok_gen [simp]: "flag_ok K g s (f\<lparr>fl_gen := n\<rparr>) x \<longleftrightarrow> flag_ok K g s f x"
  by (cases f) (simp add: flag_ok_def split: option.split)

lemma flag_ok_new [simp]: "flag_ok K g s (newFlag t) x"
  by (simp add: flag_ok_def newFlag_def)

lemma sf_load:
  assumes "hash32 K" "stands_for K (trie_get D t) s (HashNode h) x" "resolveHash D t h p = Some (Inr n)"
  shows "stands_for K (trie_get D t) s n x"
proof -
  have x: "h = K (node_enc K x)" "ref_node K x" "saved K (trie_get D t) x" "s \<longrightarrow> big K x"
    using assms(2) by (auto elim: sf_HashE)
  then show ?thesis using loads_saved [OF hash32D [OF assms(1)] x(2-)] resolveHash_Inr [OF assms(3)] by auto
qed

lemma sf_child:
  assumes "stands_for K get s (FullNode cs f) (FullNode xs f')" "slice_at cs (uint (i :: byte)) = Some c"
  shows "unat i < length cs" "c = cs ! unat i" "rel_option (stands_for K get True) (cs ! unat i) (xs ! unat i)"
    "list_all2 (rel_option (stands_for K get True)) cs xs"
proof -
  show l: "list_all2 (rel_option (stands_for K get True)) cs xs" using assms(1) by (auto elim: sf_FullE)
  have "int (unat i) < int (length cs)" and c: "c = cs ! unat i" using assms(2) by (auto simp: slice_at_def split: if_splits)
  then show i: "unat i < length cs" "c = cs ! unat i" by linarith+
  show "rel_option (stands_for K get True) (cs ! unat i) (xs ! unat i)" using l i by (auto dest: list_all2_nthD)
qed

lemma sf_Full_update:
  assumes "list_all2 (rel_option (stands_for K get True)) cs xs" "rel_option (stands_for K get True) c x"
    "flag_ok K get s f (FullNode (xs[i := x]) no_flag)"
  shows "stands_for K get s (FullNode (cs[i := c]) f) (FullNode (xs[i := x]) no_flag)"
  using assms by (intro sf_full list_all2_update_cong) auto

lemma tryGet_sf:
  assumes "hash32 K" "tryGet D fuel t n key pos = Some (val, n', b, None)" "rel_option (stands_for K (trie_get D t) s) n x"
  shows "rel_option (stands_for K (trie_get D t) s) n' x"
  using assms(2,3)
proof (induction fuel arbitrary: n pos val n' b s x)
  case (Suc fuel)
  show ?case
  proof (cases n)
    case None
    then show ?thesis using Suc.prems by simp
  next
    case (Some m)
    then obtain y where y: "x = Some y" "stands_for K (trie_get D t) s m y" using Suc.prems(2) by (auto simp: option_rel_Some1)
    show ?thesis
    proof (cases m)
      case (ShortNode k v f)
      then obtain c z where z: "v = Some c" "y = ShortNode k (Some z) no_flag" "stands_for K (trie_get D t) True c z"
        "flag_ok K (trie_get D t) s f y" using y(2) by (auto elim: sf_ShortE)
      consider "n' = n" | w b' where "tryGet D fuel t v key (pos + length k) = Some (val, w, b', None)"
          "n' = Some (ShortNode k w (f\<lparr>fl_gen := cachegen t\<rparr>))"
        using Suc.prems(1) Some ShortNode by (auto simp: bind_eq_Some_conv split: if_splits)
      then show ?thesis
      proof cases
        case 2
        have "rel_option (stands_for K (trie_get D t) True) w (Some z)" using Suc.IH [OF 2(1), of True "Some z"] z(1,3) by simp
        then show ?thesis using 2(2) y(1) z by (auto simp: option_rel_Some2 intro: sf_short)
      qed (use Suc.prems in simp)
    next
      case (FullNode cs f)
      then obtain xs where z: "y = FullNode xs no_flag" "flag_ok K (trie_get D t) s f y" using y(2) by (auto elim: sf_FullE)
      obtain i :: byte and c w where g: "slice_at cs (uint i) = Some c" "tryGet D fuel t c key (pos + 1) = Some (val, w, b, None)"
        "n' = (if b then Some (FullNode (cs[unat i := w]) (f\<lparr>fl_gen := cachegen t\<rparr>)) else n)"
        using Suc.prems(1) Some FullNode by (auto simp: bind_eq_Some_conv)
      note c = sf_child [OF y(2) [unfolded FullNode z(1)] g(1)]
      have "rel_option (stands_for K (trie_get D t) True) w (xs ! unat i)" using Suc.IH [OF g(2)] c(2,3) by blast
      then show ?thesis
        using sf_Full_update [OF c(4), of w "xs ! unat i" s "f\<lparr>fl_gen := cachegen t\<rparr>" "unat i"] g(3) z y Some FullNode by simp
    next
      case (HashNode h)
      obtain r where r: "resolveHash D t h (take pos key) = Some (Inr r)" "\<exists>b. tryGet D fuel t (Some r) key pos = Some (val, n', b, None)"
        using Suc.prems(1) Some HashNode by (auto split: Option.bind_splits sum.splits)
      have "stands_for K (trie_get D t) s r y" using sf_load [OF assms(1) y(2) [unfolded HashNode] r(1)] .
      then show ?thesis using r(2) Suc.IH [of "Some r"] y(1) by auto
    qed (use Suc.prems Some in auto)
  qed
qed simp

text \<open>A node that stands for something, and how new nodes do.\<close>

definition sound :: "(byte list \<Rightarrow> byte list) \<Rightarrow> 'd Database \<Rightarrow> 'd Trie \<Rightarrow> bool \<Rightarrow> node option \<Rightarrow> bool" where
  "sound K D t s n \<longleftrightarrow> (\<forall>m. n = Some m \<longrightarrow> (\<exists>x. stands_for K (trie_get D t) s m x))"

lemma sound_None [simp]: "sound K D t s None"
  by (simp add: sound_def)

lemma soundI: "stands_for K (trie_get D t) s m x \<Longrightarrow> sound K D t s (Some m)"
  by (auto simp: sound_def)

lemma soundE: "sound K D t s (Some m) \<Longrightarrow> (\<And>x. stands_for K (trie_get D t) s m x \<Longrightarrow> P) \<Longrightarrow> P"
  by (auto simp: sound_def)

lemma sound_value [simp]: "sound K D t s (Some (ValueNode v))"
  by (rule soundI [OF sf_value])

lemma sound_short: "sound K D t True (Some c) \<Longrightarrow> sound K D t s (Some (ShortNode k (Some c) (newFlag t')))"
  by (erule soundE, rule soundI [OF sf_short]) simp_all

lemma sound_ShortD: "sound K D t s (Some (ShortNode k v f)) \<Longrightarrow> \<exists>c. v = Some c \<and> sound K D t True (Some c)"
  by (erule soundE, erule sf_ShortE) (auto intro: soundI)

lemma sound_children:
  "list_all (sound K D t True) cs \<Longrightarrow> \<exists>xs. list_all2 (rel_option (stands_for K (trie_get D t) True)) cs xs"
proof (induction cs)
  case (Cons c cs)
  then obtain xs where xs: "list_all2 (rel_option (stands_for K (trie_get D t) True)) cs xs" by auto
  obtain x where "rel_option (stands_for K (trie_get D t) True) c x"
    using Cons.prems by (cases c) (auto simp: sound_def intro: that option.rel_intros)
  then show ?case using xs by (intro exI [of _ "x # xs"]) simp
qed (auto intro: exI [of _ "[]"])

lemma sound_full: "list_all (sound K D t True) cs \<Longrightarrow> sound K D t s (Some (FullNode cs (newFlag t')))"
  using sound_children [of K D t cs] by (auto intro!: soundI [OF sf_full])

lemma sound_FullD:
  assumes "sound K D t s (Some (FullNode cs f))"
  shows "list_all (sound K D t True) cs"
proof -
  obtain xs where "list_all2 (rel_option (stands_for K (trie_get D t) True)) cs xs" using assms by (auto simp: sound_def elim: sf_FullE)
  then show ?thesis by (induction rule: list_all2_induct) (auto simp: sound_def option_rel_Some1)
qed

lemma sound_load:
  "hash32 K \<Longrightarrow> sound K D t s (Some (HashNode h)) \<Longrightarrow> resolveHash D t h p = Some (Inr n) \<Longrightarrow> sound K D t s (Some n)"
  using sf_load by (fastforce simp: sound_def)

lemma sound_slice: "list_all (sound K D t True) cs \<Longrightarrow> slice_at cs i = Some c \<Longrightarrow> sound K D t True c"
  by (auto simp: slice_at_def list_all_length split: if_splits)

lemma sound_update: "list_all (sound K D t True) cs \<Longrightarrow> sound K D t True c \<Longrightarrow> list_all (sound K D t True) (cs[i := c])"
  using set_update_subset_insert [of cs i c] by (auto simp: list_all_iff)

lemma insert_None_sound:
  assumes "trie_insert D fuel t None prefix key (Some v) = Some (d, n', err)" "sound K D t True (Some v)"
  shows "sound K D t True n'" "n' \<noteq> None"
  using assms by (cases fuel; auto split: if_splits intro: sound_short)+

lemma split_sound:
  assumes "trie_insert D (Suc fuel) t (Some (ShortNode k (Some c) f)) prefix key (Some v) = Some (d, n', None)"
    "key \<noteq> []" "prefixLen key k \<noteq> length k" "sound K D t True (Some c)" "sound K D t True (Some v)"
  shows "sound K D t s n' \<and> n' \<noteq> None"
proof -
  let ?i = "prefixLen key k"
  obtain c1 c2 i1 i2 e1 e2 where c: "\<exists>d. trie_insert D fuel t None (prefix @ take (?i + 1) k) (drop (?i + 1) k) (Some c) = Some (d, c1, e1)"
    "\<exists>d. trie_insert D fuel t None (prefix @ take (?i + 1) key) (drop (?i + 1) key) (Some v) = Some (d, c2, e2)"
    and n': "n' = (let b = FullNode ((replicate 17 None)[i1 := c1, i2 := c2]) (newFlag t)
      in Some (if ?i = 0 then b else ShortNode (take ?i key) (Some b) (newFlag t)))"
    using assms(1-3) by (auto simp: bind_eq_Some_conv Let_def split: if_splits)
  have "sound K D t True c1" "sound K D t True c2" using insert_None_sound(1) assms(4,5) c by blast+
  then have "list_all (sound K D t True) ((replicate 17 None)[i1 := c1, i2 := c2])"
    by (intro sound_update) (simp_all add: list_all_iff)
  then show ?thesis unfolding n' by (auto simp: Let_def intro!: sound_short intro: sound_full)
qed

lemma insert_sound:
  assumes K: "hash32 K" and "trie_insert D fuel t n prefix key (Some (ValueNode v)) = Some (d, n', None)" "sound K D t s n"
  shows "sound K D t s n' \<and> n' \<noteq> None"
  using assms(2-)
proof (induction fuel arbitrary: n prefix key d n' s)
  case (Suc fuel)
  show ?case
  proof (cases "key = []")
    case True
    then show ?thesis using Suc.prems by (auto split: option.splits node.splits)
  next
    case False
    show ?thesis
    proof (cases n)
      case None
      then show ?thesis using Suc.prems False by (auto intro: sound_short)
    next
      case (Some m)
      show ?thesis
      proof (cases m)
        case (ShortNode k c f)
        then obtain c' where c: "c = Some c'" "sound K D t True (Some c')" using Suc.prems(2) Some sound_ShortD by blast
        show ?thesis
        proof (cases "prefixLen key k = length k")
          case True
          then show ?thesis
            using Suc.prems False Some ShortNode Suc.IH [of c "prefix @ take (length k) key" "drop (length k) key" _ _ True] c
            by (auto simp: bind_eq_Some_conv Let_def split: if_splits intro: sound_short)
        next
          case neq: False
          then show ?thesis using Suc.prems(1) split_sound [of D fuel t k c' f prefix key "ValueNode v" d n' K s] c False Some ShortNode
              by (simp del: trie_insert.simps)
        qed
      next
        case (FullNode cs f)
        then have cs: "list_all (sound K D t True) cs" using Suc.prems(2) Some sound_FullD by blast
        show ?thesis
          using Suc.prems False Some FullNode Suc.IH [of _ "prefix @ [hd key]" "tl key" _ _ True] sound_slice [OF cs] sound_update [OF cs]
          by (auto simp: bind_eq_Some_conv Let_def split: if_splits intro!: sound_full)
      next
        case (HashNode h)
        then obtain r dd nn where r: "resolveHash D t h prefix = Some (Inr r)"
          "trie_insert D fuel t (Some r) prefix key (Some (ValueNode v)) = Some (dd, nn, None)" "n' = (if dd then nn else Some r)"
          using Suc.prems(1) False Some by (auto split: Option.bind_splits sum.splits if_splits)
        have "sound K D t s (Some r)" using sound_load [OF K _ r(1)] Suc.prems(2) Some HashNode by simp
        then show ?thesis using Suc.IH [OF r(2)] r(3) by simp
      qed (use Suc.prems False Some in simp)
    qed
  qed
qed simp

lemma collapse_Some: "collapse D t prefix cs pos = Some (d, n', None) \<Longrightarrow> n' \<noteq> None"
  unfolding collapse_def Let_def
  by (simp split: Option.bind_splits) (auto split: sum.splits option.splits node.splits if_splits)

lemma delete_branch:
  assumes "trie_delete D fuel t (Some n) prefix key = Some (d, n', None)" "branch (loads D t) n"
  shows "n' \<noteq> None"
proof -
  have full: "n' \<noteq> None" if "trie_delete D fuel t (Some (FullNode cs f)) prefix key = Some (d, n', None)" for cs f fuel d n'
    using that by (cases fuel) (auto simp: bind_eq_Some_conv Let_def dest: collapse_Some split: if_splits)
  show ?thesis
  proof (cases n)
    case (HashNode h)
    then obtain fuel' r dd nn where r: "fuel = Suc fuel'" "resolveHash D t h prefix = Some (Inr r)"
      "trie_delete D fuel' t (Some r) prefix key = Some (dd, nn, None)" "n' = (if dd then nn else Some r)"
      using assms(1) by (cases fuel) (auto split: Option.bind_splits sum.splits if_splits)
    then show ?thesis using full assms(2) resolveHash_Inr [OF r(2)] HashNode by (cases r) auto
  qed (use full assms in auto)
qed

lemma collapse_sound:
  assumes K: "hash32 K" and "collapse D t prefix cs pos = Some (d, n', None)" "list_all (sound K D t True) cs" "cs ! nat pos \<noteq> None" "nat pos < length cs"
  shows "sound K D t s n'"
proof -
  obtain c where c: "cs ! nat pos = Some c" "sound K D t True (Some c)" using assms(3-) by (auto simp: list_all_length)
  obtain r where r: "(if pos \<noteq> 16 then resolve D t (Some c) prefix else Some (Inr None)) = Some (Inr r)"
    "n' = Some (case r of Some (ShortNode ck cv cf) \<Rightarrow> ShortNode (word_of_int pos # ck) cv (newFlag t)
       | _ \<Rightarrow> ShortNode [word_of_int pos] (Some c) (newFlag t))"
    using assms(2) c(1) unfolding collapse_def Let_def
    by (simp split: Option.bind_splits) (auto split: sum.splits option.splits node.splits if_splits)
  have "sound K D t True r"
  proof (cases "\<exists>h. c = HashNode h \<and> pos \<noteq> 16")
    case True
    then obtain h z where z: "c = HashNode h" "resolveHash D t h prefix = Some z" "map_sum id Some z = Inr r"
      using r(1) by (auto simp: resolve_def)
    then show ?thesis using sound_load [OF K, of D t True h prefix] c(2) by (cases z) auto
  next
    case False
    then show ?thesis using r(1) c(2) by (auto simp: resolve_def split: if_splits node.splits)
  qed
  then show ?thesis unfolding r(2) using sound_short [OF c(2)] sound_ShortD [of K D t True]
    by (fastforce split: option.splits node.splits intro: sound_short)
qed

lemma single_child_nth:
  assumes "0 \<le> single_child cs 0 (-1)"
  shows "nat (single_child cs 0 (-1)) < length cs" "cs ! nat (single_child cs 0 (-1)) \<noteq> None"
proof -
  have "single_child cs i (-1) = -1" if "occupied cs = 0" for i
    using that by (induction cs arbitrary: i) (auto simp: occupied_def split: if_splits)
  then have "occupied cs = 1" using assms single_child_many [of cs 0] by (cases "occupied cs = 0"; cases "2 \<le> occupied cs") auto
  then show "nat (single_child cs 0 (-1)) < length cs" "cs ! nat (single_child cs 0 (-1)) \<noteq> None"
    using single_child_one [of cs 0] by auto
qed

lemma delete_slot: "value_slot c \<Longrightarrow> trie_delete D fuel t c prefix key = Some (d, n', None) \<Longrightarrow> n' = None"
  by (cases fuel) (auto simp: value_slot_def)

lemma delete_short_cases:
  assumes "trie_delete D (Suc fuel) t (Some (ShortNode k c f)) prefix key = Some (d, n', None)"
  obtains "n' = Some (ShortNode k c f)" | "n' = None" | nn where "prefixLen key k = length k"
    "\<exists>d p. trie_delete D fuel t c p (drop (length k) key) = Some (d, nn, None)"
    "n' = (case nn of Some (ShortNode ck cv cf) \<Rightarrow> Some (ShortNode (k @ ck) cv (newFlag t)) | _ \<Rightarrow> Some (ShortNode k nn (newFlag t)))"
proof (cases "prefixLen key k < length k \<or> prefixLen key k = length key")
  case True
  then show ?thesis using assms that(1,2) by (auto simp: Let_def split: if_splits)
next
  case False
  then obtain dd nn err where r: "trie_delete D fuel t c (prefix @ take (length k) key) (drop (length k) key) = Some (dd, nn, err)"
    "(d, n', None) = (if \<not> dd \<or> err \<noteq> None then (False, Some (ShortNode k c f), err) else (case nn of
       Some (ShortNode ck cv cf) \<Rightarrow> (True, Some (ShortNode (k @ ck) cv (newFlag t)), None)
     | _ \<Rightarrow> (True, Some (ShortNode k nn (newFlag t)), None)))"
    using assms by (auto simp: bind_eq_Some_conv Let_def)
  show ?thesis
  proof (cases "dd \<and> err = None")
    case True
    have "prefixLen key k = length k" using False prefixLen_le(2) [of key k] by linarith
    moreover have "n' = (case nn of Some (ShortNode ck cv cf) \<Rightarrow> Some (ShortNode (k @ ck) cv (newFlag t)) | _ \<Rightarrow> Some (ShortNode k nn (newFlag t)))"
      using r(2) True by (auto split: option.splits node.splits)
    ultimately show ?thesis using that(3) r(1) True by blast
  next
    case False
    then show ?thesis using r(2) that(1) by auto
  qed
qed

lemma delete_short_sound:
  assumes w: "wfn (loads D t) (ShortNode k c f)" "path key" and n: "sound K D t s (Some (ShortNode k c f))"
    and d: "trie_delete D (Suc fuel) t (Some (ShortNode k c f)) prefix key = Some (d, n', None)"
    and IH: "\<And>m p key d n'. trie_delete D fuel t (Some m) p key = Some (d, n', None) \<Longrightarrow> wfn (loads D t) m \<Longrightarrow> path key \<Longrightarrow>
      sound K D t True (Some m) \<Longrightarrow> sound K D t True n'"
  shows "sound K D t s n'"
  using w(1)
proof (cases rule: wf_Short_cases)
  case (leaf k' v)
  have "prefixLen key k = length k \<longrightarrow> key = k"
    using path_prefix_eq [of k "drop (length k) key"] w(2) leaf unfolding prefixLen_whole
    by (metis append.right_neutral append_take_drop_id path_def)
  then show ?thesis using d n prefixLen_le(2) [of key k] by (cases "prefixLen key k = length k") (auto simp: Let_def split: if_splits)
next
  case (ext m)
  have m: "sound K D t True (Some m)" using sound_ShortD [OF n] ext(1) by auto
  consider "n' = Some (ShortNode k c f)" | "n' = None" | nn where "prefixLen key k = length k"
      "\<exists>d p. trie_delete D fuel t (Some m) p (drop (length k) key) = Some (d, nn, None)"
      "n' = (case nn of Some (ShortNode ck cv cf) \<Rightarrow> Some (ShortNode (k @ ck) cv (newFlag t)) | _ \<Rightarrow> Some (ShortNode k nn (newFlag t)))"
    using delete_short_cases [OF d] ext(1) by metis
  then show ?thesis
  proof cases
    case 3
    have "path (drop (length k) key)"
      using w(2) path_append [OF ext(2), of "drop (length k) key"] 3(1) unfolding prefixLen_whole by (metis append_take_drop_id)
    then have "sound K D t True nn" using 3(2) IH ext(4) m by blast
    moreover have "nn \<noteq> None" using 3(2) delete_branch ext(5) by blast
    ultimately show ?thesis
      unfolding 3(3) by (fastforce split: option.splits node.splits intro: sound_short dest: sound_ShortD)
  qed (use n in simp_all)
qed

lemma delete_nil: "trie_delete D fuel t None prefix key = Some (d, n', err) \<Longrightarrow> n' = None"
  by (cases fuel) auto

lemma delete_full_cases:
  assumes "trie_delete D (Suc fuel) t (Some n) prefix key = Some (d, n', None)" "n = FullNode cs f" "key = i # k" "length cs = 17"
  obtains dd nn where "unat i < 17" "trie_delete D fuel t (cs ! unat i) (prefix @ [i]) k = Some (dd, nn, None)"
    "n' = Some n \<or> dd \<and> (let cs = cs[unat i := nn]; pos = single_child cs 0 (-1) in
      if pos \<ge> 0 then \<exists>d. collapse D t prefix cs pos = Some (d, n', None) else n' = Some (FullNode cs (newFlag t)))"
proof -
  obtain c dd nn err where r: "slice_at cs (uint i) = Some c" "trie_delete D fuel t c (prefix @ [i]) k = Some (dd, nn, err)"
    "(if \<not> dd \<or> err \<noteq> None then Some (False, Some n, err)
      else let cs = cs[unat i := nn]; pos = single_child cs 0 (-1)
         in if pos \<ge> 0 then collapse D t prefix cs pos
            else Some (True, Some (FullNode cs (newFlag t)), None)) = Some (d, n', None)"
    using assms(1-3) by (auto simp: bind_eq_Some_conv slice_at_def)
  have "int (unat i) < int 17" using r(1) assms(4) by (auto simp: slice_at_def split: if_splits)
  then have i: "unat i < 17" by linarith
  then have "c = cs ! unat i" using r(1) slice_at_child [OF assms(4) i] by simp
  then show ?thesis using that [OF i, of dd nn] r(2,3) by (auto simp: Let_def split: if_splits)
qed

lemma delete_sound:
  assumes K: "hash32 K" and "trie_delete D fuel t (Some n) prefix key = Some (d, n', None)" "wfn (loads D t) n" "path key"
    "sound K D t s (Some n)"
  shows "sound K D t s n'"
  using assms(2-)
proof (induction fuel arbitrary: n prefix key d n' s)
  case (Suc fuel)
  show ?case
  proof (cases n)
    case (ShortNode k c f)
    note p = Suc.prems [unfolded ShortNode]
    show ?thesis by (rule delete_short_sound [OF p(2,3,4,1)]) (rule Suc.IH)
  next
    case (FullNode cs f)
    note w = wf_FullD [OF Suc.prems(2) [unfolded FullNode]]
    have cs: "list_all (sound K D t True) cs" using Suc.prems(4) FullNode sound_FullD by blast
    obtain i k where i: "key = i # k" using Suc.prems(3) by (cases key) auto
    obtain dd nn where r: "unat i < 17" "trie_delete D fuel t (cs ! unat i) (prefix @ [i]) k = Some (dd, nn, None)"
      "n' = Some n \<or> dd \<and> (let cs = cs[unat i := nn]; pos = single_child cs 0 (-1) in
        if pos \<ge> 0 then \<exists>d. collapse D t prefix cs pos = Some (d, n', None) else n' = Some (FullNode cs (newFlag t)))"
      using Suc.prems(1) FullNode i w(1) by (rule delete_full_cases)
    have "sound K D t True nn"
    proof (cases "i = 16")
      case True
      then show ?thesis using delete_slot [OF _ r(2)] w(3) by simp
    next
      case False
      then have k: "path k" "unat i < 16" using Suc.prems(3) i by (auto simp: path_Cons word_less_nat_alt)
      have "sound K D t True (cs ! unat i)" using cs w(1) r(1) by (simp add: list_all_length)
      then show ?thesis
        using Suc.IH [OF _ w(2) [OF k(2)] k(1), of _ "prefix @ [i]" dd nn] r(2) delete_nil [of D fuel t "prefix @ [i]" k dd nn None]
        by (cases "cs ! unat i") auto
    qed
    then have u: "list_all (sound K D t True) (cs[unat i := nn])" by (rule sound_update [OF cs])
    show ?thesis
    proof (cases "n' = Some n")
      case True
      then show ?thesis using Suc.prems(4) by simp
    next
      case False
      then show ?thesis
        using r(3) collapse_sound [OF K _ u single_child_nth(2,1), of prefix _ n' s] sound_full [OF u, of s t]
        by (auto simp: Let_def split: if_splits)
    qed
  next
    case (HashNode h)
    then obtain r dd nn where r: "resolveHash D t h prefix = Some (Inr r)"
      "trie_delete D fuel t (Some r) prefix key = Some (dd, nn, None)" "n' = (if dd then nn else Some r)"
      using Suc.prems(1) by (auto split: Option.bind_splits sum.splits if_splits)
    have "sound K D t s (Some r)" using sound_load [OF K _ r(1)] Suc.prems(4) HashNode by simp
    moreover have "wfn (loads D t) r" using Suc.prems(2) resolveHash_Inr [OF r(1)] HashNode by (auto elim: wf_HashE)
    ultimately show ?thesis using Suc.IH [OF r(2) _ Suc.prems(3)] r(3) by simp
  qed (use Suc.prems in auto)
qed simp

section \<open>Tries with sound caches\<close>

definition trie_good :: "(byte list \<Rightarrow> byte list) \<Rightarrow> 'd Database \<Rightarrow> 'd Trie \<Rightarrow> (byte list \<rightharpoonup> byte list) \<Rightarrow> bool" where
  "trie_good K D t m \<longleftrightarrow> trie_rep D t m \<and> small_map m \<and> sound K D t False (root t)"

lemma trie_get_root [simp]: "trie_get D (t\<lparr>root := n\<rparr>) = trie_get D t"
  by (simp add: fun_eq_iff trie_get_def split: option.split)

lemma sound_root [simp]: "sound K D (t\<lparr>root := n\<rparr>) s c \<longleftrightarrow> sound K D t s c"
  by (simp add: sound_def)

lemma good_get:
  assumes "hash32 K" "trie_good K D t m" "TryGet D fuel k t = Some ((v, None), t')" "trie_rep D t' m"
  shows "trie_good K D t' m"
proof -
  obtain n' b where g: "tryGet D fuel t (root t) (keybytesToHex k) 0 = Some (v, n', b, None)" "t' = (if b then t\<lparr>root := n'\<rparr> else t)"
    using assms(3) by (auto simp: TryGet_def bind_eq_Some_conv)
  obtain x where "rel_option (stands_for K (trie_get D t) False) (root t) x"
    using assms(2) by (cases "root t") (auto simp: trie_good_def sound_def intro: option.rel_intros)
  then have "rel_option (stands_for K (trie_get D t) False) n' x" by (rule tryGet_sf [OF assms(1) g(1)])
  then have "sound K D t False n'" by (auto simp: sound_def option_rel_Some1)
  then show ?thesis using assms(2,4) g(2) by (auto simp: trie_good_def)
qed

lemma good_delete:
  assumes "hash32 K" "trie_good K D t m" "trie_delete D fuel t (root t) [] (keybytesToHex k) = Some (d, n', None)"
  shows "sound K D t False n'"
proof (cases "root t")
  case None
  then show ?thesis using assms(3) delete_nil by fastforce
next
  case (Some n)
  then show ?thesis
    using delete_sound [OF assms(1) assms(3) [unfolded Some] _ path_keybytes] assms(2) by (auto simp: trie_good_def trie_rep_def)
qed

lemma small_map_delete: "small_map m \<Longrightarrow> small_map (m(k := None))"
  by (auto simp: small_map_def)

lemma good_TryDelete:
  assumes "hash32 K" "trie_good K D t m"
  shows "\<exists>t'. TryDelete D (trie_fuel k) k t = Some (None, t') \<and> trie_good K D t' (m(k := None))"
  using trie_rep_delete [of D t m k] good_delete [OF assms] assms(2) small_map_delete
  by (fastforce simp: TryDelete_def trie_good_def)

lemma good_TryUpdate:
  assumes "hash32 K" "trie_good K D t m" "length k < 2 ^ 40" "length v < 2 ^ 40"
  shows "\<exists>t'. TryUpdate D (trie_fuel k) k v t = Some (None, t') \<and> trie_good K D t' (store_value k v m)"
proof (cases "v = []")
  case True
  then show ?thesis
    using trie_rep_delete [of D t m k] good_delete [OF assms(1,2)] assms(2) small_map_delete
    by (fastforce simp: TryUpdate_def trie_good_def store_value_def)
next
  case False
  then obtain d n' where n': "trie_insert D (trie_fuel k) t (root t) [] (keybytesToHex k) (Some (ValueNode v)) = Some (d, n', None)"
    "trie_rep D (t\<lparr>root := n'\<rparr>) (m(k \<mapsto> v))" using trie_rep_insert [of D t m v k] assms(2) by (auto simp: trie_good_def)
  have "sound K D t False n'" using insert_sound [OF assms(1) n'(1), of False] assms(2) by (simp add: trie_good_def)
  moreover have "small_map (m(k \<mapsto> v))" using assms(2-) by (auto simp: small_map_def trie_good_def)
  ultimately show ?thesis using n' False by (auto simp: TryUpdate_def trie_good_def store_value_def)
qed

section \<open>The node of a map\<close>

text \<open>The expanded node in minimal form that holds a map; there is at most one.\<close>

definition map_node :: "(byte list \<rightharpoonup> byte list) \<Rightarrow> node \<Rightarrow> bool" where
  "map_node m x \<longleftrightarrow> wfn (\<lambda>_. None) x \<and> expands (\<lambda>_. None) x x \<and>
     (\<forall>p v. holds (\<lambda>_. None) (Some x) p v \<longleftrightarrow> (\<exists>k. p = keybytesToHex k \<and> m k = Some v))"

lemma map_node_unique: "map_node m x \<Longrightarrow> map_node m y \<Longrightarrow> x = y"
  by (rule canonical [of "\<lambda>_. None"]) (auto simp: map_node_def same_contents_def)

lemma map_node_contents:
  assumes "map_node m x" "map_node m' x"
  shows "m = m'"
proof -
  have "m k = Some v \<longleftrightarrow> m' k = Some v" for k v
    using assms keybytesToHex_inject by (metis map_node_def)
  then have "m k = m' k" for k by (metis not_None_eq)
  then show ?thesis by (simp add: fun_eq_iff)
qed

lemma map_node_ref:
  assumes "hash32 K" "map_node m x" "small_map m"
  shows "ref_node K x"
proof -
  have "length p \<le> 2 ^ 42 \<and> length v \<le> 2 ^ 40" if h: "holds (\<lambda>_. None) (Some x) p v" for p v
  proof -
    obtain k where "p = keybytesToHex k" "m k = Some v" using assms(2) h by (auto simp: map_node_def)
    then show ?thesis using assms(3) by (fastforce simp: length_keybytesToHex small_map_def)
  qed
  then have "fits K x" using assms(2) by (intro fits_bound [OF _ hash32D [OF assms(1)]]) (auto simp: map_node_def)
  then show ?thesis using assms(2) by (simp add: ref_node_def map_node_def)
qed

lemma good_node:
  assumes "hash32 K" "trie_good K D t m" "root t = Some n"
  shows "\<exists>x. stands_for K (trie_get D t) False n x \<and> map_node m x"
proof -
  obtain x where x: "stands_for K (trie_get D t) False n x" using assms(2,3) by (auto simp: trie_good_def sound_def)
  then have e: "expands (loads D t) n x" by (rule sf_expands [OF hash32D [OF assms(1)]])
  have "wfn (loads D t) n" "\<forall>p v. holds (loads D t) (Some n) p v \<longleftrightarrow> (\<exists>k. p = keybytesToHex k \<and> m k = Some v)"
    using assms(2,3) by (auto simp: trie_good_def trie_rep_def)
  then have "map_node m x"
    using wf_expands [of "loads D t" n "\<lambda>_. None"] expands_unique [OF e] expands_idem [OF e] expands_holds [OF e]
    by (auto simp: map_node_def)
  then show ?thesis using x by blast
qed

lemma node_good:
  assumes "hash32 K" "stands_for K (trie_get D t) False n x" "map_node m x" "small_map m" "root t = Some n"
  shows "trie_good K D t m"
proof -
  have e: "expands (loads D t) n x" by (rule sf_expands [OF hash32D [OF assms(1)] assms(2)])
  have "wfn (\<lambda>_. None) x" using assms(3) by (simp add: map_node_def)
  then have "wfn (loads D t) n" by (rule expands_wf [OF e]) simp
  moreover have "holds (loads D t) (Some n) p v \<longleftrightarrow> (\<exists>k. p = keybytesToHex k \<and> m k = Some v)" for p v
    using expands_holds [OF e, of "\<lambda>_. None" p v] assms(3) by (simp add: map_node_def)
  ultimately show ?thesis using soundI [OF assms(2)] assms(4,5) by (simp add: trie_good_def trie_rep_def)
qed

lemma good_empty: "root t = None \<Longrightarrow> trie_good K D t m \<longleftrightarrow> m = Map.empty"
  by (auto simp: trie_good_def trie_rep_def small_map_def fun_eq_iff) (metis not_None_eq)

section \<open>The root hash\<close>

interpretation hashing: node_writer map_put "\<lambda>db. case db of None \<Rightarrow> g | Some w \<Rightarrow> w" for g
  by unfold_locales (simp add: map_put_def)

definition root_hash :: "(byte list \<Rightarrow> byte list) \<Rightarrow> (byte list \<rightharpoonup> byte list) \<Rightarrow> byte list \<Rightarrow> bool" where
  "root_hash K m h \<longleftrightarrow> (if m = Map.empty then h = emptyRoot else \<exists>x. map_node m x \<and> h = K (node_enc K x))"

lemma root_hash_unique: "root_hash K m h \<Longrightarrow> root_hash K m h' \<Longrightarrow> h = h'"
  by (auto simp: root_hash_def split: if_splits dest: map_node_unique)

lemma map_node_nonempty: "map_node m x \<Longrightarrow> m \<noteq> Map.empty"
  using wf_nonempty [of "\<lambda>_. None" x] by (auto simp: map_node_def)

lemma BytesToHash_id [simp]: "length h = 32 \<Longrightarrow> BytesToHash h = h"
  by (simp add: BytesToHash_def)

lemma length_emptyRoot [simp]: "length emptyRoot = 32"
  by (simp add: emptyRoot_def)

lemma good_hash:
  assumes "hash32 K" "trie_good K D t m"
  shows "\<exists>h t'. Trie_Hash eb K t = Some (h, t') \<and> root_hash K m h \<and> trie_good K D t' m"
proof (cases "root t")
  case None
  then show ?thesis using good_empty [OF None, of K D m] good_empty [of "t\<lparr>root := None\<rparr>" K D m] assms(2) by (simp add: Trie_Hash_def hashRoot_def root_hash_def)
next
  case (Some n)
  obtain x where x: "stands_for K (trie_get D t) False n x" "map_node m x" using good_node [OF assms Some] by blast
  have ref: "ref_node K x" using map_node_ref [OF assms(1) x(2)] assms(2) by (simp add: trie_good_def)
  let ?h = "\<lparr>sha = K, ha_cachegen = cachegen t, ha_cachelimit = cachelimit t\<rparr>"
  obtain hashed cached db' where r: "hasher_hash map_put eb ?h n True None = Some ((hashed, cached, None), db')"
    "as_hash hashed = Some (K (node_enc K x))" "db' = None" "stands_for K (case db' of None \<Rightarrow> trie_get D t | Some w \<Rightarrow> w) False cached x"
    using hashing.hash_correct [of K "trie_get D t" None True n x "encs K x" ?h eb] x(1) ref
    by (auto simp: hash_result_def hash_of_def kept_def)
  have "trie_good K D (t\<lparr>root := Some cached\<rparr>) m"
    using r(3,4) x(2) assms(2) by (intro node_good [OF assms(1), of _ _ cached x]) (auto simp: trie_good_def)
  moreover have "Trie_Hash eb K t = Some (K (node_enc K x), t\<lparr>root := Some cached\<rparr>)"
    using r(1-3) Some hash32D [OF assms(1)] by (simp add: Trie_Hash_def hashRoot_def)
  ultimately show ?thesis using x(2) map_node_nonempty [OF x(2)] by (auto simp: root_hash_def)
qed

end
