(* ===== verification/TrieProps.thy ===== *)
theory TrieProps
  imports TrieGood
begin

text \<open>
  Root hashes and commits: the root hash is a function of the contents, different contents have different root hashes
  as long as the hash function does not collide on the encodings at hand, and a committed trie can be loaded again
  from its root hash.
\<close>

section \<open>Assumptions on the hash function and the database\<close>

text \<open>The encodings of all nodes of the trie for a map.\<close>

definition map_encs :: "(byte list \<Rightarrow> byte list) \<Rightarrow> (byte list \<rightharpoonup> byte list) \<Rightarrow> byte list set" where
  "map_encs K m = \<Union> {encs K x |x. map_node m x}"

text \<open>
  What the trie relies on: hashes have 32 bytes, \<^verbatim>\<open>emptyRoot\<close> is the hash of the encoding of the empty string, the
  encodings in \<open>E\<close> do not collide with each other or with it, and none hashes to the zero hash.
\<close>

definition hash_ok :: "(byte list \<Rightarrow> byte list) \<Rightarrow> byte list set \<Rightarrow> bool" where
  "hash_ok K E \<longleftrightarrow> hash32 K \<and> K [0x80] = emptyRoot \<and> inj_on K (insert [0x80] E) \<and> zeroHash \<notin> K ` E"

text \<open>A put succeeds and is read back; other entries stay.\<close>

definition stores :: "'d Database \<Rightarrow> bool" where
  "stores D \<longleftrightarrow> (\<forall>k v w. \<exists>w'. db_Put D k v w = (None, w') \<and> (\<forall>h. db_Get D h w' = (if h = k then Inr (Some v) else db_Get D h w)))"

lemma map_encs_node: "map_node m x \<Longrightarrow> map_encs K m = encs K x"
  unfolding map_encs_def using map_node_unique [of m] by blast

lemma hash_ok_32: "hash_ok K E \<Longrightarrow> hash32 K"
  by (simp add: hash_ok_def)

lemma hash_ok_inj: "hash_ok K E \<Longrightarrow> inj_on K E"
  by (simp add: hash_ok_def)

lemma node_enc_not_80: "ref_node K x \<Longrightarrow> node_enc K x \<noteq> [0x80]"
proof
  assume "ref_node K x" "node_enc K x = [0x80]"
  then obtain c where "list_enc c = [0x80]" using node_enc_list [of x K] ref_node_not [of K x] by auto
  then show False by (auto simp: list_enc_def puthead_def split: if_splits)
qed

lemma root_not_special:
  assumes "hash_ok K E" "encs K x \<subseteq> E" "ref_node K x"
  shows "K (node_enc K x) \<noteq> emptyRoot" "K (node_enc K x) \<noteq> zeroHash"
proof -
  have e: "node_enc K x \<in> E" using assms(2,3) encs_self [of x K] ref_node_not [of K x] by auto
  show "K (node_enc K x) \<noteq> zeroHash" using assms(1) e by (metis hash_ok_def imageI)
  show "K (node_enc K x) \<noteq> emptyRoot"
    using assms(1) e node_enc_not_80 [OF assms(3)] by (metis hash_ok_def inj_onD insertCI)
qed

section \<open>Different contents, different hashes\<close>

lemma saved_all:
  assumes "\<forall>e \<in> encs K x. g (K e) = Some e" "is_value x \<or> ref_node K x"
  shows "saved_below K g x \<and> (\<not> is_value x \<longrightarrow> g (K (node_enc K x)) = Some (node_enc K x))"
  using assms
proof (induction x)
  case (FullNode cs f)
  have "saved_below K g y \<and> (\<not> is_value y \<longrightarrow> g (K (node_enc K y)) = Some (node_enc K y))" if "Some y \<in> set cs" for y
    using FullNode.IH [OF that] encs_child [OF that, of K f] FullNode.prems ref_node_child [OF _ that, of K f] by auto
  then show ?case using FullNode.prems(1) by (auto split: option.splits)
next
  case (ShortNode k c f)
  have "saved_below K g y \<and> (\<not> is_value y \<longrightarrow> g (K (node_enc K y)) = Some (node_enc K y))" if "c = Some y" for y
    using ShortNode.IH [of y] ShortNode.prems ref_node_Short [of K k y f] that by auto
  then show ?case using ShortNode.prems(1) by (auto split: option.splits)
qed (auto dest: ref_node_not)

text \<open>
  Two nodes with the same encoding are equal: a database with all their encodings decodes it to a node that stands
  for both.
\<close>

lemma node_enc_inject:
  assumes "hash32 K" "ref_node K x" "ref_node K y" "inj_on K (encs K x \<union> encs K y)" "node_enc K x = node_enc K y"
  shows "x = y"
proof -
  let ?E = "encs K x \<union> encs K y"
  let ?g = "\<lambda>h. if h \<in> K ` ?E then Some (inv_into ?E K h) else None"
  let ?D = "\<lparr>db_Get = \<lambda>h _. Inr (?g h), db_Put = \<lambda>_ _ w. (None, w)\<rparr> :: unit Database"
  let ?t = "\<lparr>root = None, tr_db = Some (), originalRoot = [], cachegen = 0, cachelimit = 0\<rparr>"
  have g: "?g (K e) = Some e" if "e \<in> ?E" for e using that assms(4) by (auto simp: inv_into_f_f)
  have get: "trie_get ?D ?t = ?g" by (simp add: fun_eq_iff trie_get_def)
  have s: "saved K (trie_get ?D ?t) z" if "z = x \<or> z = y" for z
  proof -
    have "ref_node K z" "\<forall>e \<in> encs K z. ?g (K e) = Some e" using that assms(2,3) g by blast+
    then show ?thesis using saved_all [of K z ?g] ref_node_not [of K z] unfolding saved_def get by blast
  qed
  obtain n where n: "loads ?D ?t (K (node_enc K x)) = Some n" "stands_for K (trie_get ?D ?t) False n x"
    using loads_saved [OF hash32D [OF assms(1)] assms(2) s, of False] by blast
  obtain n' where n': "loads ?D ?t (K (node_enc K y)) = Some n'" "stands_for K (trie_get ?D ?t) False n' y"
    using loads_saved [OF hash32D [OF assms(1)] assms(3) s, of False] by blast
  have "n' = n" using n(1) n'(1) assms(5) by simp
  then show ?thesis
    using expands_unique [OF sf_expands [OF hash32D [OF assms(1)] n(2)]] sf_expands [OF hash32D [OF assms(1)] n'(2)] by simp
qed

lemma root_hash_inject:
  assumes "hash_ok K (map_encs K m \<union> map_encs K m')" "small_map m" "small_map m'" "root_hash K m h" "root_hash K m' h"
  shows "m = m'"
proof -
  note K = hash_ok_32 [OF assms(1)]
  have special: "h \<noteq> emptyRoot" if "map_node l x" "small_map l" "h = K (node_enc K x)" "l = m \<or> l = m'" for l x
    using root_not_special(1) [OF assms(1) _ map_node_ref [OF K that(1,2)]] map_encs_node [OF that(1), of K] that(3,4) by auto
  show ?thesis
  proof (cases "m = Map.empty \<or> m' = Map.empty")
    case True
    then show ?thesis using assms(4,5) special assms(2,3) by (auto simp: root_hash_def split: if_splits)
  next
    case False
    then obtain x y where x: "map_node m x" "h = K (node_enc K x)" and y: "map_node m' y" "h = K (node_enc K y)"
      using assms(4,5) by (auto simp: root_hash_def)
    have E: "map_encs K m = encs K x" "map_encs K m' = encs K y" using x(1) y(1) by (simp_all add: map_encs_node)
    note ref = map_node_ref [OF K x(1) assms(2)] map_node_ref [OF K y(1) assms(3)]
    have inj: "inj_on K (encs K x \<union> encs K y)" using hash_ok_inj [OF assms(1)] unfolding E .
    have "node_enc K x \<in> encs K x" "node_enc K y \<in> encs K y" using encs_self ref_node_not ref by blast+
    then have "node_enc K x = node_enc K y" using inj x(2) y(2) by (metis UnCI inj_onD)
    then have "x = y" by (rule node_enc_inject [OF K ref inj])
    then show ?thesis using map_node_contents x(1) y(1) by blast
  qed
qed

section \<open>Committing and loading\<close>

definition db_view :: "'d Database \<Rightarrow> 'd option \<Rightarrow> byte list \<Rightarrow> byte list option" where
  "db_view D db h = (case db of None \<Rightarrow> None | Some w \<Rightarrow> (case db_Get D h w of Inr e \<Rightarrow> e | Inl _ \<Rightarrow> None))"

lemma trie_get_view: "trie_get D t = db_view D (tr_db t)"
  by (simp add: fun_eq_iff trie_get_def db_view_def)

lemma stores_writer: "stores D \<Longrightarrow> node_writer (db_Put D) (db_view D)"
  by unfold_locales (fastforce simp: stores_def db_view_def)

lemma good_commit:
  assumes "hash32 K" "inj_on K (map_encs K m)" "trie_good K D t m" "stores D" "tr_db t = Some w"
  shows "\<exists>h t'. Trie_Commit D eb K t = Some ((h, None), t') \<and> root_hash K m h \<and> trie_good K D t' m \<and>
    (\<exists>w'. tr_db t' = Some w') \<and> (\<forall>x. map_node m x \<longrightarrow> saved K (trie_get D t') x)"
proof (cases "root t")
  case None
  then have m: "m = Map.empty" using good_empty assms(3) by metis
  let ?t = "t\<lparr>root := None, cachegen := cachegen t + 1, tr_db := Some w\<rparr>"
  have "trie_good K D ?t m" using good_empty [of ?t K D m] m by simp
  moreover have "Trie_Commit D eb K t = Some ((emptyRoot, None), ?t)"
    using None assms(5) by (simp add: Trie_Commit_def Trie_CommitTo_def hashRoot_def)
  ultimately show ?thesis using m map_node_nonempty by (auto simp: root_hash_def)
next
  case (Some n)
  obtain x where x: "stands_for K (trie_get D t) False n x" "map_node m x" using good_node [OF assms(1,3) Some] by blast
  have ref: "ref_node K x" using map_node_ref [OF assms(1) x(2)] assms(3) by (simp add: trie_good_def)
  let ?h = "\<lparr>sha = K, ha_cachegen = cachegen t, ha_cachelimit = cachelimit t\<rparr>"
  have "inj_on K (encs K x)" using assms(2) map_encs_node [OF x(2), of K] by simp
  then have "\<exists>r. hasher_hash (db_Put D) eb ?h n True (Some w) = Some r \<and> hash_result K (encs K x) (db_view D) True x (Some w) r"
    using node_writer.hash_correct [OF stores_writer [OF assms(4)], of K "Some w" True n x "encs K x" ?h eb] x(1) ref assms(5)
    by (simp add: trie_get_view)
  then obtain hashed cached w' where r: "hasher_hash (db_Put D) eb ?h n True (Some w) = Some ((hashed, cached, None), Some w')"
    "as_hash hashed = Some (K (node_enc K x))" "stands_for K (db_view D (Some w')) False cached x" "saved K (db_view D (Some w')) x"
    by (auto simp: hash_result_def hash_of_def kept_def saved_def)
  let ?t = "t\<lparr>root := Some cached, cachegen := cachegen t + 1, tr_db := Some w'\<rparr>"
  have "trie_good K D ?t m"
    using r(3) x(2) assms(3) by (intro node_good [OF assms(1), of _ _ cached x]) (auto simp: trie_good_def trie_get_view)
  moreover have "Trie_Commit D eb K t = Some ((K (node_enc K x), None), ?t)"
    using r(1,2) Some assms(5) hash32D [OF assms(1)] by (simp add: Trie_Commit_def Trie_CommitTo_def hashRoot_def)
  moreover have "\<forall>y. map_node m y \<longrightarrow> saved K (trie_get D ?t) y" using r(4) map_node_unique x(2) by (auto simp: trie_get_view)
  ultimately show ?thesis using x(2) map_node_nonempty [OF x(2)] by (auto simp: root_hash_def)
qed

lemma good_load:
  assumes "hash_ok K (map_encs K m)" "small_map m" "root_hash K m h" "tr_db t = db" "\<forall>x. map_node m x \<longrightarrow> saved K (trie_get D t) x"
  shows "\<exists>t'. New D h db = Some (Inr t') \<and> trie_good K D t' m"
proof (cases "m = Map.empty")
  case True
  then show ?thesis using assms(3) by (auto simp: New_def root_hash_def good_empty)
next
  case False
  then obtain x where x: "map_node m x" "h = K (node_enc K x)" using assms(3) by (auto simp: root_hash_def)
  note K = hash_ok_32 [OF assms(1)]
  have ref: "ref_node K x" using map_node_ref [OF K x(1) assms(2)] .
  have nz: "h \<noteq> emptyRoot" "h \<noteq> zeroHash" using root_not_special [OF assms(1) _ ref] map_encs_node [OF x(1), of K] x(2) by auto
  let ?t = "\<lparr>root = None, tr_db = db, originalRoot = h, cachegen = 0, cachelimit = 0\<rparr>"
  have "saved K (trie_get D ?t) x" using assms(4,5) x(1) by (simp add: trie_get_view)
  then obtain n where n: "loads D ?t h = Some n" "stands_for K (trie_get D ?t) False n x"
    using loads_saved [OF hash32D [OF K] ref, of D ?t False] x(2) by auto
  have "trie_good K D (?t\<lparr>root := Some n\<rparr>) m"
    using n(2) x(1) assms(2) by (intro node_good [OF K, of _ _ n x]) (auto simp: trie_get_view)
  then show ?thesis using resolveHash_loads [OF n(1), of "[]"] nz by (simp add: New_def)
qed

section \<open>Properties\<close>

text \<open>
  Claim C12. A new trie has sound caches, and every operation keeps them sound: whatever is loaded, inserted, split
  or collapsed, a cached hash is that of the node it sits on and a clean node is in the database.
\<close>

theorem caches_stay_sound:
  assumes "hash32 K" "trie_good K D t m" "length k < 2 ^ 40" "length v < 2 ^ 40"
  shows "(\<exists>t'. TryGet D (trie_fuel k) k t = Some ((m k, None), t') \<and> trie_good K D t' m) \<and>
    (\<exists>t'. TryUpdate D (trie_fuel k) k v t = Some (None, t') \<and> trie_good K D t' (m(k := if v = [] then None else Some v))) \<and>
    (\<exists>t'. TryDelete D (trie_fuel k) k t = Some (None, t') \<and> trie_good K D t' (m(k := None))) \<and>
    (\<exists>t'. New D zeroHash db = Some (Inr t') \<and> trie_good K D t' Map.empty)"
proof (intro conjI)
  show "\<exists>t'. TryGet D (trie_fuel k) k t = Some ((m k, None), t') \<and> trie_good K D t' m"
    using trie_rep_get [of D t m k] good_get [OF assms(1,2)] assms(2) by (fastforce simp: trie_good_def)
  show "\<exists>t'. TryUpdate D (trie_fuel k) k v t = Some (None, t') \<and> trie_good K D t' (m(k := if v = [] then None else Some v))"
    using good_TryUpdate [OF assms] by (simp add: store_value_def)
  show "\<exists>t'. TryDelete D (trie_fuel k) k t = Some (None, t') \<and> trie_good K D t' (m(k := None))"
    by (rule good_TryDelete [OF assms(1,2)])
  show "\<exists>t'. New D zeroHash db = Some (Inr t') \<and> trie_good K D t' Map.empty"
    by (auto simp: New_def good_empty)
qed

text \<open>
  Claim C10. The root hash depends on the contents alone: two tries that hold the same map, over different databases,
  after different histories and with different parts loaded or cached, have the same hash, and hashing keeps both.
\<close>

theorem root_hash_of_contents:
  assumes "hash32 K" "trie_good K D t m" "trie_good K D' t' m"
  shows "\<exists>h s s'. Trie_Hash eb K t = Some (h, s) \<and> Trie_Hash eb' K t' = Some (h, s') \<and> trie_good K D s m \<and> trie_good K D' s' m"
  using good_hash [OF assms(1,2)] good_hash [OF assms(1,3)] root_hash_unique by metis

text \<open>
  Claim C11. The root hash binds the contents: if the hash function does not collide on the encodings of the nodes of two
  tries, then their root hashes are equal exactly if their contents are.
\<close>

theorem root_hash_binds:
  assumes "hash_ok K (map_encs K m \<union> map_encs K m')" "trie_good K D t m" "trie_good K D' t' m'"
    "Trie_Hash eb K t = Some (h, s)" "Trie_Hash eb' K t' = Some (h', s')"
  shows "h = h' \<longleftrightarrow> m = m'"
proof -
  have "root_hash K m h" "root_hash K m' h'"
    using good_hash [OF hash_ok_32 [OF assms(1)] assms(2), of eb] good_hash [OF hash_ok_32 [OF assms(1)] assms(3), of eb'] assms(4,5)
    by auto
  then show ?thesis using root_hash_inject [OF assms(1)] root_hash_unique assms(2,3) by (auto simp: trie_good_def)
qed

text \<open>
  Claim C9. A committed trie can be loaded: \<^verbatim>\<open>Commit\<close> succeeds, returns the hash that \<^verbatim>\<open>Hash\<close> returns and keeps the contents,
  and \<^verbatim>\<open>New\<close> with that hash over the written database gives a trie with the same contents.
\<close>

theorem commit_roundtrip:
  assumes "hash_ok K (map_encs K m)" "stores D" "trie_good K D t m" "tr_db t = Some w"
  shows "\<exists>h t' t'' s. Trie_Commit D eb K t = Some ((h, None), t') \<and> trie_good K D t' m \<and>
    New D h (tr_db t') = Some (Inr t'') \<and> trie_good K D t'' m \<and> Trie_Hash eb' K t = Some (h, s)"
proof -
  note K = hash_ok_32 [OF assms(1)]
  obtain h t' where t': "Trie_Commit D eb K t = Some ((h, None), t')" "root_hash K m h" "trie_good K D t' m"
    "\<forall>x. map_node m x \<longrightarrow> saved K (trie_get D t') x"
    using good_commit [OF K hash_ok_inj [OF assms(1)] assms(3,2,4)] by blast
  have "small_map m" using assms(3) by (simp add: trie_good_def)
  then obtain t'' where "New D h (tr_db t') = Some (Inr t'')" "trie_good K D t'' m"
    using good_load [OF assms(1) _ t'(2) refl t'(4)] by blast
  moreover obtain s where "Trie_Hash eb' K t = Some (h, s)"
    using good_hash [OF K assms(3)] root_hash_unique [OF t'(2)] by blast
  ultimately show ?thesis using t' by blast
qed

text \<open>A trie with one leaf, over a database that is a map.\<close>

definition map_db :: "(byte list \<rightharpoonup> byte list) Database" where
  "map_db = \<lparr>db_Get = \<lambda>k w. Inr (w k), db_Put = map_put\<rparr>"

definition leaf_hash :: "byte list \<Rightarrow> byte list" where
  "leaf_hash e = (if e = [0x80] then emptyRoot else replicate 32 1)"

definition leaf_trie :: "(byte list \<rightharpoonup> byte list) Trie" where
  "leaf_trie = \<lparr>root = Some (ShortNode [1, 2, 16] (Some (ValueNode [7])) \<lparr>fl_hash = None, fl_gen = 0, fl_dirty = True\<rparr>),
     tr_db = Some Map.empty, originalRoot = zeroHash, cachegen = 0, cachelimit = 0\<rparr>"

lemma leaf_node: "map_node [[0x12] \<mapsto> [7]] (ShortNode [1, 2, 16] (Some (ValueNode [7])) no_flag)"
proof -
  have "wfn (\<lambda>_. None) (ShortNode ([1, 2] @ [16]) (Some (ValueNode [7])) no_flag)" by (rule wfn.leaf) simp_all
  moreover have "keybytesToHex [0x12] = [1, 2, 16]" by (simp add: keybytesToHex_def)
  ultimately show ?thesis by (auto simp: map_node_def)
qed

lemma leaf_hash32: "hash32 leaf_hash"
  by (simp add: hash32_def leaf_hash_def)

lemma leaf_small: "small_map [[0x12] \<mapsto> [7]]"
  by (simp add: small_map_def)

lemma leaf_good: "trie_good leaf_hash map_db leaf_trie [[0x12] \<mapsto> [7]]"
proof (rule node_good [OF leaf_hash32 _ leaf_node])
  show "small_map [[0x12] \<mapsto> [7]]" by (rule leaf_small)
  show "stands_for leaf_hash (trie_get map_db leaf_trie) False (ShortNode [1, 2, 16] (Some (ValueNode [7])) \<lparr>fl_hash = None, fl_gen = 0, fl_dirty = True\<rparr>)
    (ShortNode [1, 2, 16] (Some (ValueNode [7])) no_flag)"
    by (intro sf_short sf_value) (simp add: flag_ok_def)
qed (simp add: leaf_trie_def)

lemma leaf_hash_ok: "hash_ok leaf_hash (map_encs leaf_hash [[0x12] \<mapsto> [7]])"
proof -
  let ?x = "ShortNode [1, 2, 16] (Some (ValueNode [7])) no_flag"
  have "emptyRoot \<noteq> replicate 32 1" by (rule notI, drule arg_cong [of _ _ hd]) (simp add: emptyRoot_def)
  moreover have "zeroHash \<noteq> replicate 32 1" by (simp add: zeroHash_def)
  moreover have "node_enc leaf_hash ?x \<noteq> [0x80]" using node_enc_not_80 [OF map_node_ref [OF leaf_hash32 leaf_node leaf_small]] .
  ultimately show ?thesis using leaf_hash32 by (auto simp: map_encs_node [OF leaf_node] hash_ok_def leaf_hash_def)
qed

lemma map_db_stores: "stores map_db"
  by (simp add: stores_def map_db_def map_put_def)

theorem caches_stay_sound_witness:
  "\<exists>t'. TryDelete map_db (trie_fuel [0x12]) [0x12] leaf_trie = Some (None, t') \<and> trie_good leaf_hash map_db t' Map.empty"
  using caches_stay_sound [OF leaf_hash32 leaf_good, of "[0x12]" "[9]"] by auto

definition no_trie :: "(byte list \<rightharpoonup> byte list) Trie" where
  "no_trie = \<lparr>root = None, tr_db = None, originalRoot = zeroHash, cachegen = 0, cachelimit = 0\<rparr>"

definition new_encbuf :: encbuf where
  "new_encbuf = \<lparr>eb_str = [], lheads = [], lhsize = 0\<rparr>"

theorem root_hash_of_contents_witness:
  "\<exists>h s s'. Trie_Hash new_encbuf leaf_hash leaf_trie = Some (h, s) \<and>
     (\<exists>t'. TryUpdate map_db (trie_fuel [0x12]) [0x12] [7] no_trie = Some (None, t') \<and> Trie_Hash new_encbuf leaf_hash t' = Some (h, s'))"
proof -
  have "trie_good leaf_hash map_db no_trie Map.empty" by (simp add: good_empty no_trie_def)
  then obtain t' where t': "TryUpdate map_db (trie_fuel [0x12]) [0x12] [7] no_trie = Some (None, t')" "trie_good leaf_hash map_db t' [[0x12] \<mapsto> [7]]"
    using good_TryUpdate [OF leaf_hash32, of map_db no_trie Map.empty "[0x12]" "[7]"] by (auto simp: store_value_def)
  then show ?thesis using root_hash_of_contents [OF leaf_hash32 leaf_good t'(2), of new_encbuf new_encbuf] by blast
qed

theorem root_hash_binds_witness:
  "\<exists>h s h' s'. Trie_Hash new_encbuf leaf_hash leaf_trie = Some (h, s) \<and> Trie_Hash new_encbuf leaf_hash no_trie = Some (h', s') \<and> h \<noteq> h'"
proof -
  have g: "trie_good leaf_hash map_db no_trie Map.empty" by (simp add: good_empty no_trie_def)
  have "map_encs leaf_hash Map.empty = {}" using map_node_nonempty by (auto simp: map_encs_def)
  then have ok: "hash_ok leaf_hash (map_encs leaf_hash [[0x12] \<mapsto> [7]] \<union> map_encs leaf_hash Map.empty)" using leaf_hash_ok by simp
  obtain h s h' s' where h: "Trie_Hash new_encbuf leaf_hash leaf_trie = Some (h, s)" "Trie_Hash new_encbuf leaf_hash no_trie = Some (h', s')"
    using good_hash [OF leaf_hash32 leaf_good, of new_encbuf] good_hash [OF leaf_hash32 g, of new_encbuf] by blast
  then show ?thesis using root_hash_binds [OF ok leaf_good g h] by (auto simp: fun_eq_iff)
qed

theorem commit_roundtrip_witness:
  "\<exists>h t' t'' s. Trie_Commit map_db new_encbuf leaf_hash leaf_trie = Some ((h, None), t') \<and> trie_good leaf_hash map_db t' [[0x12] \<mapsto> [7]] \<and>
    New map_db h (tr_db t') = Some (Inr t'') \<and> trie_good leaf_hash map_db t'' [[0x12] \<mapsto> [7]] \<and>
    Trie_Hash new_encbuf leaf_hash leaf_trie = Some (h, s)"
  by (rule commit_roundtrip [OF leaf_hash_ok map_db_stores leaf_good]) (simp add: leaf_trie_def)

end
