(* ===== verification/RlpDecode.thy ===== *)
theory RlpDecode
  imports RlpProps
begin

text \<open>
  The RLP decoder, \<^verbatim>\<open>src/common/rlp/decode.go\<close>, reading from a \<^verbatim>\<open>bytes.Reader\<close>.

  Which decoder handles a value is decided by reflection on its type; here \<open>dtype\<close> names the decoder.  The innermost list
  is the head of \<open>stack\<close>, and \<^term>\<open>None\<close> as the kind is the -1 that makes \<^verbatim>\<open>Kind\<close> read the next one.
  The buffer \<^verbatim>\<open>uintbuf\<close> is filled before it is read and is left out.  Decoders of types that implement
  \<^verbatim>\<open>Decoder\<close> and of interfaces are left out.
\<close>

section \<open>Errors\<close>

datatype dtype = DRaw | DUint nat | DBool | DString | DBigInt | DByteSlice | DByteArray nat
  | DListSlice dtype | DTail dtype | DListArray nat dtype | DStruct "(string \<times> dtype) list" | DPtr dtype | DOptPtr dtype

datatype decode_ctx = CField string | CIndex nat | CType dtype

datatype stream_error = EOL | RlpErr rlp_error | IoEOF | ErrCanonInt | ErrElemTooLarge | ErrMoreThanOneValue
  | errNotInList | errNotAtEOL | errUintOverflow | InvalidBool "64 word"
  | decodeError string dtype "decode_ctx list"

definition wrapStreamError :: "stream_error \<Rightarrow> dtype \<Rightarrow> stream_error" where
  "wrapStreamError err typ = (case err of
     ErrCanonInt \<Rightarrow> decodeError ''non-canonical integer (leading zero bytes)'' typ []
   | RlpErr ErrCanonSize \<Rightarrow> decodeError ''non-canonical size information'' typ []
   | RlpErr ErrExpectedList \<Rightarrow> decodeError ''expected input list'' typ []
   | RlpErr ErrExpectedString \<Rightarrow> decodeError ''expected input string or byte'' typ []
   | errUintOverflow \<Rightarrow> decodeError ''input string too long'' typ []
   | errNotAtEOL \<Rightarrow> decodeError ''input list has too many elements'' typ []
   | _ \<Rightarrow> err)"

definition addErrorContext :: "stream_error \<Rightarrow> decode_ctx \<Rightarrow> stream_error" where
  "addErrorContext err ctx = (case err of decodeError msg typ ctxs \<Rightarrow> decodeError msg typ (ctxs @ [ctx]) | _ \<Rightarrow> err)"

section \<open>The stream\<close>

record Stream =
  sr :: "byte list"
  remaining :: "64 word"
  limited :: bool
  skind :: "Kind option"
  ssize :: "64 word"
  byteval :: byte
  kinderr :: "stream_error option"
  stack :: "(64 word \<times> 64 word) list"

type_synonym 'a sop = "Stream \<Rightarrow> (stream_error, 'a) result \<times> Stream"

definition and_then :: "'a sop \<Rightarrow> ('a \<Rightarrow> 'b sop) \<Rightarrow> 'b sop" where
  "and_then m f s = (case m s of (Inl e, s) \<Rightarrow> (Inl e, s) | (Inr x, s) \<Rightarrow> f x s)"

text \<open>A new stream on a \<^verbatim>\<open>bytes.Reader\<close>; the limit is found from the reader when none is given.\<close>

definition NewStream :: "byte list \<Rightarrow> 64 word \<Rightarrow> Stream" where
  "NewStream r inputLimit =
     \<lparr>sr = r, remaining = (if inputLimit > 0 then inputLimit else of_nat (length r)), limited = True,
      skind = None, ssize = 0, byteval = 0, kinderr = None, stack = []\<rparr>"

definition willRead :: "64 word \<Rightarrow> unit sop" where
  "willRead n s =
     (let s = s\<lparr>skind := None\<rparr>;
          r = (case stack s of
                 [] \<Rightarrow> Inr s
               | (pos, sz) # st \<Rightarrow> if n > sz - pos then Inl ErrElemTooLarge else Inr (s\<lparr>stack := (pos + n, sz) # st\<rparr>))
      in case r of
           Inl e \<Rightarrow> (Inl e, s)
         | Inr s \<Rightarrow>
             if limited s then
               if n > remaining s then (Inl (RlpErr ErrValueTooLarge), s)
               else (Inr (), s\<lparr>remaining := remaining s - n\<rparr>)
             else (Inr (), s))"

definition readByte :: "byte sop" where
  "readByte = and_then (willRead 1) (\<lambda>_ s. case sr s of
     [] \<Rightarrow> (Inl (RlpErr RlpUnexpectedEOF), s)
   | b # r \<Rightarrow> (Inr b, s\<lparr>sr := r\<rparr>))"

text \<open>\<^verbatim>\<open>readFull\<close> into a buffer of \<open>n\<close> bytes: the reader hands out what it has.\<close>

definition readFull :: "64 word \<Rightarrow> byte list sop" where
  "readFull n = and_then (willRead n) (\<lambda>_ s.
     if unat n \<le> length (sr s) then (Inr (take (unat n) (sr s)), s\<lparr>sr := drop (unat n) (sr s)\<rparr>)
     else (Inl (RlpErr RlpUnexpectedEOF), s\<lparr>sr := []\<rparr>))"

definition readUint :: "byte \<Rightarrow> 64 word sop" where
  "readUint sz =
     (if sz = 0 then (\<lambda>s. (Inr 0, s\<lparr>skind := None\<rparr>))
      else if sz = 1 then and_then readByte (\<lambda>b s. (Inr (ucast b), s))
      else and_then (readFull (ucast sz)) (\<lambda>buf s.
        if hd buf = 0 then (Inl (RlpErr ErrCanonSize), s) else (Inr (be_get buf), s)))"

text \<open>The kind and size come with an error.\<close>

definition stream_readKind :: "Stream \<Rightarrow> (Kind \<times> 64 word \<times> stream_error option) \<times> Stream" where
  "stream_readKind s = (case readByte s of
     (Inl err, s) \<Rightarrow>
       ((Byte, 0, Some (if stack s = [] \<and> err \<in> {RlpErr RlpUnexpectedEOF, RlpErr ErrValueTooLarge} then IoEOF else err)), s)
   | (Inr b, s) \<Rightarrow>
       let s = s\<lparr>byteval := 0\<rparr>;
           sized = (\<lambda>k n. case readUint n s of
               (Inl e, s) \<Rightarrow> ((k, 0, Some e), s)
             | (Inr sz, s) \<Rightarrow> ((k, sz, if sz < 56 then Some (RlpErr ErrCanonSize) else None), s))
       in if b < 0x80 then ((Byte, 0, None), s\<lparr>byteval := b\<rparr>)
          else if b < 0xB8 then ((String, ucast (b - 0x80), None), s)
          else if b < 0xC0 then sized String (b - 0xB7)
          else if b < 0xF8 then ((List, ucast (b - 0xC0), None), s)
          else sized List (b - 0xF7))"

definition stream_Kind :: "(Kind \<times> 64 word) sop" where
  "stream_Kind s =
     (let answer = (\<lambda>s. (case kinderr s of Some e \<Rightarrow> Inl e | None \<Rightarrow> Inr (the (skind s), ssize s), s))
      in if skind s \<noteq> None then answer s
         else
           let s = s\<lparr>kinderr := None\<rparr>
           in if (case stack s of [] \<Rightarrow> False | (pos, sz) # st \<Rightarrow> pos = sz) then (Inl EOL, s)
              else
                let ((k, sz, err), s) = stream_readKind s;
                    s = s\<lparr>skind := Some k, ssize := sz, kinderr := err\<rparr>
                in if err \<noteq> None then answer s
                   else (case stack s of
                       [] \<Rightarrow> answer (if limited s \<and> sz > remaining s then s\<lparr>kinderr := Some (RlpErr ErrValueTooLarge)\<rparr> else s)
                     | (pos, lsz) # st \<Rightarrow> answer (if sz > lsz - pos then s\<lparr>kinderr := Some ErrElemTooLarge\<rparr> else s)))"

definition stream_Bytes :: "byte list sop" where
  "stream_Bytes = and_then stream_Kind (\<lambda>(kind, sz). case kind of
     Byte \<Rightarrow> (\<lambda>s. (Inr [byteval s], s\<lparr>skind := None\<rparr>))
   | String \<Rightarrow> and_then (readFull sz) (\<lambda>b s.
       if sz = 1 \<and> hd b < 128 then (Inl (RlpErr ErrCanonSize), s) else (Inr b, s))
   | List \<Rightarrow> (\<lambda>s. (Inl (RlpErr ErrExpectedString), s)))"

definition stream_Raw :: "byte list sop" where
  "stream_Raw = and_then stream_Kind (\<lambda>(kind, sz). case kind of
     Byte \<Rightarrow> (\<lambda>s. (Inr [byteval s], s\<lparr>skind := None\<rparr>))
   | String \<Rightarrow> and_then (readFull sz) (\<lambda>b s. (Inr (puthead 0x80 0xB7 sz @ b), s))
   | List \<Rightarrow> and_then (readFull sz) (\<lambda>b s. (Inr (puthead 0xC0 0xF7 sz @ b), s)))"

definition stream_uint :: "nat \<Rightarrow> 64 word sop" where
  "stream_uint maxbits = and_then stream_Kind (\<lambda>(kind, sz). case kind of
     Byte \<Rightarrow> (\<lambda>s. if byteval s = 0 then (Inl ErrCanonInt, s) else (Inr (ucast (byteval s)), s\<lparr>skind := None\<rparr>))
   | String \<Rightarrow> (\<lambda>s.
       if unat sz > maxbits div 8 then (Inl errUintOverflow, s)
       else (case readUint (ucast sz) s of
           (Inl e, s) \<Rightarrow> (Inl (if e = RlpErr ErrCanonSize then ErrCanonInt else e), s)
         | (Inr v, s) \<Rightarrow> if sz > 0 \<and> v < 128 then (Inl (RlpErr ErrCanonSize), s) else (Inr v, s)))
   | List \<Rightarrow> (\<lambda>s. (Inl (RlpErr ErrExpectedString), s)))"

definition stream_Bool :: "bool sop" where
  "stream_Bool = and_then (stream_uint 8) (\<lambda>num s.
     if num = 0 then (Inr False, s) else if num = 1 then (Inr True, s) else (Inl (InvalidBool num), s))"

definition stream_List :: "64 word sop" where
  "stream_List = and_then stream_Kind (\<lambda>(kind, sz) s.
     if kind \<noteq> List then (Inl (RlpErr ErrExpectedList), s)
     else (Inr sz, s\<lparr>stack := (0, sz) # stack s, skind := None, ssize := 0\<rparr>))"

definition stream_ListEnd :: "unit sop" where
  "stream_ListEnd s = (case stack s of
     [] \<Rightarrow> (Inl errNotInList, s)
   | (pos, sz) # st \<Rightarrow>
       if pos \<noteq> sz then (Inl errNotAtEOL, s)
       else (Inr (), s\<lparr>stack := (case st of [] \<Rightarrow> [] | (pos', sz') # st' \<Rightarrow> (pos' + sz, sz') # st'),
                      skind := None, ssize := 0\<rparr>))"

section \<open>Decoders\<close>

text \<open>\<^verbatim>\<open>big.Int.SetBytes\<close>\<close>

definition big_SetBytes :: "byte list \<Rightarrow> nat" where
  "big_SetBytes bs = foldl (\<lambda>n b. n * 256 + unat b) 0 bs"

definition wrapped :: "'a sop \<Rightarrow> dtype \<Rightarrow> 'a sop" where
  "wrapped m typ s = (case m s of (Inl e, s) \<Rightarrow> (Inl (wrapStreamError e typ), s) | (Inr x, s) \<Rightarrow> (Inr x, s))"

definition yield :: "'a \<Rightarrow> 'a sop" where
  "yield x s = (Inr x, s)"

definition decodeRawValue :: "rlp_value sop" where
  "decodeRawValue = and_then stream_Raw (\<lambda>r. yield (VRaw r))"

definition decodeUint :: "nat \<Rightarrow> rlp_value sop" where
  "decodeUint bits = and_then (wrapped (stream_uint bits) (DUint bits)) (\<lambda>num. yield (VUint num))"

definition decodeBool :: "rlp_value sop" where
  "decodeBool = and_then (wrapped stream_Bool DBool) (\<lambda>b. yield (VBool b))"

definition decodeString :: "rlp_value sop" where
  "decodeString = and_then (wrapped stream_Bytes DString) (\<lambda>b. yield (VBytes b))"

definition decodeByteSlice :: "rlp_value sop" where
  "decodeByteSlice = and_then (wrapped stream_Bytes DByteSlice) (\<lambda>b. yield (VBytes b))"

definition decodeBigInt :: "rlp_value sop" where
  "decodeBigInt = and_then (wrapped stream_Bytes DBigInt) (\<lambda>b s.
     if b \<noteq> [] \<and> hd b = 0 then (Inl (wrapStreamError ErrCanonInt DBigInt), s)
     else (Inr (VBigInt (Some (int (big_SetBytes b)))), s))"

definition decodeByteArray :: "nat \<Rightarrow> rlp_value sop" where
  "decodeByteArray vlen = and_then stream_Kind (\<lambda>(kind, sz). case kind of
     Byte \<Rightarrow> (\<lambda>s.
       if vlen = 0 then (Inl (decodeError ''input string too long'' (DByteArray vlen) []), s)
       else if vlen > 1 then (Inl (decodeError ''input string too short'' (DByteArray vlen) []), s)
       else (case stream_uint 64 s of
           (Inl _, s) \<Rightarrow> (Inr (VBytes [0]), s)
         | (Inr bv, s) \<Rightarrow> (Inr (VBytes [ucast bv]), s)))
   | String \<Rightarrow>
       if of_nat vlen < sz then (\<lambda>s. (Inl (decodeError ''input string too long'' (DByteArray vlen) []), s))
       else if of_nat vlen > sz then (\<lambda>s. (Inl (decodeError ''input string too short'' (DByteArray vlen) []), s))
       else and_then (readFull (of_nat vlen)) (\<lambda>slice s.
         if sz = 1 \<and> hd slice < 128 then (Inl (wrapStreamError (RlpErr ErrCanonSize) (DByteArray vlen)), s)
         else (Inr (VBytes slice), s))
   | List \<Rightarrow> (\<lambda>s. (Inl (wrapStreamError (RlpErr ErrExpectedString) (DByteArray vlen)), s)))"

text \<open>
  The decoders for composite types.  \<open>decode_elems\<close> is the loop of \<^verbatim>\<open>decodeSliceElems\<close>, which ends when the list does;
  every element takes at least a byte, so the length of the input is enough fuel.  \<open>decode_array\<close> is the
  loop of \<^verbatim>\<open>decodeListArray\<close>.  A nil pointer is written as \<^term>\<open>VNilByteArray\<close> or \<^term>\<open>VNilStruct\<close>.
\<close>

definition nil_value :: "dtype \<Rightarrow> rlp_value" where
  "nil_value t = (case t of DByteArray n \<Rightarrow> VNilByteArray | _ \<Rightarrow> VNilStruct)"

function (sequential) decode :: "nat \<Rightarrow> dtype \<Rightarrow> (Stream, (stream_error, rlp_value) result) op"
  and decode_elems :: "nat \<Rightarrow> nat \<Rightarrow> nat \<Rightarrow> dtype \<Rightarrow> (Stream, (stream_error, rlp_value list) result) op"
  and decode_array :: "nat \<Rightarrow> nat \<Rightarrow> nat \<Rightarrow> dtype \<Rightarrow> (Stream, (stream_error, rlp_value list) result) op"
  and decode_fields :: "nat \<Rightarrow> dtype \<Rightarrow> (string \<times> dtype) list \<Rightarrow> (Stream, (stream_error, rlp_value list) result) op"
where
  "decode fuel DRaw s = Some (decodeRawValue s)"
| "decode fuel (DUint bits) s = Some (decodeUint bits s)"
| "decode fuel DBool s = Some (decodeBool s)"
| "decode fuel DString s = Some (decodeString s)"
| "decode fuel DBigInt s = Some (decodeBigInt s)"
| "decode fuel DByteSlice s = Some (decodeByteSlice s)"
| "decode fuel (DByteArray n) s = Some (decodeByteArray n s)"
| "decode fuel (DListSlice e) s = (case wrapped stream_List (DListSlice e) s of
     (Inl err, s) \<Rightarrow> Some (Inl err, s)
   | (Inr sz, s) \<Rightarrow>
       if sz = 0 then Some (and_then stream_ListEnd (\<lambda>_. yield (VSlice False [])) s)
       else do {
         (r, s) \<leftarrow> decode_elems fuel fuel 0 e s;
         (case r of
            Inl err \<Rightarrow> Some (Inl err, s)
          | Inr vs \<Rightarrow> Some (and_then stream_ListEnd (\<lambda>_. yield (VSlice False vs)) s))
       })"
| "decode fuel (DTail e) s = do { (r, s) \<leftarrow> decode_elems fuel fuel 0 e s; Some (map_sum id (VSlice True) r, s) }"
| "decode fuel (DListArray n e) s = (case wrapped stream_List (DListArray n e) s of
     (Inl err, s) \<Rightarrow> Some (Inl err, s)
   | (Inr _, s) \<Rightarrow> do {
       (r, s) \<leftarrow> decode_array fuel n 0 e s;
       (case r of
          Inl err \<Rightarrow> Some (Inl err, s)
        | Inr vs \<Rightarrow>
            if length vs < n then Some (Inl (decodeError ''input list has too few elements'' (DListArray n e) []), s)
            else Some (and_then (wrapped stream_ListEnd (DListArray n e)) (\<lambda>_. yield (VSlice False vs)) s))
     })"
| "decode fuel (DStruct fs) s = (case wrapped stream_List (DStruct fs) s of
     (Inl err, s) \<Rightarrow> Some (Inl err, s)
   | (Inr _, s) \<Rightarrow> do {
       (r, s) \<leftarrow> decode_fields fuel (DStruct fs) fs s;
       (case r of
          Inl err \<Rightarrow> Some (Inl err, s)
        | Inr vs \<Rightarrow> Some (and_then (wrapped stream_ListEnd (DStruct fs)) (\<lambda>_. yield (VStruct vs)) s))
     })"
| "decode fuel (DPtr e) s = decode fuel e s"
| "decode fuel (DOptPtr e) s = (case stream_Kind s of
     (Inl err, s) \<Rightarrow> Some (Inl err, s\<lparr>skind := None\<rparr>)
   | (Inr (kind, sz), s) \<Rightarrow>
       if sz = 0 \<and> kind \<noteq> Byte then Some (Inr (nil_value e), s\<lparr>skind := None\<rparr>) else decode fuel e s)"
| "decode_elems fuel 0 i e s = None"
| "decode_elems fuel (Suc n) i e s = do {
     (r, s) \<leftarrow> decode fuel e s;
     (case r of
        Inl err \<Rightarrow> Some (if err = EOL then Inr [] else Inl (addErrorContext err (CIndex i)), s)
      | Inr v \<Rightarrow> do { (r, s) \<leftarrow> decode_elems fuel n (i + 1) e s; Some (map_sum id ((#) v) r, s) })
   }"
| "decode_array fuel 0 i e s = Some (Inr [], s)"
| "decode_array fuel (Suc n) i e s = do {
     (r, s) \<leftarrow> decode fuel e s;
     (case r of
        Inl err \<Rightarrow> Some (if err = EOL then Inr [] else Inl (addErrorContext err (CIndex i)), s)
      | Inr v \<Rightarrow> do { (r, s) \<leftarrow> decode_array fuel n (i + 1) e s; Some (map_sum id ((#) v) r, s) })
   }"
| "decode_fields fuel typ [] s = Some (Inr [], s)"
| "decode_fields fuel typ ((name, e) # fs) s = do {
     (r, s) \<leftarrow> decode fuel e s;
     (case r of
        Inl err \<Rightarrow> Some (Inl (if err = EOL then decodeError ''too few elements'' typ [] else addErrorContext err (CField name)), s)
      | Inr v \<Rightarrow> do { (r, s) \<leftarrow> decode_fields fuel typ fs s; Some (map_sum id ((#) v) r, s) })
   }"
  by pat_completeness auto
termination
  by (relation "measures [\<lambda>x. case x of Inl (Inl (_, t, _)) \<Rightarrow> 2 * size t | Inl (Inr (_, _, _, t, _)) \<Rightarrow> 2 * size t + 1
      | Inr (Inl (_, _, _, t, _)) \<Rightarrow> 2 * size t + 1 | Inr (Inr (_, _, fs, _)) \<Rightarrow> 2 * size_list (size_prod (\<lambda>_. 0) size) fs + 1,
      \<lambda>x. case x of Inl (Inl _) \<Rightarrow> 0 | Inl (Inr (_, n, _)) \<Rightarrow> n | Inr (Inl (_, n, _)) \<Rightarrow> n | Inr (Inr (_, _, fs, _)) \<Rightarrow> length fs]") auto

definition Stream_Decode :: "nat \<Rightarrow> dtype \<Rightarrow> (Stream, (stream_error, rlp_value) result) op" where
  "Stream_Decode fuel t s = do {
     (r, s) \<leftarrow> decode fuel t s;
     Some (case r of
         Inl (decodeError msg typ ctx) \<Rightarrow> Inl (decodeError msg typ (if ctx \<noteq> [] then ctx @ [CType t] else ctx))
       | _ \<Rightarrow> r, s)
   }"

definition DecodeBytes :: "nat \<Rightarrow> dtype \<Rightarrow> byte list \<Rightarrow> (stream_error, rlp_value) result option" where
  "DecodeBytes fuel t b = do {
     (r, s) \<leftarrow> Stream_Decode fuel t (NewStream b (of_nat (length b)));
     Some (case r of Inl e \<Rightarrow> Inl e | Inr v \<Rightarrow> if sr s \<noteq> [] then Inl ErrMoreThanOneValue else Inr v)
   }"

end
