(* ===== verification/RlpRound.thy ===== *)
theory RlpRound
  imports RlpDecode
begin

text \<open>
  Decoding undoes encoding: what the stream does on the encoding of a value, for every type that can be decoded by
  reflection.
\<close>

section \<open>Where a stream is\<close>

definition left :: "Stream \<Rightarrow> nat" where
  "left s = (case stack s of [] \<Rightarrow> length (sr s) | (p, z) # _ \<Rightarrow> unat (z - p))"

text \<open>The limit agrees with the input that is left, and the innermost list ends within it.\<close>

definition in_step :: "Stream \<Rightarrow> bool" where
  "in_step s \<longleftrightarrow> limited s \<and> length (sr s) < 2 ^ 63 \<and> remaining s = of_nat (length (sr s)) \<and> left s \<le> length (sr s)"

definition bump :: "nat \<Rightarrow> (64 word \<times> 64 word) list \<Rightarrow> (64 word \<times> 64 word) list" where
  "bump n st = (case st of [] \<Rightarrow> [] | (p, z) # st \<Rightarrow> (p + of_nat n, z) # st)"

text \<open>The stream after \<open>n\<close> more bytes.\<close>

definition moved :: "nat \<Rightarrow> Stream \<Rightarrow> Stream \<Rightarrow> bool" where
  "moved n s s' \<longleftrightarrow> in_step s' \<and> sr s' = drop n (sr s) \<and> stack s' = bump n (stack s)"

lemma bump_add: "bump m (bump n st) = bump (n + m) st"
  by (auto simp: bump_def ac_simps split: list.splits)

lemma bump_0 [simp]: "bump 0 st = st"
  by (auto simp: bump_def split: list.splits)

lemma bump_Nil [simp]: "bump n st = [] \<longleftrightarrow> st = []"
  by (auto simp: bump_def split: list.splits)

lemma left_irrelevant [simp]:
  "left (s\<lparr>skind := k\<rparr>) = left s" "left (s\<lparr>ssize := n\<rparr>) = left s"
  "left (s\<lparr>byteval := b\<rparr>) = left s" "left (s\<lparr>kinderr := e\<rparr>) = left s"
  by (simp_all add: left_def split: list.split)

lemma in_step_irrelevant [simp]:
  "in_step (s\<lparr>skind := k\<rparr>) \<longleftrightarrow> in_step s" "in_step (s\<lparr>ssize := n\<rparr>) \<longleftrightarrow> in_step s"
  "in_step (s\<lparr>byteval := b\<rparr>) \<longleftrightarrow> in_step s" "in_step (s\<lparr>kinderr := e\<rparr>) \<longleftrightarrow> in_step s"
  by (simp_all add: in_step_def)

lemma moved_irrelevant [simp]:
  "moved n s (s'\<lparr>skind := k\<rparr>) \<longleftrightarrow> moved n s s'" "moved n s (s'\<lparr>ssize := m\<rparr>) \<longleftrightarrow> moved n s s'"
  "moved n s (s'\<lparr>byteval := b\<rparr>) \<longleftrightarrow> moved n s s'" "moved n s (s'\<lparr>kinderr := e\<rparr>) \<longleftrightarrow> moved n s s'"
  by (simp_all add: moved_def)

lemma left_bump:
  assumes "stack s' = bump n (stack s)" "sr s' = drop n (sr s)" "n \<le> left s"
  shows "left s' = left s - n"
proof (cases "stack s")
  case Nil
  then show ?thesis using assms by (simp add: left_def bump_def)
next
  case (Cons pz st)
  obtain p z where pz: "pz = (p, z)" by (cases pz)
  have n: "n \<le> unat (z - p)" using assms(3) Cons pz by (simp add: left_def)
  have "unat (z - (p + of_nat n)) = unat (z - p - of_nat n)" by (simp add: algebra_simps)
  also have "\<dots> = unat (z - p) - n"
  proof -
    have "unat (of_nat n :: 64 word) = n"
      using n unsigned_less [of "z - p", where 'a = nat] by (simp add: unsigned_of_nat take_bit_nat_eq_self)
    then show ?thesis using n by (subst unat_sub) (simp_all add: word_le_nat_alt)
  qed
  finally show ?thesis using assms(1) Cons pz by (simp add: left_def bump_def)
qed

lemma movedI:
  assumes "in_step s" "n \<le> left s" "limited s'" "remaining s' = of_nat (length (sr s'))" "sr s' = drop n (sr s)" "stack s' = bump n (stack s)"
  shows "moved n s s'"
  using assms left_bump [OF assms(6,5,2)] by (auto simp: moved_def in_step_def)

lemma moved_left: "moved n s s' \<Longrightarrow> n \<le> left s \<Longrightarrow> left s' = left s - n"
  using left_bump by (simp add: moved_def)

lemma moved_add: "moved m s s' \<Longrightarrow> moved n s' s'' \<Longrightarrow> moved (m + n) s s''"
  by (simp add: moved_def bump_add ac_simps)

lemma moved_0: "in_step s \<Longrightarrow> moved 0 s s"
  by (simp add: moved_def)

section \<open>Reading\<close>

lemma left_small: "in_step s \<Longrightarrow> n \<le> left s \<Longrightarrow> n < 2 ^ 63 \<and> n \<le> length (sr s)"
  by (simp add: in_step_def)

lemma willRead_ok:
  assumes "in_step s" "n \<le> left s"
  shows "willRead (of_nat n) s = (Inr (), s\<lparr>skind := None, stack := bump n (stack s), remaining := of_nat (length (sr s) - n)\<rparr>)"
proof -
  have n: "unat (of_nat n :: 64 word) = n" using left_small [OF assms] by (intro unat_of_nat_small) simp
  have len: "unat (of_nat (length (sr s)) :: 64 word) = length (sr s)" using assms(1) by (intro unat_of_nat_small) (simp add: in_step_def)
  have r: "\<not> of_nat (length (sr s)) < (of_nat n :: 64 word)"
    using left_small [OF assms] n len by (simp add: word_less_nat_alt)
  have l: "\<not> z - p < of_nat n" if "stack s = (p, z) # st" for p z st
    using assms(2) that n by (simp add: left_def word_less_nat_alt)
  have "of_nat (length (sr s)) - of_nat n = (of_nat (length (sr s) - n) :: 64 word)" using left_small [OF assms] by simp
  then show ?thesis
    using assms(1) r l by (cases "stack s") (auto simp: willRead_def in_step_def bump_def Let_def)
qed

lemma readByte_ok:
  assumes "in_step s" "sr s = b # r" "1 \<le> left s"
  shows "\<exists>s'. readByte s = (Inr b, s') \<and> moved 1 s s' \<and> skind s' = None"
proof -
  let ?s = "s\<lparr>skind := None, stack := bump 1 (stack s), remaining := of_nat (length (sr s) - 1), sr := r\<rparr>"
  have "readByte s = (Inr b, ?s)" using willRead_ok [OF assms(1,3)] assms(2) by (simp add: readByte_def and_then_def)
  moreover have "moved 1 s ?s" using assms by (intro movedI) (auto simp: in_step_def)
  ultimately show ?thesis by auto
qed

lemma readFull_ok:
  assumes "in_step s" "n \<le> left s"
  shows "\<exists>s'. readFull (of_nat n) s = (Inr (take n (sr s)), s') \<and> moved n s s' \<and> skind s' = None"
proof -
  let ?s = "s\<lparr>skind := None, stack := bump n (stack s), remaining := of_nat (length (sr s) - n), sr := drop n (sr s)\<rparr>"
  have "unat (of_nat n :: 64 word) = n" using left_small [OF assms] by (intro unat_of_nat_small) simp
  then have "readFull (of_nat n) s = (Inr (take n (sr s)), ?s)"
    using willRead_ok [OF assms] left_small [OF assms] by (simp add: readFull_def and_then_def)
  moreover have "moved n s ?s" using assms by (intro movedI) (auto simp: in_step_def)
  ultimately show ?thesis by auto
qed

lemma readUint_putint:
  assumes "in_step s" "sr s = putint i @ r" "length (putint i) \<le> left s" "i \<noteq> 0"
  shows "\<exists>s'. readUint (of_nat (length (putint i))) s = (Inr i, s') \<and> moved (length (putint i)) s s' \<and> skind s' = None"
proof -
  have l: "1 \<le> length (putint i)" "length (putint i) \<le> 8" by (rule putint_bounds)+
  have u: "unat (of_nat (length (putint i)) :: byte) = length (putint i)" using l by (simp add: unat_byte_small)
  show ?thesis
  proof (cases "length (putint i) = 1")
    case True
    then obtain b where b: "putint i = [b]" by (auto simp: length_Suc_conv)
    then have "ucast b = i" using be_get_putint [of i] by (simp add: be_get_def)
    then show ?thesis using readByte_ok [OF assms(1), of b r] assms(2,3) b by (auto simp: readUint_def and_then_def)
  next
    case False
    have "of_nat (length (putint i)) \<noteq> (0 :: byte)" "of_nat (length (putint i)) \<noteq> (1 :: byte)"
      using False l u by (auto simp: word_unat_eq_iff)
    moreover have "(ucast (of_nat (length (putint i)) :: byte) :: 64 word) = of_nat (length (putint i))"
      using l by (intro ucast_of_nat_up) simp
    ultimately show ?thesis
      using readFull_ok [OF assms(1,3)] assms(2) hd_putint [OF assms(4)] by (auto simp: readUint_def and_then_def be_get_putint)
  qed
qed

section \<open>The kind of the next value\<close>

definition looked :: "Kind \<Rightarrow> 64 word \<Rightarrow> Stream \<Rightarrow> bool" where
  "looked k n s \<longleftrightarrow> skind s = Some k \<and> ssize s = n \<and> kinderr s = None"

lemma Kind_looked: "looked k n s \<Longrightarrow> stream_Kind s = (Inr (k, n), s)"
  by (simp add: looked_def stream_Kind_def)

lemma not_at_end: "1 \<le> left s \<Longrightarrow> \<not> (case stack s of [] \<Rightarrow> False | (pos, sz) # st \<Rightarrow> pos = sz)"
  by (auto simp: left_def split: list.splits)

text \<open>What \<^verbatim>\<open>Kind\<close> does with a kind that has been read without an error and fits.\<close>

lemma Kind_read:
  assumes "skind s = None" "1 \<le> left s" "stream_readKind (s\<lparr>kinderr := None\<rparr>) = ((k, of_nat n, None), s')" "in_step s'" "n \<le> left s'"
  shows "\<exists>s''. stream_Kind s = (Inr (k, of_nat n), s'') \<and> looked k (of_nat n) s'' \<and> byteval s'' = byteval s' \<and>
    in_step s'' \<and> sr s'' = sr s' \<and> stack s'' = stack s'"
proof -
  let ?s = "s'\<lparr>skind := Some k, ssize := of_nat n, kinderr := None\<rparr>"
  have n: "unat (of_nat n :: 64 word) = n" using left_small [OF assms(4,5)] by (intro unat_of_nat_small) simp
  have len: "unat (of_nat (length (sr s')) :: 64 word) = length (sr s')" using assms(4) by (intro unat_of_nat_small) (simp add: in_step_def)
  have r: "\<not> remaining s' < of_nat n" using left_small [OF assms(4,5)] assms(4) n len by (simp add: in_step_def word_less_nat_alt)
  have l: "\<not> z - p < of_nat n" if "stack s' = (p, z) # st" for p z st using assms(5) that n by (simp add: left_def word_less_nat_alt)
  have "stream_Kind s = (Inr (k, of_nat n), ?s)"
    using assms(1,3) not_at_end [OF assms(2)] r l by (cases "stack s'") (auto simp: stream_Kind_def Let_def)
  then show ?thesis using assms(4) by (auto simp: looked_def)
qed

lemma readKind_byte:
  assumes "in_step s" "sr s = b # r" "1 \<le> left s" "b < 0x80"
  shows "\<exists>s'. stream_readKind s = ((Byte, of_nat 0, None), s') \<and> moved 1 s s' \<and> byteval s' = b"
  using readByte_ok [OF assms(1-3)] assms(4) by (auto simp: stream_readKind_def Let_def)

lemma head_byte:
  assumes "n < 56" "(t, l, k) \<in> {(0x80, 0xB7, String), (0xC0, 0xF7, List)}"
  shows "\<not> t + of_nat n < (0x80 :: byte)" "k = String \<Longrightarrow> t + of_nat n < (0xB8 :: byte)" "k = List \<Longrightarrow> \<not> t + of_nat n < (0xC0 :: byte)"
    "k = List \<Longrightarrow> t + of_nat n < (0xF8 :: byte)" "ucast (t + of_nat n - t) = (of_nat n :: 64 word)"
  using assms tag_80 [OF assms(1)] tag_C0 [OF assms(1)] by (auto simp: word_less_nat_alt ucast_of_nat_up)

lemma head_long:
  assumes "1 \<le> m" "m \<le> 8" "(t, l, k) \<in> {(0x80, 0xB7, String), (0xC0, 0xF7, List)}"
  shows "\<not> l + of_nat m < (0x80 :: byte)" "\<not> l + of_nat m < (0xB8 :: byte)" "k = String \<Longrightarrow> l + of_nat m < (0xC0 :: byte)" "k = List \<Longrightarrow> \<not> l + of_nat m < (0xC0 :: byte)"
    "k = List \<Longrightarrow> \<not> l + of_nat m < (0xF8 :: byte)"
  using assms tag_B7 [OF assms(2)] tag_F7 [OF assms(2)] by (auto simp: word_less_nat_alt)

lemma readKind_head_ok:
  assumes s: "in_step s" "sr s = puthead t l (of_nat n) @ r" "length (puthead t l (of_nat n)) \<le> left s" and n: "n < 2 ^ 63"
    and t: "(t, l, k) \<in> {(0x80, 0xB7, String), (0xC0, 0xF7, List)}"
  shows "\<exists>s'. stream_readKind s = ((k, of_nat n, None), s') \<and> moved (length (puthead t l (of_nat n))) s s'"
proof (cases "n < 56")
  case True
  have small: "(of_nat n :: 64 word) < 56" using True n by (simp add: word_less_nat_alt unat_of_nat_small)
  have h: "puthead t l (of_nat n) = [t + of_nat n]" using small by (simp add: puthead_def ucast_of_nat_byte)
  obtain s' where s': "readByte s = (Inr (t + of_nat n), s')" "moved 1 s s'"
    using readByte_ok [OF s(1), of "t + of_nat n" r] s(2,3) h by auto
  have "k = String \<or> k = List" using t by auto
  moreover have "k = String \<Longrightarrow> t = 0x80" "k = List \<Longrightarrow> t = 0xC0" using t by auto
  ultimately have "stream_readKind s = ((k, of_nat n, None), s'\<lparr>byteval := 0\<rparr>)"
    using s'(1) head_byte [OF True t] by (auto simp: stream_readKind_def Let_def word_less_nat_alt)
  then show ?thesis using s'(2) h by simp
next
  case False
  let ?n = "of_nat n :: 64 word"
  have big: "\<not> ?n < 56" using False n by (simp add: word_less_nat_alt unat_of_nat_small)
  have h: "puthead t l ?n = (l + of_nat (length (putint ?n))) # putint ?n" using big by (simp add: puthead_def)
  obtain s1 where s1: "readByte s = (Inr (l + of_nat (length (putint ?n))), s1)" "moved 1 s s1"
    using readByte_ok [OF s(1), of "l + of_nat (length (putint ?n))" "putint ?n @ r"] s(2,3) h by auto
  have s1': "in_step (s1\<lparr>byteval := 0\<rparr>)" "sr (s1\<lparr>byteval := 0\<rparr>) = putint ?n @ r" "length (putint ?n) \<le> left (s1\<lparr>byteval := 0\<rparr>)"
    using s1(2) s(2,3) h moved_left [OF s1(2)] by (auto simp: moved_def)
  have "?n \<noteq> 0" using big by auto
  then obtain s2 where s2: "readUint (of_nat (length (putint ?n))) (s1\<lparr>byteval := 0\<rparr>) = (Inr ?n, s2)"
    "moved (length (putint ?n)) (s1\<lparr>byteval := 0\<rparr>) s2"
    using readUint_putint [OF s1'] by blast
  have "stream_readKind s = ((k, ?n, None), s2)"
    using s1(1) s2(1) big t head_long [OF putint_bounds t, of ?n] by (elim insertE emptyE) (auto simp: stream_readKind_def Let_def)
  moreover have "moved (length (puthead t l ?n)) s s2"
    using moved_add [OF s1(2), of "length (putint ?n)" s2] s2(2) h by (simp add: moved_def)
  ultimately show ?thesis by blast
qed

lemma Kind_byte:
  assumes "in_step s" "skind s = None" "sr s = b # r" "1 \<le> left s" "b < 0x80"
  shows "\<exists>s'. stream_Kind s = (Inr (Byte, 0), s') \<and> looked Byte 0 s' \<and> byteval s' = b \<and> moved 1 s s'"
proof -
  obtain s1 where s1: "stream_readKind (s\<lparr>kinderr := None\<rparr>) = ((Byte, of_nat 0, None), s1)" "moved 1 (s\<lparr>kinderr := None\<rparr>) s1" "byteval s1 = b"
    using readKind_byte [of "s\<lparr>kinderr := None\<rparr>" b r] assms by auto
  then obtain s2 where "stream_Kind s = (Inr (Byte, of_nat 0), s2)" "looked Byte (of_nat 0) s2" "byteval s2 = byteval s1"
    "in_step s2" "sr s2 = sr s1" "stack s2 = stack s1"
    using Kind_read [OF assms(2,4) s1(1)] by (auto simp: moved_def)
  then show ?thesis using s1(2,3) by (auto simp: moved_def)
qed

lemma Kind_head:
  assumes "in_step s" "skind s = None" "sr s = puthead t l (of_nat n) @ r" "length (puthead t l (of_nat n)) + n \<le> left s"
    and t: "(t, l, k) \<in> {(0x80, 0xB7, String), (0xC0, 0xF7, List)}"
  shows "\<exists>s'. stream_Kind s = (Inr (k, of_nat n), s') \<and> looked k (of_nat n) s' \<and> moved (length (puthead t l (of_nat n))) s s'"
proof -
  let ?h = "length (puthead t l (of_nat n))"
  have h: "1 \<le> ?h" by (simp add: puthead_def)
  have n: "n < 2 ^ 63" using left_small [OF assms(1,4)] by simp
  obtain s1 where s1: "stream_readKind (s\<lparr>kinderr := None\<rparr>) = ((k, of_nat n, None), s1)" "moved ?h (s\<lparr>kinderr := None\<rparr>) s1"
    using readKind_head_ok [of "s\<lparr>kinderr := None\<rparr>" t l n r k] assms n t by auto
  have "in_step s1" "n \<le> left s1" using s1(2) moved_left [OF s1(2)] assms(4) by (auto simp: moved_def)
  then obtain s2 where "stream_Kind s = (Inr (k, of_nat n), s2)" "looked k (of_nat n) s2" "in_step s2" "sr s2 = sr s1" "stack s2 = stack s1"
    using Kind_read [OF assms(2) _ s1(1)] h assms(4) by auto
  then show ?thesis using s1(2) by (auto simp: moved_def)
qed

section \<open>Strings, numbers and lists\<close>

text \<open>An encoded string: a byte, or a header and the string.\<close>

lemma str_enc_cases:
  obtains (byte) x where "b = [x]" "x < 0x80" "str_enc b = [x]"
    | (string) "str_enc b = puthead 0x80 0xB7 (of_nat (length b)) @ b" "length b = 1 \<longrightarrow> \<not> hd b < 0x80"
proof (cases "length b = 1 \<and> b ! 0 \<le> 0x7F")
  case True
  then obtain x where "b = [x]" "x \<le> 0x7F" by (auto simp: length_Suc_conv)
  then show ?thesis using byte by (auto simp: str_enc_def word_le_nat_alt word_less_nat_alt)
next
  case False
  have e: "str_enc b = puthead 0x80 0xB7 (of_nat (length b)) @ b" using False by (simp only: str_enc_def if_not_P if_False)
  have "length b = 1 \<longrightarrow> \<not> hd b < 0x80" using False by (cases b) (auto simp: word_le_nat_alt word_less_nat_alt)
  then show ?thesis using e string by blast
qed

lemma of_nat_one: "n < 2 ^ 63 \<Longrightarrow> (of_nat n :: 64 word) = 1 \<longleftrightarrow> n = 1"
  using unat_of_nat_small [of n] by (auto simp: word_unat_eq_iff)

lemma Bytes_str:
  assumes "in_step s" "skind s = None" "sr s = str_enc b @ r" "length (str_enc b) \<le> left s"
  shows "\<exists>s'. stream_Bytes s = (Inr b, s') \<and> moved (length (str_enc b)) s s' \<and> skind s' = None"
proof (cases b rule: str_enc_cases)
  case (byte x)
  then obtain s1 where "stream_Kind s = (Inr (Byte, 0), s1)" "byteval s1 = x" "moved 1 s s1"
    using Kind_byte [OF assms(1,2), of x r] assms(3,4) by auto
  then show ?thesis using byte by (simp add: stream_Bytes_def and_then_def)
next
  case string
  let ?h = "length (puthead 0x80 0xB7 (of_nat (length b)))"
  obtain s1 where s1: "stream_Kind s = (Inr (String, of_nat (length b)), s1)" "moved ?h s s1"
    using Kind_head [OF assms(1,2), of "0x80" "0xB7" "length b" "b @ r" String] assms(3,4) string(1) by auto
  have l: "in_step s1" "length b \<le> left s1" using s1(2) moved_left [OF s1(2)] assms(4) string(1) by (auto simp: moved_def)
  obtain s2 where s2: "readFull (of_nat (length b)) s1 = (Inr (take (length b) (sr s1)), s2)" "moved (length b) s1 s2" "skind s2 = None"
    using readFull_ok [OF l] by blast
  have "take (length b) (sr s1) = b" using s1(2) assms(3) string(1) by (simp add: moved_def)
  then have "stream_Bytes s = (Inr b, s2)"
    using s1(1) s2(1) string(2) of_nat_one [of "length b"] left_small [OF l] by (simp add: stream_Bytes_def and_then_def)
  then show ?thesis using moved_add [OF s1(2) s2(2)] s2(3) string(1) by simp
qed

lemma List_list:
  assumes "in_step s" "skind s = None" "sr s = list_enc c @ r" "length (list_enc c) \<le> left s"
  shows "\<exists>s' h. stream_List s = (Inr (of_nat (length c)), s') \<and> in_step s' \<and> skind s' = None \<and> sr s' = c @ r \<and>
    stack s' = (0, of_nat (length c)) # bump h (stack s) \<and> length (list_enc c) = h + length c \<and> 1 \<le> h"
proof -
  let ?h = "length (puthead 0xC0 0xF7 (of_nat (length c)))"
  have h: "1 \<le> ?h" by (simp add: puthead_def)
  obtain s1 where s1: "stream_Kind s = (Inr (List, of_nat (length c)), s1)" "moved ?h s s1"
    using Kind_head [OF assms(1,2), of "0xC0" "0xF7" "length c" "c @ r" List] assms(3,4) by (auto simp: list_enc_def)
  let ?s = "s1\<lparr>stack := (0, of_nat (length c)) # stack s1, skind := None, ssize := 0\<rparr>"
  have "unat (of_nat (length c) :: 64 word) = length c"
    using left_small [OF assms(1,4)] by (intro unat_of_nat_small) (simp add: list_enc_def)
  then have "in_step ?s" using s1(2) assms(3) by (auto simp: moved_def in_step_def left_def list_enc_def)
  moreover have "stream_List s = (Inr (of_nat (length c)), ?s)" using s1(1) by (simp add: stream_List_def and_then_def)
  ultimately show ?thesis using s1(2) assms(3) h by (intro exI [of _ ?s] exI [of _ ?h]) (auto simp: moved_def list_enc_def)
qed

lemma ListEnd_list:
  assumes s: "in_step s" "h + n \<le> left s" and s': "in_step s'" "stack s' = (of_nat n, of_nat n) # bump h (stack s)" "sr s' = drop (h + n) (sr s)"
  shows "\<exists>s''. stream_ListEnd s' = (Inr (), s'') \<and> moved (h + n) s s'' \<and> skind s'' = None"
proof -
  let ?s = "s'\<lparr>stack := bump n (bump h (stack s)), skind := None, ssize := 0\<rparr>"
  have "stream_ListEnd s' = (Inr (), ?s)" using s'(2) by (simp add: stream_ListEnd_def bump_def)
  moreover have "moved (h + n) s ?s" using s'(1) by (intro movedI [OF s]) (auto simp: in_step_def bump_add s'(3))
  ultimately show ?thesis by auto
qed

text \<open>A stream at some bytes, and an operation that reads them.\<close>

definition at :: "byte list \<Rightarrow> Stream \<Rightarrow> bool" where
  "at bs s \<longleftrightarrow> in_step s \<and> skind s = None \<and> (\<exists>r. sr s = bs @ r) \<and> length bs \<le> left s"

definition gets :: "'a sop \<Rightarrow> 'a \<Rightarrow> byte list \<Rightarrow> Stream \<Rightarrow> bool" where
  "gets m v bs s \<longleftrightarrow> (\<exists>s'. m s = (Inr v, s') \<and> moved (length bs) s s' \<and> skind s' = None)"

lemma gets_Bytes: "at (str_enc b) s \<Longrightarrow> gets stream_Bytes b (str_enc b) s"
  using Bytes_str [of s b] by (auto simp: at_def gets_def)

lemma gets_then: "gets m v bs s \<Longrightarrow> (\<And>s. f v s = (Inr w, s)) \<Longrightarrow> gets (and_then m f) w bs s"
  by (auto simp: gets_def and_then_def)

lemma gets_wrapped: "gets m v bs s \<Longrightarrow> gets (wrapped m t) v bs s"
  by (auto simp: gets_def wrapped_def)

lemma gets_yield: "gets m v bs s \<Longrightarrow> gets (and_then (wrapped m t) (\<lambda>x. yield (f x))) (f v) bs s"
  by (auto simp: gets_def and_then_def wrapped_def yield_def)

lemma putint_length_le: "unat i < 256 ^ k \<Longrightarrow> i \<noteq> 0 \<Longrightarrow> length (putint i) \<le> k"
proof (induction i arbitrary: k rule: putint_induct)
  case (small i)
  then show ?case by (cases k) (auto simp: putint_small unat_eq_zero)
next
  case (large i)
  have nz: "drop_bit 8 i \<noteq> 0" using large.hyps by (simp add: drop8_zero)
  obtain k' where k: "k = Suc k'" using large.prems by (cases k) (auto simp: unat_eq_zero)
  have "unat (drop_bit 8 i) = unat i div 256" by (simp add: drop_bit_eq_div unat_div)
  then have "unat (drop_bit 8 i) < 256 ^ k'" using large.prems(1) k by (simp add: less_mult_imp_div_less mult.commute)
  then have "length (putint (drop_bit 8 i)) \<le> k'" using large.IH nz by blast
  then show ?case using large.hyps k by (simp add: putint_rec)
qed

lemma putint_one: "length (putint i) = 1 \<longleftrightarrow> i < 0x100"
  by (auto simp: putint_def)

lemma uint_String:
  assumes "in_step s" "looked String (of_nat (length (putint i))) s" "sr s = putint i @ r" "length (putint i) \<le> left s"
    "i \<noteq> 0" "\<not> i < 128" "length (putint i) \<le> bits div 8"
  shows "\<exists>s'. stream_uint bits s = (Inr i, s') \<and> moved (length (putint i)) s s' \<and> skind s' = None"
proof -
  have l: "length (putint i) < 256" using putint_bounds(2) [of i] by simp
  obtain s' where s': "readUint (of_nat (length (putint i))) s = (Inr i, s')" "moved (length (putint i)) s s'" "skind s' = None"
    using readUint_putint [OF assms(1,3,4,5)] by blast
  have "unat (of_nat (length (putint i)) :: 64 word) = length (putint i)" using l by (intro unat_of_nat_small) simp
  then have "stream_uint bits s = (Inr i, s')"
    using Kind_looked [OF assms(2)] s'(1) assms(6,7) by (simp add: stream_uint_def and_then_def ucast_of_nat_byte)
  then show ?thesis using s' by blast
qed

lemma gets_uint:
  assumes a: "at (str_enc (if i = 0 then [] else putint i)) s" and "unat i < 256 ^ (bits div 8)"
  shows "gets (stream_uint bits) i (str_enc (if i = 0 then [] else putint i)) s"
proof -
  consider "i = 0" | "i \<noteq> 0" "i < 128" | "i \<noteq> 0" "\<not> i < 128" by blast
  then show ?thesis
  proof cases
    case 1
    then have a: "at [0x80] s" using a by (simp add: str_enc_simps)
    have p: "puthead 0x80 0xB7 (of_nat 0) = [0x80]" by (simp add: puthead_def)
    obtain s1 where "stream_Kind s = (Inr (String, 0), s1)" "moved 1 s s1"
      using Kind_head [of s "0x80" "0xB7" 0 _ String] a p by (auto simp: at_def)
    then show ?thesis using 1 by (simp add: gets_def stream_uint_def and_then_def readUint_def str_enc_simps)
  next
    case 2
    then have e: "str_enc (putint i) = [ucast i]" using str_enc_putint [of i] by simp
    have u: "unat (ucast i :: byte) = unat i" using 2 by (simp add: unsigned_ucast_eq take_bit_nat_eq_self word_less_nat_alt)
    then have b: "(ucast i :: byte) < 0x80" "(ucast i :: byte) \<noteq> 0" using 2 by (auto simp: word_less_nat_alt word_unat_eq_iff)
    have "ucast (ucast i :: byte) = i" using u by (simp add: word_unat_eq_iff ucast_up del: unsigned_ucast_eq)
    moreover obtain s1 where "stream_Kind s = (Inr (Byte, 0), s1)" "byteval s1 = ucast i" "moved 1 s s1"
      using Kind_byte [of s "ucast i"] a e 2 b(1) by (auto simp: at_def)
    ultimately show ?thesis using 2 e b(2) by (simp add: gets_def stream_uint_def and_then_def)
  next
    case 3
    let ?h = "puthead 0x80 0xB7 (of_nat (length (putint i)))"
    have e: "str_enc (putint i) = ?h @ putint i"
    proof (cases "putint i" rule: str_enc_cases)
      case (byte x)
      then have "ucast x = i" using be_get_putint [of i] by (simp add: be_get_def)
      then have "i < 128" using byte(2) by (auto simp: word_less_nat_alt ucast_up)
      then show ?thesis using 3 by simp
    qed
    obtain s1 where s1: "stream_Kind s = (Inr (String, of_nat (length (putint i))), s1)" "looked String (of_nat (length (putint i))) s1"
      "moved (length ?h) s s1"
      using Kind_head [of s "0x80" "0xB7" "length (putint i)" _ String] a e 3 by (auto simp: at_def)
    obtain r where r: "sr s1 = putint i @ r" using s1(3) a e 3 by (auto simp: at_def moved_def)
    have "length (putint i) \<le> left s1" using moved_left [OF s1(3)] a e 3 by (auto simp: at_def)
    then obtain s2 where s2: "stream_uint bits s1 = (Inr i, s2)" "moved (length (putint i)) s1 s2" "skind s2 = None"
      using uint_String [OF _ s1(2) r _ 3 putint_length_le [OF assms(2) 3(1)]] s1(3) by (auto simp: moved_def)
    have "stream_uint bits s = stream_uint bits s1" using s1(1) Kind_looked [OF s1(2)] by (simp add: stream_uint_def and_then_def)
    then show ?thesis using s2 moved_add [OF s1(3) s2(2)] e 3 by (simp add: gets_def)
  qed
qed

lemma gets_Bool: "at (str_enc (if b then [1] else [])) s \<Longrightarrow> gets stream_Bool b (str_enc (if b then [1] else [])) s"
proof -
  assume a: "at (str_enc (if b then [1] else [])) s"
  let ?i = "(if b then 1 else 0) :: 64 word"
  have e: "str_enc (if ?i = 0 then [] else putint ?i) = str_enc (if b then [1] else [])" by (simp add: putint_def)
  have u: "unat ?i < 256 ^ (8 div 8)" by (simp add: word_less_nat_alt)
  have "gets (stream_uint 8) ?i (str_enc (if b then [1] else [])) s"
    using gets_uint [of ?i s 8] a u unfolding e by blast
  then show ?thesis unfolding stream_Bool_def by (rule gets_then) simp
qed

lemma big_SetBytes_bytes: "big_SetBytes (big_bytes n) = n"
proof (induction n rule: big_bytes.induct)
  case (1 n)
  have "unat (of_nat (n mod 256) :: byte) = n mod 256" by (rule unat_byte_small) simp
  then show ?case using 1 by (cases "n = 0") (simp_all add: big_bytes.simps [of n] big_bytes.simps [of 0] big_SetBytes_def)
qed

lemma hd_big_bytes: "0 < n \<Longrightarrow> hd (big_bytes n) \<noteq> 0"
proof (induction n rule: big_bytes.induct)
  case (1 n)
  show ?case
  proof (cases "n div 256 = 0")
    case True
    have "unat (of_nat (n mod 256) :: byte) = n mod 256" by (rule unat_byte_small) simp
    moreover have "n mod 256 = n" using True by (simp add: div_eq_0_iff)
    ultimately have "of_nat (n mod 256) \<noteq> (0 :: byte)" using 1(2) by (metis unsigned_0 less_irrefl)
    then show ?thesis using True 1(2) by (simp add: big_bytes.simps [of n] big_bytes.simps [of 0])
  next
    case False
    then show ?thesis using 1 big_bytes_nonzero [of "n div 256"] by (simp add: big_bytes.simps [of n])
  qed
qed

lemma gets_BigInt: "at (str_enc (big_bytes n)) s \<Longrightarrow> gets decodeBigInt (VBigInt (Some (int n))) (str_enc (big_bytes n)) s"
  unfolding decodeBigInt_def
proof (rule gets_then)
  show "(if big_bytes n \<noteq> [] \<and> hd (big_bytes n) = 0 then (Inl (wrapStreamError ErrCanonInt DBigInt), s)
     else (Inr (VBigInt (Some (int (big_SetBytes (big_bytes n))))), s)) = (Inr (VBigInt (Some (int n))), s)" for s
    using hd_big_bytes [of n] by (cases "n = 0") (auto simp: big_SetBytes_bytes, simp add: big_bytes.simps [of 0])
qed (intro gets_wrapped gets_Bytes)

lemma gets_ByteArray:
  assumes "at (str_enc b) s" "length b = n" "b \<noteq> [0]"
  shows "gets (decodeByteArray n) (VBytes b) (str_enc b) s"
proof (cases b rule: str_enc_cases)
  case (byte x)
  obtain s1 where s1: "stream_Kind s = (Inr (Byte, 0), s1)" "looked Byte 0 s1" "byteval s1 = x" "moved 1 s s1"
    using Kind_byte [of s x] assms(1) byte by (auto simp: at_def)
  have "stream_uint 64 s1 = (Inr (ucast x), s1\<lparr>skind := None\<rparr>)"
    using Kind_looked [OF s1(2)] s1(3) assms(3) byte by (simp add: stream_uint_def and_then_def)
  moreover have "ucast (ucast x :: 64 word) = x"
    using ucast_down_up(1) [of "ucast x"] byte(2) by (simp add: word_unat_eq_iff ucast_up word_less_nat_alt del: unsigned_ucast_eq)
  ultimately show ?thesis using s1 byte assms(2) by (simp add: gets_def decodeByteArray_def and_then_def)
next
  case string
  let ?h = "puthead 0x80 0xB7 (of_nat (length b))"
  obtain s1 where s1: "stream_Kind s = (Inr (String, of_nat (length b)), s1)" "moved (length ?h) s s1"
    using Kind_head [of s "0x80" "0xB7" "length b" _ String] assms(1) string(1) by (auto simp: at_def)
  have l: "in_step s1" "length b \<le> left s1" using s1(2) moved_left [OF s1(2)] assms(1) string(1) by (auto simp: at_def moved_def)
  obtain s2 where s2: "readFull (of_nat (length b)) s1 = (Inr (take (length b) (sr s1)), s2)" "moved (length b) s1 s2" "skind s2 = None"
    using readFull_ok [OF l] by blast
  have "take (length b) (sr s1) = b" using s1(2) assms(1) string(1) by (auto simp: moved_def at_def)
  then have "decodeByteArray n s = (Inr (VBytes b), s2)"
    using s1(1) s2(1) string(2) of_nat_one [of "length b"] left_small [OF l] assms(2) by (simp add: decodeByteArray_def and_then_def)
  then show ?thesis using moved_add [OF s1(2) s2(2)] s2(3) string(1) by (simp add: gets_def)
qed

lemma gets_Raw_head:
  assumes a: "at (puthead t l (of_nat (length c)) @ c) s" and t: "(t, l, k) \<in> {(0x80, 0xB7, String), (0xC0, 0xF7, List)}"
  shows "gets decodeRawValue (VRaw (puthead t l (of_nat (length c)) @ c)) (puthead t l (of_nat (length c)) @ c) s"
proof -
  let ?h = "puthead t l (of_nat (length c))"
  obtain s1 where s1: "stream_Kind s = (Inr (k, of_nat (length c)), s1)" "moved (length ?h) s s1"
    using Kind_head [OF _ _ _ _ t, of s "length c"] a by (auto simp: at_def)
  have l: "in_step s1" "length c \<le> left s1" using s1(2) moved_left [OF s1(2)] a by (auto simp: at_def moved_def)
  obtain s2 where s2: "readFull (of_nat (length c)) s1 = (Inr (take (length c) (sr s1)), s2)" "moved (length c) s1 s2" "skind s2 = None"
    using readFull_ok [OF l] by blast
  have "take (length c) (sr s1) = c" using s1(2) a by (auto simp: moved_def at_def)
  then have "decodeRawValue s = (Inr (VRaw (?h @ c)), s2)"
    using s1(1) s2(1) t by (auto simp: decodeRawValue_def stream_Raw_def and_then_def yield_def)
  then show ?thesis using moved_add [OF s1(2) s2(2)] s2(3) by (simp add: gets_def)
qed

lemma gets_Raw:
  assumes "at e s" "e = str_enc c \<or> e = list_enc c"
  shows "gets decodeRawValue (VRaw e) e s"
proof (cases "e = list_enc c")
  case True
  then show ?thesis using gets_Raw_head [of "0xC0" "0xF7" c s List] assms(1) by (simp add: list_enc_def)
next
  case False
  then have e: "e = str_enc c" using assms(2) by simp
  show ?thesis
  proof (cases c rule: str_enc_cases)
    case (byte x)
    obtain s1 where "stream_Kind s = (Inr (Byte, 0), s1)" "byteval s1 = x" "moved 1 s s1"
      using Kind_byte [of s x] assms(1) byte e by (auto simp: at_def)
    then show ?thesis using byte e by (simp add: gets_def decodeRawValue_def stream_Raw_def and_then_def yield_def)
  next
    case string
    then show ?thesis using gets_Raw_head [of "0x80" "0xB7" c s String] assms(1) e by simp
  qed
qed

section \<open>Typed values\<close>

fun is_tail :: "dtype \<Rightarrow> bool" where
  "is_tail (DTail e) = True" | "is_tail (DPtr e) = is_tail e" | "is_tail _ = False"

definition nil_type :: "dtype \<Rightarrow> bool" where
  "nil_type t \<longleftrightarrow> (case t of DByteArray _ \<Rightarrow> True | DStruct _ \<Rightarrow> True | DListArray _ _ \<Rightarrow> True | _ \<Rightarrow> False)"

text \<open>
  Values of a type that come back from their encoding.  A raw value is an encoding itself, big integers are not nil, a byte
  array is not the single zero byte, a tail is the last field of a struct, and a pointer that may be nil does
  not point to a value whose encoding is that of nil.
\<close>

fun has_type :: "dtype \<Rightarrow> rlp_value \<Rightarrow> bool"
  and fields_type :: "(string \<times> dtype) list \<Rightarrow> rlp_value list \<Rightarrow> bool"
where
  "has_type DRaw v \<longleftrightarrow> (\<exists>c. v = VRaw (str_enc c) \<or> v = VRaw (list_enc c))"
| "has_type (DUint bits) v \<longleftrightarrow> (\<exists>i. v = VUint i \<and> unat i < 256 ^ (bits div 8))"
| "has_type DBool v \<longleftrightarrow> (\<exists>b. v = VBool b)"
| "has_type DString v \<longleftrightarrow> (\<exists>b. v = VBytes b)"
| "has_type DBigInt v \<longleftrightarrow> (\<exists>n. v = VBigInt (Some (int n)))"
| "has_type DByteSlice v \<longleftrightarrow> (\<exists>b. v = VBytes b)"
| "has_type (DByteArray n) v \<longleftrightarrow> (\<exists>b. v = VBytes b \<and> length b = n \<and> b \<noteq> [0])"
| "has_type (DListSlice e) v \<longleftrightarrow> \<not> is_tail e \<and> (\<exists>vs. v = VSlice False vs \<and> (\<forall>v \<in> set vs. has_type e v))"
| "has_type (DTail e) v \<longleftrightarrow> \<not> is_tail e \<and> (\<exists>vs. v = VSlice True vs \<and> (\<forall>v \<in> set vs. has_type e v))"
| "has_type (DListArray n e) v \<longleftrightarrow> \<not> is_tail e \<and> (\<exists>vs. v = VSlice False vs \<and> length vs = n \<and> (\<forall>v \<in> set vs. has_type e v))"
| "has_type (DStruct fs) v \<longleftrightarrow> (\<exists>vs. v = VStruct vs \<and> fields_type fs vs)"
| "has_type (DPtr e) v \<longleftrightarrow> \<not> is_tail e \<and> has_type e v"
| "has_type (DOptPtr e) v \<longleftrightarrow> nil_type e \<and> v = nil_value e \<or>
     \<not> is_tail e \<and> has_type e v \<and> rlp_bytes v \<noteq> [0x80] \<and> rlp_bytes v \<noteq> [0xC0]"
| "fields_type [] vs \<longleftrightarrow> vs = []"
| "fields_type (f # fs) vs \<longleftrightarrow> (\<exists>v vs'. vs = v # vs' \<and> has_type (snd f) v \<and> (is_tail (snd f) \<longrightarrow> fs = []) \<and> fields_type fs vs')"

lemma nil_enc: "nil_type e \<Longrightarrow> rlp_bytes (nil_value e) = [0x80] \<or> rlp_bytes (nil_value e) = [0xC0]"
  by (cases e) (auto simp: nil_value_def nil_type_def str_enc_simps list_enc_Nil)

lemma str_enc_nonempty [simp]: "str_enc b \<noteq> []"
  by (auto simp: str_enc_def puthead_def)

lemma list_enc_nonempty [simp]: "list_enc b \<noteq> []"
  by (auto simp: list_enc_def puthead_def)

lemma rlp_bytes_nonempty: "has_type t v \<Longrightarrow> \<not> is_tail t \<Longrightarrow> rlp_bytes v \<noteq> []"
proof (induction t)
  case (DOptPtr e)
  then show ?case using nil_enc [of e] by auto
qed (auto simp: Let_def)

lemma typed_encodable: "has_type t v \<Longrightarrow> encodable v"
proof (induction t arbitrary: v)
  case (DStruct fs)
  have "list_all encodable vs" if "fields_type fs vs" for vs
    using that DStruct.IH by (induction fs arbitrary: vs) fastforce+
  then show ?case using DStruct.prems by auto
next
  case (DOptPtr e)
  then show ?case by (cases e) (auto simp: nil_value_def nil_type_def)
qed (auto simp: list_all_iff)

lemma Kind_end: "skind s = None \<Longrightarrow> left s = 0 \<Longrightarrow> stack s \<noteq> [] \<Longrightarrow> stream_Kind s = (Inl EOL, s\<lparr>kinderr := None\<rparr>)"
  by (cases "stack s") (auto simp: left_def stream_Kind_def Let_def unat_eq_zero)

lemma decode_end:
  assumes "\<not> is_tail t" "skind s = None" "left s = 0" "stack s \<noteq> []"
  shows "decode fuel t s = Some (Inl EOL, s\<lparr>kinderr := None\<rparr>)"
proof -
  note k = Kind_end [OF assms(2-4)]
  note defs = and_then_def wrapped_def wrapStreamError_def decodeRawValue_def decodeUint_def decodeBool_def decodeString_def decodeBigInt_def
    decodeByteSlice_def decodeByteArray_def stream_Raw_def stream_uint_def stream_Bool_def stream_Bytes_def stream_List_def
  show ?thesis using assms(1) by (induction t) (simp_all add: k defs assms(2))
qed

section \<open>Decoding an encoding\<close>

definition dgets :: "nat \<Rightarrow> dtype \<Rightarrow> rlp_value \<Rightarrow> Stream \<Rightarrow> bool" where
  "dgets fuel t v s \<longleftrightarrow> (\<exists>s'. decode fuel t s = Some (Inr v, s') \<and> moved (length (rlp_bytes v)) s s' \<and> skind s' = None)"

lemma at_append: "at (a @ b) s \<Longrightarrow> at a s"
  by (auto simp: at_def)

lemma at_rest: "at (a @ b) s \<Longrightarrow> moved (length a) s s' \<Longrightarrow> skind s' = None \<Longrightarrow> at b s'"
  using moved_left [of "length a" s s'] by (auto simp: at_def moved_def)

lemma stack_moved: "moved n s s' \<Longrightarrow> stack s' = [] \<longleftrightarrow> stack s = []"
  by (simp add: moved_def)

abbreviation encs_of :: "rlp_value list \<Rightarrow> byte list" where
  "encs_of vs \<equiv> concat (map rlp_bytes vs)"

lemma elems_ok:
  assumes e: "\<not> is_tail e" "\<And>v s. has_type e v \<Longrightarrow> at (rlp_bytes v) s \<Longrightarrow> length (rlp_bytes v) \<le> fuel \<Longrightarrow> dgets fuel e v s"
    and "\<forall>v \<in> set vs. has_type e v" "at (encs_of vs) s" "stack s \<noteq> []" "left s = length (encs_of vs)" "length (encs_of vs) < n" "length (encs_of vs) \<le> fuel"
  shows "\<exists>s'. decode_elems fuel n i e s = Some (Inr vs, s') \<and> moved (length (encs_of vs)) s s' \<and> skind s' = None"
  using assms(3-)
proof (induction vs arbitrary: s n i)
  case Nil
  obtain n' where n: "n = Suc n'" using Nil.prems(5) by (cases n) auto
  have "decode fuel e s = Some (Inl EOL, s\<lparr>kinderr := None\<rparr>)" using Nil.prems by (intro decode_end [OF e(1)]) (auto simp: at_def)
  then show ?case using n Nil.prems(2) by (simp add: moved_0 at_def)
next
  case (Cons v vs)
  have v: "has_type e v" "length (rlp_bytes v) \<le> fuel" using Cons.prems by auto
  obtain n' where n: "n = Suc n'" using Cons.prems(5) by (cases n) auto
  have a: "at (rlp_bytes v @ encs_of vs) s" using Cons.prems(2) by simp
  obtain s1 where s1: "decode fuel e s = Some (Inr v, s1)" "moved (length (rlp_bytes v)) s s1" "skind s1 = None"
    using e(2) [OF v(1) at_append [OF a] v(2)] by (auto simp: dgets_def)
  have "left s1 = length (encs_of vs)" using moved_left [OF s1(2)] Cons.prems(4) by simp
  moreover have "length (encs_of vs) < n'" using rlp_bytes_nonempty [OF v(1) e(1)] Cons.prems(5) n by (cases "rlp_bytes v") auto
  ultimately obtain s2 where s2: "decode_elems fuel n' (i + 1) e s1 = Some (Inr vs, s2)" "moved (length (encs_of vs)) s1 s2" "skind s2 = None"
    using Cons.IH [of s1 n' "i + 1"] Cons.prems at_rest [OF a s1(2,3)] stack_moved [OF s1(2)] by auto
  then show ?case using s1(1) n moved_add [OF s1(2) s2(2)] by simp
qed

lemma array_ok:
  assumes e: "\<And>v s. has_type e v \<Longrightarrow> at (rlp_bytes v) s \<Longrightarrow> length (rlp_bytes v) \<le> fuel \<Longrightarrow> dgets fuel e v s"
    and "\<forall>v \<in> set vs. has_type e v" "at (encs_of vs) s" "length (encs_of vs) \<le> fuel"
  shows "\<exists>s'. decode_array fuel (length vs) i e s = Some (Inr vs, s') \<and> moved (length (encs_of vs)) s s' \<and> skind s' = None"
  using assms(2-)
proof (induction vs arbitrary: s i)
  case Nil
  then show ?case by (simp add: moved_0 at_def)
next
  case (Cons v vs)
  have v: "has_type e v" "length (rlp_bytes v) \<le> fuel" using Cons.prems by auto
  have a: "at (rlp_bytes v @ encs_of vs) s" using Cons.prems(2) by simp
  obtain s1 where s1: "decode fuel e s = Some (Inr v, s1)" "moved (length (rlp_bytes v)) s s1" "skind s1 = None"
    using e [OF v(1) at_append [OF a] v(2)] by (auto simp: dgets_def)
  obtain s2 where s2: "decode_array fuel (length vs) (i + 1) e s1 = Some (Inr vs, s2)" "moved (length (encs_of vs)) s1 s2" "skind s2 = None"
    using Cons.IH [of s1 "i + 1"] Cons.prems at_rest [OF a s1(2,3)] by auto
  then show ?case using s1(1) moved_add [OF s1(2) s2(2)] by simp
qed

text \<open>The last field of a struct may take everything that is left.\<close>

definition whole :: "dtype \<Rightarrow> rlp_value \<Rightarrow> Stream \<Rightarrow> nat \<Rightarrow> bool" where
  "whole t v s fuel \<longleftrightarrow> (if is_tail t then stack s \<noteq> [] \<and> left s = length (rlp_bytes v) \<and> length (rlp_bytes v) < fuel
     else length (rlp_bytes v) \<le> fuel)"

lemma fields_ok:
  assumes e: "\<And>f v s. f \<in> set fs \<Longrightarrow> has_type (snd f) v \<Longrightarrow> at (rlp_bytes v) s \<Longrightarrow> whole (snd f) v s fuel \<Longrightarrow> dgets fuel (snd f) v s"
    and "fields_type fs vs" "at (encs_of vs) s" "stack s \<noteq> []" "left s = length (encs_of vs)" "length (encs_of vs) < fuel"
  shows "\<exists>s'. decode_fields fuel typ fs s = Some (Inr vs, s') \<and> moved (length (encs_of vs)) s s' \<and> skind s' = None"
  using assms
proof (induction fs arbitrary: s vs)
  case Nil
  then show ?case by (simp add: moved_0 at_def)
next
  case (Cons f fs)
  obtain v vs' where v: "vs = v # vs'" "has_type (snd f) v" "is_tail (snd f) \<longrightarrow> fs = []" "fields_type fs vs'" using Cons.prems(2) by auto
  have a: "at (rlp_bytes v @ encs_of vs') s" using Cons.prems(3) v(1) by simp
  have "whole (snd f) v s fuel" using Cons.prems(4-6) v(1,3,4) by (auto simp: whole_def)
  then obtain s1 where s1: "decode fuel (snd f) s = Some (Inr v, s1)" "moved (length (rlp_bytes v)) s s1" "skind s1 = None"
    using Cons.prems(1) [of f v s] v(2) at_append [OF a] by (auto simp: dgets_def)
  have "left s1 = length (encs_of vs')" using moved_left [OF s1(2)] Cons.prems(5) v(1) by simp
  then obtain s2 where s2: "decode_fields fuel typ fs s1 = Some (Inr vs', s2)" "moved (length (encs_of vs')) s1 s2" "skind s2 = None"
    using Cons.IH [of vs' s1] Cons.prems(1,4,6) v at_rest [OF a s1(2,3)] stack_moved [OF s1(2)] by auto
  then show ?case using s1(1) v(1) moved_add [OF s1(2) s2(2)] by (cases f) simp
qed

lemma in_list:
  assumes "at (list_enc c) s"
  obtains s1 where "stream_List s = (Inr (of_nat (length c)), s1)" "at c s1" "stack s1 \<noteq> []" "left s1 = length c"
    "\<And>s2. moved (length c) s1 s2 \<Longrightarrow> \<exists>s3. stream_ListEnd s2 = (Inr (), s3) \<and> moved (length (list_enc c)) s s3 \<and> skind s3 = None"
proof -
  obtain r where r: "sr s = list_enc c @ r" using assms by (auto simp: at_def)
  obtain s1 h where s1: "stream_List s = (Inr (of_nat (length c)), s1)" "in_step s1" "skind s1 = None" "sr s1 = c @ r"
    "stack s1 = (0, of_nat (length c)) # bump h (stack s)" "length (list_enc c) = h + length c"
    using List_list [of s c r] assms r by (auto simp: at_def)
  have "length (list_enc c) < 2 ^ 63" using left_small [of s "length (list_enc c)"] assms by (simp add: at_def)
  then have "unat (of_nat (length c) :: 64 word) = length c" using s1(6) by (intro unat_of_nat_small) simp
  then have l: "left s1 = length c" using s1(5) by (simp add: left_def)
  have end_ok: "\<exists>s3. stream_ListEnd s2 = (Inr (), s3) \<and> moved (length (list_enc c)) s s3 \<and> skind s3 = None" if m: "moved (length c) s1 s2" for s2
  proof -
    have d: "drop (h + length c) (sr s) = r" using r s1(6) by simp
    show ?thesis
      unfolding s1(6)
    proof (rule ListEnd_list)
      show "in_step s" "h + length c \<le> left s" using assms s1(6) by (auto simp: at_def)
      show "in_step s2" "stack s2 = (of_nat (length c), of_nat (length c)) # bump h (stack s)" "sr s2 = drop (h + length c) (sr s)"
        using m s1(4,5) d by (auto simp: moved_def bump_def)
    qed
  qed
  show ?thesis by (rule that [OF s1(1)]) (use s1 l end_ok in \<open>auto simp: at_def\<close>)
qed

lemma list_enc_longer_than: "length c < length (list_enc c)"
  by (simp add: list_enc_def puthead_def)

lemma Kind_same: "stream_Kind s' = stream_Kind s \<Longrightarrow> \<not> is_tail t \<Longrightarrow> decode fuel t s' = decode fuel t s"
proof -
  assume k: "stream_Kind s' = stream_Kind s" and t: "\<not> is_tail t"
  note defs = and_then_def wrapped_def decodeRawValue_def decodeUint_def decodeBool_def decodeString_def decodeBigInt_def
    decodeByteSlice_def decodeByteArray_def stream_Raw_def stream_uint_def stream_Bool_def stream_Bytes_def stream_List_def
  show ?thesis using t by (induction t) (simp_all add: k defs)
qed

lemma dgets_simple: "gets m v (rlp_bytes v) s \<Longrightarrow> decode fuel t s = Some (m s) \<Longrightarrow> dgets fuel t v s"
  by (auto simp: gets_def dgets_def)

text \<open>A pointer that may be nil looks at the value first.\<close>

lemma typed_enc: "has_type t v \<Longrightarrow> \<not> is_tail t \<Longrightarrow> \<exists>c. rlp_bytes v = str_enc c \<or> rlp_bytes v = list_enc c"
proof (induction t)
  case (DOptPtr e)
  then show ?case using nil_enc [of e] str_enc_simps(1) list_enc_Nil by (metis has_type.simps(13))
qed (auto simp: Let_def)

lemma of_nat_zero: "n < 2 ^ 63 \<Longrightarrow> (of_nat n :: 64 word) = 0 \<longleftrightarrow> n = 0"
  using unat_of_nat_small [of n] by (auto simp: word_unat_eq_iff)

lemma Kind_enc:
  assumes "at b s" "b = str_enc c \<or> b = list_enc c" "b \<noteq> [0x80]" "b \<noteq> [0xC0]"
  shows "\<exists>k n s'. stream_Kind s = (Inr (k, n), s') \<and> \<not> (n = 0 \<and> k \<noteq> Byte) \<and> stream_Kind s' = stream_Kind s"
proof -
  have head: ?thesis if h: "b = puthead t l (of_nat (length c)) @ c" "(t, l, k) \<in> {(0x80, 0xB7, String), (0xC0, 0xF7, List)}" "c \<noteq> []" for t l k
  proof -
    obtain s' where s': "stream_Kind s = (Inr (k, of_nat (length c)), s')" "looked k (of_nat (length c)) s'"
      using Kind_head [OF _ _ _ _ h(2), of s "length c"] assms(1) h(1) by (auto simp: at_def)
    have "length c < 2 ^ 63" using left_small [of s "length b"] assms(1) h(1) by (simp add: at_def)
    then have "of_nat (length c) \<noteq> (0 :: 64 word)" using h(3) of_nat_zero by simp
    then show ?thesis using s' Kind_looked [OF s'(2)] by auto
  qed
  show ?thesis
  proof (cases "b = list_enc c")
    case True
    then have "c \<noteq> []" using assms(4) list_enc_Nil by auto
    then show ?thesis using head [of "0xC0" "0xF7" List] True by (simp add: list_enc_def)
  next
    case False
    then have b: "b = str_enc c" using assms(2) by simp
    show ?thesis
    proof (cases c rule: str_enc_cases)
      case (byte x)
      then obtain s' where "stream_Kind s = (Inr (Byte, 0), s')" "looked Byte 0 s'" using Kind_byte [of s x] assms(1) b by (auto simp: at_def)
      then show ?thesis using Kind_looked [of Byte 0 s'] by auto
    next
      case string
      have "c \<noteq> []" using assms(3) b str_enc_simps(1) by auto
      then show ?thesis using head [of "0x80" "0xB7" String] string b by simp
    qed
  qed
qed

lemma Kind_nil:
  assumes "at b s" "b = [0x80] \<or> b = [0xC0]"
  shows "\<exists>k s'. stream_Kind s = (Inr (k, 0), s') \<and> k \<noteq> Byte \<and> moved 1 s s'"
proof -
  have p: "puthead t l (of_nat 0) = [t]" for t l by (simp add: puthead_def)
  show ?thesis
    using Kind_head [of s "0x80" "0xB7" 0 _ String] Kind_head [of s "0xC0" "0xF7" 0 _ List] assms p by (fastforce simp: at_def)
qed

lemma slice_ok:
  assumes E: "\<And>v s. has_type e v \<Longrightarrow> at (rlp_bytes v) s \<Longrightarrow> length (rlp_bytes v) \<le> fuel \<Longrightarrow> dgets fuel e v s"
    and prems: "has_type (DListSlice e) v" "at (rlp_bytes v) s" "length (rlp_bytes v) \<le> fuel"
  shows "dgets fuel (DListSlice e) v s"
proof -
  obtain vs where v: "v = VSlice False vs" "\<not> is_tail e" "\<forall>v \<in> set vs. has_type e v" using prems(1) by auto
  let ?c = "encs_of vs"
  have a: "at (list_enc ?c) s" using prems(2) v(1) by (simp add: Let_def)
  have f: "length ?c < fuel" using prems(3) list_enc_longer_than [of ?c] v(1) by (simp add: whole_def Let_def)
  have len: "length ?c < 2 ^ 63" using a left_small [of s "length (list_enc ?c)"] list_enc_longer_than [of ?c] by (simp add: at_def)
  obtain s1 where s1: "stream_List s = (Inr (of_nat (length ?c)), s1)" "at ?c s1" "stack s1 \<noteq> []" "left s1 = length ?c"
    "\<And>s2. moved (length ?c) s1 s2 \<Longrightarrow> \<exists>s3. stream_ListEnd s2 = (Inr (), s3) \<and> moved (length (list_enc ?c)) s s3 \<and> skind s3 = None"
    using in_list [OF a] by blast
  have empty: "?c = [] \<Longrightarrow> vs = []" using v(2,3) rlp_bytes_nonempty by (cases vs) auto
  obtain s2 where s2: "decode_elems fuel fuel 0 e s1 = Some (Inr vs, s2)" "moved (length ?c) s1 s2"
    using elems_ok [OF v(2) E v(3) s1(2-4) f] f by auto
  obtain s3 where s3: "stream_ListEnd s2 = (Inr (), s3)" "moved (length (list_enc ?c)) s s3" "skind s3 = None" using s1(5) [OF s2(2)] by blast
  show ?thesis
  proof (cases "?c = []")
    case True
    obtain s3 where "stream_ListEnd s1 = (Inr (), s3)" "moved (length (list_enc ?c)) s s3" "skind s3 = None"
      using s1(5) [of s1] True s1(2) moved_0 [of s1] by (auto simp: at_def)
    then show ?thesis using s1(1) v(1) empty [OF True] by (simp add: dgets_def wrapped_def and_then_def yield_def)
  next
    case False
    then have "of_nat (length ?c) \<noteq> (0 :: 64 word)" using of_nat_zero [OF len] by simp
    then show ?thesis using s1(1) s2(1) s3 v(1) by (simp add: dgets_def wrapped_def and_then_def yield_def Let_def)
  qed
qed

lemma larray_ok:
  assumes E: "\<And>v s. has_type e v \<Longrightarrow> at (rlp_bytes v) s \<Longrightarrow> length (rlp_bytes v) \<le> fuel \<Longrightarrow> dgets fuel e v s"
    and prems: "has_type (DListArray n e) v" "at (rlp_bytes v) s" "length (rlp_bytes v) \<le> fuel"
  shows "dgets fuel (DListArray n e) v s"
proof -
  obtain vs where v: "v = VSlice False vs" "\<not> is_tail e" "length vs = n" "\<forall>v \<in> set vs. has_type e v" using prems(1) by auto
  let ?c = "encs_of vs"
  have a: "at (list_enc ?c) s" using prems(2) v(1) by (simp add: Let_def)
  have f: "length ?c \<le> fuel" using prems(3) list_enc_longer_than [of ?c] v(1) by (simp add: whole_def Let_def)
  obtain s1 where s1: "stream_List s = (Inr (of_nat (length ?c)), s1)" "at ?c s1" "stack s1 \<noteq> []" "left s1 = length ?c"
    "\<And>s2. moved (length ?c) s1 s2 \<Longrightarrow> \<exists>s3. stream_ListEnd s2 = (Inr (), s3) \<and> moved (length (list_enc ?c)) s s3 \<and> skind s3 = None"
    using in_list [OF a] by blast
  obtain s2 where s2: "decode_array fuel n 0 e s1 = Some (Inr vs, s2)" "moved (length ?c) s1 s2"
    using array_ok [OF E v(4) s1(2) f, of 0] v(3) by auto
  obtain s3 where "stream_ListEnd s2 = (Inr (), s3)" "moved (length (list_enc ?c)) s s3" "skind s3 = None" using s1(5) [OF s2(2)] by blast
  then show ?thesis using s1(1) s2(1) v(1,3) by (simp add: dgets_def wrapped_def and_then_def yield_def Let_def)
qed

lemma struct_ok:
  assumes E: "\<And>f v s. f \<in> set fs \<Longrightarrow> has_type (snd f) v \<Longrightarrow> at (rlp_bytes v) s \<Longrightarrow> whole (snd f) v s fuel \<Longrightarrow> dgets fuel (snd f) v s"
    and prems: "has_type (DStruct fs) v" "at (rlp_bytes v) s" "length (rlp_bytes v) \<le> fuel"
  shows "dgets fuel (DStruct fs) v s"
proof -
  obtain vs where v: "v = VStruct vs" "fields_type fs vs" using prems(1) by auto
  let ?c = "encs_of vs"
  have a: "at (list_enc ?c) s" using prems(2) v(1) by simp
  have f: "length ?c < fuel" using prems(3) list_enc_longer_than [of ?c] v(1) by (simp add: whole_def)
  obtain s1 where s1: "stream_List s = (Inr (of_nat (length ?c)), s1)" "at ?c s1" "stack s1 \<noteq> []" "left s1 = length ?c"
    "\<And>s2. moved (length ?c) s1 s2 \<Longrightarrow> \<exists>s3. stream_ListEnd s2 = (Inr (), s3) \<and> moved (length (list_enc ?c)) s s3 \<and> skind s3 = None"
    using in_list [OF a] by blast
  obtain s2 where s2: "decode_fields fuel (DStruct fs) fs s1 = Some (Inr vs, s2)" "moved (length ?c) s1 s2"
    using fields_ok [OF E v(2) s1(2-4) f, of "DStruct fs"] by auto
  obtain s3 where "stream_ListEnd s2 = (Inr (), s3)" "moved (length (list_enc ?c)) s s3" "skind s3 = None" using s1(5) [OF s2(2)] by blast
  then show ?thesis using s1(1) s2(1) v(1) by (simp add: dgets_def wrapped_def and_then_def yield_def)
qed

lemma opt_ok:
  assumes E: "\<not> is_tail e \<Longrightarrow> has_type e v \<Longrightarrow> dgets fuel e v s"
    and prems: "has_type (DOptPtr e) v" "at (rlp_bytes v) s"
  shows "dgets fuel (DOptPtr e) v s"
proof (cases "nil_type e \<and> v = nil_value e")
  case True
  then have b: "rlp_bytes v = [0x80] \<or> rlp_bytes v = [0xC0]" using nil_enc by blast
  then have l: "length (rlp_bytes v) = 1" by auto
  obtain k s' where k: "stream_Kind s = (Inr (k, 0), s')" "k \<noteq> Byte" "moved 1 s s'" using Kind_nil [OF prems(2) b] by blast
  show ?thesis unfolding dgets_def l using k True by simp
next
  case False
  then have v: "\<not> is_tail e" "has_type e v" "rlp_bytes v \<noteq> [0x80]" "rlp_bytes v \<noteq> [0xC0]" using prems(1) by auto
  obtain c where c: "rlp_bytes v = str_enc c \<or> rlp_bytes v = list_enc c" using typed_enc [OF v(2,1)] by blast
  obtain k n s' where k: "stream_Kind s = (Inr (k, n), s')" "\<not> (n = 0 \<and> k \<noteq> Byte)" "stream_Kind s' = stream_Kind s"
    using Kind_enc [OF prems(2) c v(3,4)] by blast
  have "decode fuel (DOptPtr e) s = decode fuel e s'" using k(1,2) by auto
  also have "\<dots> = decode fuel e s" by (rule Kind_same [OF k(3) v(1)])
  finally show ?thesis using E [OF v(1,2)] by (simp add: dgets_def)
qed

lemma decode_ok:
  "has_type t v \<Longrightarrow> at (rlp_bytes v) s \<Longrightarrow> whole t v s fuel \<Longrightarrow> dgets fuel t v s"
proof (induction t arbitrary: v s)
  case DRaw
  then obtain b c where v: "v = VRaw b" "b = str_enc c \<or> b = list_enc c" by auto
  then show ?case using gets_Raw [of b s c] DRaw.prems(2) by (intro dgets_simple [of decodeRawValue]) auto
next
  case (DUint bits)
  then obtain i where "v = VUint i" "unat i < 256 ^ (bits div 8)" by auto
  then show ?case using DUint.prems(2) gets_uint [of i s bits]
    by (intro dgets_simple [of "decodeUint bits"]) (auto simp: decodeUint_def intro: gets_yield)
next
  case DBool
  then obtain b where "v = VBool b" by auto
  then show ?case using DBool.prems(2) gets_Bool [of b s] by (intro dgets_simple [of decodeBool]) (auto simp: decodeBool_def intro: gets_yield)
next
  case DString
  then obtain b where "v = VBytes b" by auto
  then show ?case using DString.prems(2) gets_Bytes [of b s] by (intro dgets_simple [of decodeString]) (auto simp: decodeString_def intro: gets_yield)
next
  case DBigInt
  then obtain n where "v = VBigInt (Some (int n))" by auto
  then show ?case using DBigInt.prems(2) gets_BigInt [of n s] by (intro dgets_simple [of decodeBigInt]) auto
next
  case DByteSlice
  then obtain b where "v = VBytes b" by auto
  then show ?case using DByteSlice.prems(2) gets_Bytes [of b s]
    by (intro dgets_simple [of decodeByteSlice]) (auto simp: decodeByteSlice_def intro: gets_yield)
next
  case (DByteArray n)
  then obtain b where "v = VBytes b" "length b = n" "b \<noteq> [0]" by auto
  then show ?case using DByteArray.prems(2) gets_ByteArray [of b s n] by (intro dgets_simple [of "decodeByteArray n"]) auto
next
  case (DListSlice e)
  have E: "dgets fuel e v s" if "has_type e v" "at (rlp_bytes v) s" "length (rlp_bytes v) \<le> fuel" for v s
    using DListSlice.IH [OF that(1,2)] that(3) DListSlice.prems(1) by (simp add: whole_def)
  show ?case by (rule slice_ok [OF E DListSlice.prems(1,2)]) (use DListSlice.prems(3) in \<open>auto simp: whole_def\<close>)
next
  case (DTail e)
  then obtain vs where v: "v = VSlice True vs" "\<not> is_tail e" "\<forall>v \<in> set vs. has_type e v" by auto
  have E: "dgets fuel e v s" if "has_type e v" "at (rlp_bytes v) s" "length (rlp_bytes v) \<le> fuel" for v s
    using DTail.IH [OF that(1,2)] that(3) v(2) by (simp add: whole_def)
  show ?case
    using elems_ok [OF v(2) E v(3), of s fuel 0] DTail.prems(2,3) v(1) by (auto simp: whole_def dgets_def Let_def)
next
  case (DListArray n e)
  have E: "dgets fuel e v s" if "has_type e v" "at (rlp_bytes v) s" "length (rlp_bytes v) \<le> fuel" for v s
    using DListArray.IH [OF that(1,2)] that(3) DListArray.prems(1) by (simp add: whole_def)
  show ?case by (rule larray_ok [OF E DListArray.prems(1,2)]) (use DListArray.prems(3) in \<open>auto simp: whole_def\<close>)
next
  case (DStruct fs)
  have E: "dgets fuel (snd g) v s" if "g \<in> set fs" "has_type (snd g) v" "at (rlp_bytes v) s" "whole (snd g) v s fuel" for g v s
    using DStruct.IH [OF that(1) _ that(2-4)] by (cases g) auto
  show ?case by (rule struct_ok [OF E DStruct.prems(1,2)]) (use DStruct.prems(3) in \<open>auto simp: whole_def\<close>)
next
  case (DPtr e)
  then show ?case by (auto simp: whole_def dgets_def)
next
  case (DOptPtr e)
  have "dgets fuel e v s" if "\<not> is_tail e" "has_type e v"
    using DOptPtr.IH [OF that(2) DOptPtr.prems(2)] DOptPtr.prems(3) that(1) by (simp add: whole_def)
  then show ?case by (rule opt_ok [OF _ DOptPtr.prems(1,2)])
qed

section \<open>Properties\<close>

lemma at_new: "length (b @ r) < 2 ^ 63 \<Longrightarrow> at b (NewStream (b @ r) (of_nat (length (b @ r))))"
  by (auto simp: at_def in_step_def left_def NewStream_def word_less_nat_alt unsigned_of_nat)

lemma decode_new:
  assumes "has_type t v" "\<not> is_tail t" "length (rlp_bytes v @ r) < 2 ^ 63" "length (rlp_bytes v) \<le> fuel"
  shows "\<exists>s'. Stream_Decode fuel t (NewStream (rlp_bytes v @ r) (of_nat (length (rlp_bytes v @ r)))) = Some (Inr v, s') \<and> sr s' = r"
proof -
  let ?s = "NewStream (rlp_bytes v @ r) (of_nat (length (rlp_bytes v @ r)))"
  obtain s' where "decode fuel t ?s = Some (Inr v, s')" "moved (length (rlp_bytes v)) ?s s'"
    using decode_ok [OF assms(1) at_new [OF assms(3)], of fuel] assms(2,4) by (auto simp: whole_def dgets_def)
  then show ?thesis by (simp add: Stream_Decode_def moved_def NewStream_def)
qed




end
