(* ===== verification/StateDb.thy ===== *)
theory StateDb
  imports RlpRound TrieHasher
begin

text \<open>
  The accounts, \<^verbatim>\<open>src/state\<close>: state objects (\<^verbatim>\<open>state_object.go\<close>), the journal (\<^verbatim>\<open>journal.go\<close>) and the state database
  (\<^verbatim>\<open>statedb.go\<close>) over the interfaces \<^verbatim>\<open>Database\<close> and \<^verbatim>\<open>Trie\<close> of \<^verbatim>\<open>database.go\<close>.

  \<open>'b\<close> is the state behind the interfaces and \<open>'t\<close> a reference to a trie in it.  A live state object is reached through
  the map \<^verbatim>\<open>stateObjects\<close> only, so a method that changes one puts the changed object back into the map; the
  callback \<^verbatim>\<open>onDirty\<close> is always \<^verbatim>\<open>MarkStateObjectDirty\<close> of the same database, or nil.  Balances are
  replaced, not changed in place, so that they are numbers.  \<open>K\<close> is the hash function.
\<close>

section \<open>The interfaces\<close>

record ('b, 't, 'w, 'e) Backend =
  OpenTrie :: "byte list \<Rightarrow> ('b, ('e, 't) result) op"
  OpenStorageTrie :: "byte list \<Rightarrow> byte list \<Rightarrow> ('b, ('e, 't) result) op"
  ContractCode :: "byte list \<Rightarrow> byte list \<Rightarrow> ('b, byte list option \<times> 'e option) op"
  ContractCodeSize :: "byte list \<Rightarrow> byte list \<Rightarrow> ('b, int \<times> 'e option) op"
  CopyTrie :: "'t \<Rightarrow> ('b, 't) op"
  T_TryGet :: "'t \<Rightarrow> byte list \<Rightarrow> ('b, byte list option \<times> 'e option) op"
  T_TryUpdate :: "'t \<Rightarrow> byte list \<Rightarrow> byte list \<Rightarrow> ('b, 'e option) op"
  T_TryDelete :: "'t \<Rightarrow> byte list \<Rightarrow> ('b, 'e option) op"
  T_CommitTo :: "'t \<Rightarrow> ('b \<times> 'w, byte list \<times> 'e option) op"
  T_Hash :: "'t \<Rightarrow> ('b, byte list) op"

datatype 'e state_error = DbError 'e | CantCreateStorageTrie 'e | CantLoadCode "byte list" 'e | RlpSplitError rlp_error

section \<open>State objects\<close>

type_synonym address = "byte list"
type_synonym hash = "byte list"

record Account =
  ac_Nonce :: "64 word"
  ac_Balance :: int
  ac_Root :: hash
  ac_CodeHash :: "byte list"

record ('t, 'e) stateObject =
  so_address :: address
  addrHash :: hash
  so_data :: Account
  so_dbErr :: "'e state_error option"
  so_trie :: "'t option"
  so_code :: "byte list option"
  cachedStorage :: "(hash, hash) gomap"
  dirtyStorage :: "(hash, hash) gomap"
  dirtyCode :: bool
  suicided :: bool
  touched :: bool
  so_deleted :: bool
  onDirty :: bool

text \<open>\<^verbatim>\<open>newObject\<close>; \<^term>\<open>None\<close> is \<^verbatim>\<open>Account{}\<close>, whose nil fields are filled in.\<close>

definition newObject :: "(byte list \<Rightarrow> byte list) \<Rightarrow> address \<Rightarrow> Account option \<Rightarrow> bool \<Rightarrow> ('t, 'e) stateObject" where
  "newObject K a data cb =
     \<lparr>so_address = a, addrHash = K a,
      so_data = (case data of Some d \<Rightarrow> d | None \<Rightarrow> \<lparr>ac_Nonce = 0, ac_Balance = 0, ac_Root = zeroHash, ac_CodeHash = K []\<rparr>),
      so_dbErr = None, so_trie = None, so_code = None, cachedStorage = [], dirtyStorage = [],
      dirtyCode = False, suicided = False, touched = False, so_deleted = False, onDirty = cb\<rparr>"

definition so_empty :: "(byte list \<Rightarrow> byte list) \<Rightarrow> ('t, 'e) stateObject \<Rightarrow> bool" where
  "so_empty K c \<longleftrightarrow> ac_Nonce (so_data c) = 0 \<and> ac_Balance (so_data c) = 0 \<and> ac_CodeHash (so_data c) = K []"

definition so_setError :: "'e state_error option \<Rightarrow> ('t, 'e) stateObject \<Rightarrow> ('t, 'e) stateObject" where
  "so_setError err c = (if so_dbErr c = None then c\<lparr>so_dbErr := err\<rparr> else c)"

section \<open>The state database\<close>

record Log =
  lg_Address :: address
  lg_Topics :: "hash list"
  lg_Data :: "byte list"
  lg_BlockNumber :: "64 word"
  lg_TxHash :: hash
  lg_TxIndex :: "64 word"
  lg_BlockHash :: hash
  lg_Index :: "64 word"
  lg_Removed :: bool

datatype ('t, 'e) journalEntry =
    createObjectChange address
  | resetObjectChange "('t, 'e) stateObject"
  | suicideChange address bool int
  | balanceChange address int
  | nonceChange address "64 word"
  | storageChange address hash hash
  | codeChange address "byte list option" "byte list"
  | refundChange int
  | addLogChange hash
  | addPreimageChange hash
  | touchChange address bool bool

record revision =
  rev_id :: int
  journalIndex :: nat

record ('t, 'e) StateDB =
  db_trie :: 't
  stateObjects :: "(address, ('t, 'e) stateObject) gomap"
  stateObjectsDirty :: "(address, unit) gomap"
  dbErr :: "'e state_error option"
  refund :: int
  thash :: hash
  bhash :: hash
  txIndex :: int
  logs :: "(hash, Log list) gomap"
  logSize :: "64 word"
  preimages :: "(hash, byte list) gomap"
  journal :: "('t, 'e) journalEntry list"
  validRevisions :: "revision list"
  nextRevisionId :: int

type_synonym ('b, 't, 'e) world = "'b \<times> ('t, 'e) StateDB"

definition clearJournalAndRefund :: "('t, 'e) StateDB \<Rightarrow> ('t, 'e) StateDB" where
  "clearJournalAndRefund s = s\<lparr>journal := [], validRevisions := [], refund := 0\<rparr>"

definition StateDB_New :: "('b, 't, 'w, 'e) Backend \<Rightarrow> hash \<Rightarrow> ('b, ('e, ('t, 'e) StateDB) result) op" where
  "StateDB_New I rt b = do {
     (r, b) \<leftarrow> OpenTrie I rt b;
     Some (map_sum id (\<lambda>tr. \<lparr>db_trie = tr, stateObjects = [], stateObjectsDirty = [], dbErr = None, refund = 0, thash = zeroHash,
       bhash = zeroHash, txIndex = 0, logs = [], logSize = 0, preimages = [], journal = [], validRevisions = [],
       nextRevisionId = 0\<rparr>) r, b)
   }"

definition setError :: "'e state_error option \<Rightarrow> ('t, 'e) StateDB \<Rightarrow> ('t, 'e) StateDB" where
  "setError err s = (if dbErr s = None then s\<lparr>dbErr := err\<rparr> else s)"

definition StateDB_Reset :: "('b, 't, 'w, 'e) Backend \<Rightarrow> hash \<Rightarrow> (('b, 't, 'e) world, 'e option) op" where
  "StateDB_Reset I rt w = (case w of (b, s) \<Rightarrow> do {
     (r, b) \<leftarrow> OpenTrie I rt b;
     Some (case r of
         Inl e \<Rightarrow> (Some e, (b, s))
       | Inr tr \<Rightarrow> (None, (b, clearJournalAndRefund (s\<lparr>db_trie := tr, stateObjects := [], stateObjectsDirty := [], thash := zeroHash,
           bhash := zeroHash, txIndex := 0, logs := [], logSize := 0, preimages := []\<rparr>))))
   })"

definition MarkStateObjectDirty :: "address \<Rightarrow> ('t, 'e) StateDB \<Rightarrow> ('t, 'e) StateDB" where
  "MarkStateObjectDirty a s = s\<lparr>stateObjectsDirty := AList.update a () (stateObjectsDirty s)\<rparr>"

definition setStateObject :: "('t, 'e) stateObject \<Rightarrow> ('t, 'e) StateDB \<Rightarrow> ('t, 'e) StateDB" where
  "setStateObject c s = s\<lparr>stateObjects := AList.update (so_address c) c (stateObjects s)\<rparr>"

definition append_journal :: "('t, 'e) journalEntry \<Rightarrow> ('t, 'e) StateDB \<Rightarrow> ('t, 'e) StateDB" where
  "append_journal e s = s\<lparr>journal := journal s @ [e]\<rparr>"

text \<open>The account as it is stored, and back.\<close>

definition account_type :: dtype where
  "account_type = DStruct [(''Nonce'', DUint 64), (''Balance'', DBigInt), (''Root'', DByteArray 32), (''CodeHash'', DByteSlice)]"

definition account_value :: "Account \<Rightarrow> rlp_value" where
  "account_value d = VStruct [VUint (ac_Nonce d), VBigInt (Some (ac_Balance d)), VBytes (ac_Root d), VBytes (ac_CodeHash d)]"

definition decode_account :: "byte list \<Rightarrow> (stream_error, Account) result option" where
  "decode_account enc = (case DecodeBytes (length enc) account_type enc of
     Some (Inr (VStruct [VUint n, VBigInt (Some i), VBytes rt, VBytes ch])) \<Rightarrow>
       Some (Inr \<lparr>ac_Nonce = n, ac_Balance = i, ac_Root = rt, ac_CodeHash = ch\<rparr>)
   | Some (Inl e) \<Rightarrow> Some (Inl e)
   | _ \<Rightarrow> None)"

definition getStateObject :: "(byte list \<Rightarrow> byte list) \<Rightarrow> ('b, 't, 'w, 'e) Backend \<Rightarrow> address \<Rightarrow>
    (('b, 't, 'e) world, ('t, 'e) stateObject option) op" where
  "getStateObject K I a w = (case w of (b, s) \<Rightarrow>
     (case map_of (stateObjects s) a of
        Some obj \<Rightarrow> Some (if so_deleted obj then None else Some obj, (b, s))
      | None \<Rightarrow> do {
          ((enc, err), b) \<leftarrow> T_TryGet I (db_trie s) a b;
          (case enc of
             None \<Rightarrow> Some (None, (b, setError (map_option DbError err) s))
           | Some enc \<Rightarrow>
               if enc = [] then Some (None, (b, setError (map_option DbError err) s))
               else do {
                 r \<leftarrow> decode_account enc;
                 Some (case r of
                     Inl _ \<Rightarrow> (None, (b, s))
                   | Inr data \<Rightarrow> let obj = newObject K a (Some data) True in (Some obj, (b, setStateObject obj s)))
               })
        }))"

text \<open>\<^verbatim>\<open>if self.onDirty != nil { self.onDirty(self.Address()); self.onDirty = nil }\<close>\<close>

definition mark_dirty :: "('t, 'e) stateObject \<Rightarrow> ('t, 'e) StateDB \<Rightarrow> ('t, 'e) stateObject \<times> ('t, 'e) StateDB" where
  "mark_dirty c s = (if onDirty c then (c\<lparr>onDirty := False\<rparr>, MarkStateObjectDirty (so_address c) s) else (c, s))"

definition so_setBalance :: "int \<Rightarrow> ('t, 'e) stateObject \<Rightarrow> ('t, 'e) StateDB \<Rightarrow> ('t, 'e) stateObject \<times> ('t, 'e) StateDB" where
  "so_setBalance amount c s = mark_dirty (c\<lparr>so_data := (so_data c)\<lparr>ac_Balance := amount\<rparr>\<rparr>) s"

definition so_SetBalance :: "int \<Rightarrow> ('t, 'e) stateObject \<Rightarrow> ('t, 'e) StateDB \<Rightarrow> ('t, 'e) stateObject \<times> ('t, 'e) StateDB" where
  "so_SetBalance amount c s = so_setBalance amount c (append_journal (balanceChange (so_address c) (ac_Balance (so_data c))) s)"

definition so_touch :: "('t, 'e) stateObject \<Rightarrow> ('t, 'e) StateDB \<Rightarrow> ('t, 'e) stateObject \<times> ('t, 'e) StateDB" where
  "so_touch c s =
     (let s = append_journal (touchChange (so_address c) (touched c) (\<not> onDirty c)) s;
          (c, s) = mark_dirty c s
      in (c\<lparr>touched := True\<rparr>, s))"

definition so_AddBalance :: "(byte list \<Rightarrow> byte list) \<Rightarrow> int \<Rightarrow> ('t, 'e) stateObject \<Rightarrow> ('t, 'e) StateDB \<Rightarrow>
    ('t, 'e) stateObject \<times> ('t, 'e) StateDB" where
  "so_AddBalance K amount c s =
     (if amount = 0 then if so_empty K c then so_touch c s else (c, s)
      else so_SetBalance (ac_Balance (so_data c) + amount) c s)"

definition so_SubBalance :: "int \<Rightarrow> ('t, 'e) stateObject \<Rightarrow> ('t, 'e) StateDB \<Rightarrow> ('t, 'e) stateObject \<times> ('t, 'e) StateDB" where
  "so_SubBalance amount c s = (if amount = 0 then (c, s) else so_SetBalance (ac_Balance (so_data c) - amount) c s)"

definition so_setNonce :: "64 word \<Rightarrow> ('t, 'e) stateObject \<Rightarrow> ('t, 'e) StateDB \<Rightarrow> ('t, 'e) stateObject \<times> ('t, 'e) StateDB" where
  "so_setNonce nonce c s = mark_dirty (c\<lparr>so_data := (so_data c)\<lparr>ac_Nonce := nonce\<rparr>\<rparr>) s"

definition so_SetNonce :: "64 word \<Rightarrow> ('t, 'e) stateObject \<Rightarrow> ('t, 'e) StateDB \<Rightarrow> ('t, 'e) stateObject \<times> ('t, 'e) StateDB" where
  "so_SetNonce nonce c s = so_setNonce nonce c (append_journal (nonceChange (so_address c) (ac_Nonce (so_data c))) s)"

definition markSuicided :: "('t, 'e) stateObject \<Rightarrow> ('t, 'e) StateDB \<Rightarrow> ('t, 'e) stateObject \<times> ('t, 'e) StateDB" where
  "markSuicided c s = mark_dirty (c\<lparr>suicided := True\<rparr>) s"

section \<open>Code and storage\<close>

text \<open>The code of an object, which is loaded at the first use.\<close>

definition so_Code :: "(byte list \<Rightarrow> byte list) \<Rightarrow> ('b, 't, 'w, 'e) Backend \<Rightarrow> ('t, 'e) stateObject \<Rightarrow>
    ('b, byte list option \<times> ('t, 'e) stateObject) op" where
  "so_Code K I c b =
     (if so_code c \<noteq> None then Some ((so_code c, c), b)
      else if ac_CodeHash (so_data c) = K [] then Some ((None, c), b)
      else do {
        ((code, err), b) \<leftarrow> ContractCode I (addrHash c) (BytesToHash (ac_CodeHash (so_data c))) b;
        let c = (case err of Some e \<Rightarrow> so_setError (Some (CantLoadCode (ac_CodeHash (so_data c)) e)) c | None \<Rightarrow> c);
        Some ((code, c\<lparr>so_code := code\<rparr>), b)
      })"

definition so_setCode :: "hash \<Rightarrow> byte list option \<Rightarrow> ('t, 'e) stateObject \<Rightarrow> ('t, 'e) StateDB \<Rightarrow>
    ('t, 'e) stateObject \<times> ('t, 'e) StateDB" where
  "so_setCode codeHash code c s =
     mark_dirty (c\<lparr>so_code := code, so_data := (so_data c)\<lparr>ac_CodeHash := codeHash\<rparr>, dirtyCode := True\<rparr>) s"

definition so_SetCode :: "(byte list \<Rightarrow> byte list) \<Rightarrow> ('b, 't, 'w, 'e) Backend \<Rightarrow> hash \<Rightarrow> byte list option \<Rightarrow> ('t, 'e) stateObject \<Rightarrow>
    (('b, 't, 'e) world, ('t, 'e) stateObject) op" where
  "so_SetCode K I codeHash code c w = (case w of (b, s) \<Rightarrow> do {
     ((prevcode, c), b) \<leftarrow> so_Code K I c b;
     let s = append_journal (codeChange (so_address c) prevcode (ac_CodeHash (so_data c))) s;
     let (c, s) = so_setCode codeHash code c s;
     Some (c, (b, s))
   })"

definition getTrie :: "('b, 't, 'w, 'e) Backend \<Rightarrow> ('t, 'e) stateObject \<Rightarrow> ('b, 't \<times> ('t, 'e) stateObject) op" where
  "getTrie I c b = (case so_trie c of
     Some tr \<Rightarrow> Some ((tr, c), b)
   | None \<Rightarrow> do {
       (r, b) \<leftarrow> OpenStorageTrie I (addrHash c) (ac_Root (so_data c)) b;
       (case r of
          Inr tr \<Rightarrow> Some ((tr, c\<lparr>so_trie := Some tr\<rparr>), b)
        | Inl e \<Rightarrow> do {
            (r, b) \<leftarrow> OpenStorageTrie I (addrHash c) zeroHash b;
            (case r of
               Inr tr \<Rightarrow> Some ((tr, so_setError (Some (CantCreateStorageTrie e)) (c\<lparr>so_trie := Some tr\<rparr>)), b)
             | Inl _ \<Rightarrow> None)
          })
     })"

definition so_GetState :: "('b, 't, 'w, 'e) Backend \<Rightarrow> hash \<Rightarrow> ('t, 'e) stateObject \<Rightarrow> ('b, hash \<times> ('t, 'e) stateObject) op" where
  "so_GetState I key c b = (case map_of (cachedStorage c) key of
     Some v \<Rightarrow> Some ((v, c), b)
   | None \<Rightarrow> do {
       ((tr, c), b) \<leftarrow> getTrie I c b;
       ((enc, err), b) \<leftarrow> T_TryGet I tr key b;
       (case err of
          Some e \<Rightarrow> Some ((zeroHash, so_setError (Some (DbError e)) c), b)
        | None \<Rightarrow> do {
            (v, c) \<leftarrow> (case enc of
                None \<Rightarrow> Some (zeroHash, c)
              | Some enc \<Rightarrow>
                  if enc = [] then Some (zeroHash, c)
                  else do {
                    r \<leftarrow> Split enc;
                    Some (case r of
                        Inl e \<Rightarrow> (zeroHash, so_setError (Some (RlpSplitError e)) c)
                      | Inr (k, content, rest) \<Rightarrow> (BytesToHash content, c))
                  });
            Some ((v, if v \<noteq> zeroHash then c\<lparr>cachedStorage := AList.update key v (cachedStorage c)\<rparr> else c), b)
          })
     })"

definition so_setState :: "hash \<Rightarrow> hash \<Rightarrow> ('t, 'e) stateObject \<Rightarrow> ('t, 'e) StateDB \<Rightarrow> ('t, 'e) stateObject \<times> ('t, 'e) StateDB" where
  "so_setState key v c s =
     mark_dirty (c\<lparr>cachedStorage := AList.update key v (cachedStorage c), dirtyStorage := AList.update key v (dirtyStorage c)\<rparr>) s"

definition so_SetState :: "('b, 't, 'w, 'e) Backend \<Rightarrow> hash \<Rightarrow> hash \<Rightarrow> ('t, 'e) stateObject \<Rightarrow>
    (('b, 't, 'e) world, ('t, 'e) stateObject) op" where
  "so_SetState I key v c w = (case w of (b, s) \<Rightarrow> do {
     ((prevalue, c), b) \<leftarrow> so_GetState I key c b;
     let s = append_journal (storageChange (so_address c) key prevalue) s;
     let (c, s) = so_setState key v c s;
     Some (c, (b, s))
   })"

section \<open>Operations on accounts\<close>

text \<open>The object that is overwritten comes as the second result.\<close>

definition createObject :: "(byte list \<Rightarrow> byte list) \<Rightarrow> ('b, 't, 'w, 'e) Backend \<Rightarrow> address \<Rightarrow>
    (('b, 't, 'e) world, ('t, 'e) stateObject \<times> ('t, 'e) stateObject option) op" where
  "createObject K I a w = do {
     (prev, (b, s)) \<leftarrow> getStateObject K I a w;
     let (newobj, s) = so_setNonce 0 (newObject K a None True) s;
     let s = append_journal (case prev of None \<Rightarrow> createObjectChange a | Some p \<Rightarrow> resetObjectChange p) s;
     Some ((newobj, prev), (b, setStateObject newobj s))
   }"

definition GetOrNewStateObject :: "(byte list \<Rightarrow> byte list) \<Rightarrow> ('b, 't, 'w, 'e) Backend \<Rightarrow> address \<Rightarrow>
    (('b, 't, 'e) world, ('t, 'e) stateObject) op" where
  "GetOrNewStateObject K I a w = do {
     (obj, w) \<leftarrow> getStateObject K I a w;
     (case obj of
        Some c \<Rightarrow> if so_deleted c then do { ((c, _), w) \<leftarrow> createObject K I a w; Some (c, w) } else Some (c, w)
      | None \<Rightarrow> do { ((c, _), w) \<leftarrow> createObject K I a w; Some (c, w) })
   }"

text \<open>A method of a live object: the changed object goes back into the map.\<close>

definition on_object :: "(('t, 'e) stateObject \<Rightarrow> ('t, 'e) StateDB \<Rightarrow> ('t, 'e) stateObject \<times> ('t, 'e) StateDB) \<Rightarrow>
    ('t, 'e) stateObject \<Rightarrow> ('b, 't, 'e) world \<Rightarrow> ('b, 't, 'e) world" where
  "on_object f c w = (case w of (b, s) \<Rightarrow> let (c, s) = f c s in (b, setStateObject c s))"

definition CreateAccount :: "(byte list \<Rightarrow> byte list) \<Rightarrow> ('b, 't, 'w, 'e) Backend \<Rightarrow> address \<Rightarrow> (('b, 't, 'e) world, unit) op" where
  "CreateAccount K I a w = do {
     ((c, prev), w) \<leftarrow> createObject K I a w;
     Some ((), case prev of None \<Rightarrow> w | Some p \<Rightarrow> on_object (so_setBalance (ac_Balance (so_data p))) c w)
   }"

definition StateDB_Exist :: "(byte list \<Rightarrow> byte list) \<Rightarrow> ('b, 't, 'w, 'e) Backend \<Rightarrow> address \<Rightarrow> (('b, 't, 'e) world, bool) op" where
  "StateDB_Exist K I a w = do { (obj, w) \<leftarrow> getStateObject K I a w; Some (obj \<noteq> None, w) }"

definition StateDB_Empty :: "(byte list \<Rightarrow> byte list) \<Rightarrow> ('b, 't, 'w, 'e) Backend \<Rightarrow> address \<Rightarrow> (('b, 't, 'e) world, bool) op" where
  "StateDB_Empty K I a w = do {
     (obj, w) \<leftarrow> getStateObject K I a w;
     Some (case obj of None \<Rightarrow> True | Some c \<Rightarrow> so_empty K c, w)
   }"

definition GetBalance :: "(byte list \<Rightarrow> byte list) \<Rightarrow> ('b, 't, 'w, 'e) Backend \<Rightarrow> address \<Rightarrow> (('b, 't, 'e) world, int) op" where
  "GetBalance K I a w = do {
     (obj, w) \<leftarrow> getStateObject K I a w;
     Some (case obj of None \<Rightarrow> 0 | Some c \<Rightarrow> ac_Balance (so_data c), w)
   }"

definition GetNonce :: "(byte list \<Rightarrow> byte list) \<Rightarrow> ('b, 't, 'w, 'e) Backend \<Rightarrow> address \<Rightarrow> (('b, 't, 'e) world, 64 word) op" where
  "GetNonce K I a w = do {
     (obj, w) \<leftarrow> getStateObject K I a w;
     Some (case obj of None \<Rightarrow> 0 | Some c \<Rightarrow> ac_Nonce (so_data c), w)
   }"

definition GetCode :: "(byte list \<Rightarrow> byte list) \<Rightarrow> ('b, 't, 'w, 'e) Backend \<Rightarrow> address \<Rightarrow> (('b, 't, 'e) world, byte list option) op" where
  "GetCode K I a w = do {
     (obj, (b, s)) \<leftarrow> getStateObject K I a w;
     (case obj of
        None \<Rightarrow> Some (None, (b, s))
      | Some c \<Rightarrow> do { ((code, c), b) \<leftarrow> so_Code K I c b; Some (code, (b, setStateObject c s)) })
   }"

definition GetCodeSize :: "(byte list \<Rightarrow> byte list) \<Rightarrow> ('b, 't, 'w, 'e) Backend \<Rightarrow> address \<Rightarrow> (('b, 't, 'e) world, int) op" where
  "GetCodeSize K I a w = do {
     (obj, (b, s)) \<leftarrow> getStateObject K I a w;
     (case obj of
        None \<Rightarrow> Some (0, (b, s))
      | Some c \<Rightarrow> (case so_code c of
            Some code \<Rightarrow> Some (int (length code), (b, s))
          | None \<Rightarrow> do {
              ((sz, err), b) \<leftarrow> ContractCodeSize I (addrHash c) (BytesToHash (ac_CodeHash (so_data c))) b;
              Some (sz, (b, setError (map_option DbError err) s))
            }))
   }"

definition GetCodeHash :: "(byte list \<Rightarrow> byte list) \<Rightarrow> ('b, 't, 'w, 'e) Backend \<Rightarrow> address \<Rightarrow> (('b, 't, 'e) world, hash) op" where
  "GetCodeHash K I a w = do {
     (obj, w) \<leftarrow> getStateObject K I a w;
     Some (case obj of None \<Rightarrow> zeroHash | Some c \<Rightarrow> BytesToHash (ac_CodeHash (so_data c)), w)
   }"

definition GetState :: "(byte list \<Rightarrow> byte list) \<Rightarrow> ('b, 't, 'w, 'e) Backend \<Rightarrow> address \<Rightarrow> hash \<Rightarrow> (('b, 't, 'e) world, hash) op" where
  "GetState K I a key w = do {
     (obj, (b, s)) \<leftarrow> getStateObject K I a w;
     (case obj of
        None \<Rightarrow> Some (zeroHash, (b, s))
      | Some c \<Rightarrow> do { ((v, c), b) \<leftarrow> so_GetState I key c b; Some (v, (b, setStateObject c s)) })
   }"

definition HasSuicided :: "(byte list \<Rightarrow> byte list) \<Rightarrow> ('b, 't, 'w, 'e) Backend \<Rightarrow> address \<Rightarrow> (('b, 't, 'e) world, bool) op" where
  "HasSuicided K I a w = do {
     (obj, w) \<leftarrow> getStateObject K I a w;
     Some (case obj of None \<Rightarrow> False | Some c \<Rightarrow> suicided c, w)
   }"

definition StateDB_AddBalance :: "(byte list \<Rightarrow> byte list) \<Rightarrow> ('b, 't, 'w, 'e) Backend \<Rightarrow> address \<Rightarrow> int \<Rightarrow> (('b, 't, 'e) world, unit) op" where
  "StateDB_AddBalance K I a amount w = do {
     (c, w) \<leftarrow> GetOrNewStateObject K I a w;
     Some ((), on_object (so_AddBalance K amount) c w)
   }"

definition StateDB_SubBalance :: "(byte list \<Rightarrow> byte list) \<Rightarrow> ('b, 't, 'w, 'e) Backend \<Rightarrow> address \<Rightarrow> int \<Rightarrow> (('b, 't, 'e) world, unit) op" where
  "StateDB_SubBalance K I a amount w = do {
     (c, w) \<leftarrow> GetOrNewStateObject K I a w;
     Some ((), on_object (so_SubBalance amount) c w)
   }"

definition StateDB_SetBalance :: "(byte list \<Rightarrow> byte list) \<Rightarrow> ('b, 't, 'w, 'e) Backend \<Rightarrow> address \<Rightarrow> int \<Rightarrow> (('b, 't, 'e) world, unit) op" where
  "StateDB_SetBalance K I a amount w = do {
     (c, w) \<leftarrow> GetOrNewStateObject K I a w;
     Some ((), on_object (so_SetBalance amount) c w)
   }"

definition StateDB_SetNonce :: "(byte list \<Rightarrow> byte list) \<Rightarrow> ('b, 't, 'w, 'e) Backend \<Rightarrow> address \<Rightarrow> 64 word \<Rightarrow> (('b, 't, 'e) world, unit) op" where
  "StateDB_SetNonce K I a nonce w = do {
     (c, w) \<leftarrow> GetOrNewStateObject K I a w;
     Some ((), on_object (so_SetNonce nonce) c w)
   }"

text \<open>A slice is nil or has bytes; both nil and the empty slice have the hash of no bytes.\<close>

definition slice_bytes :: "byte list option \<Rightarrow> byte list" where
  "slice_bytes x = (case x of None \<Rightarrow> [] | Some b \<Rightarrow> b)"

definition StateDB_SetCode :: "(byte list \<Rightarrow> byte list) \<Rightarrow> ('b, 't, 'w, 'e) Backend \<Rightarrow> address \<Rightarrow> byte list option \<Rightarrow> (('b, 't, 'e) world, unit) op" where
  "StateDB_SetCode K I a code w = do {
     (c, w) \<leftarrow> GetOrNewStateObject K I a w;
     (c, (b, s)) \<leftarrow> so_SetCode K I (K (slice_bytes code)) code c w;
     Some ((), (b, setStateObject c s))
   }"

definition StateDB_SetState :: "(byte list \<Rightarrow> byte list) \<Rightarrow> ('b, 't, 'w, 'e) Backend \<Rightarrow> address \<Rightarrow> hash \<Rightarrow> hash \<Rightarrow> (('b, 't, 'e) world, unit) op" where
  "StateDB_SetState K I a key v w = do {
     (c, w) \<leftarrow> GetOrNewStateObject K I a w;
     (c, (b, s)) \<leftarrow> so_SetState I key v c w;
     Some ((), (b, setStateObject c s))
   }"

definition Suicide :: "(byte list \<Rightarrow> byte list) \<Rightarrow> ('b, 't, 'w, 'e) Backend \<Rightarrow> address \<Rightarrow> (('b, 't, 'e) world, bool) op" where
  "Suicide K I a w = do {
     (obj, (b, s)) \<leftarrow> getStateObject K I a w;
     (case obj of
        None \<Rightarrow> Some (False, (b, s))
      | Some c \<Rightarrow>
          let s = append_journal (suicideChange a (suicided c) (ac_Balance (so_data c))) s;
              (c, s) = markSuicided c s
          in Some (True, (b, setStateObject (c\<lparr>so_data := (so_data c)\<lparr>ac_Balance := 0\<rparr>\<rparr>) s)))
   }"

definition AddRefund :: "int \<Rightarrow> ('t, 'e) StateDB \<Rightarrow> ('t, 'e) StateDB" where
  "AddRefund gas s = (append_journal (refundChange (refund s)) s)\<lparr>refund := refund s + gas\<rparr>"

definition Prepare :: "hash \<Rightarrow> hash \<Rightarrow> int \<Rightarrow> ('t, 'e) StateDB \<Rightarrow> ('t, 'e) StateDB" where
  "Prepare th bh ti s = s\<lparr>thash := th, bhash := bh, txIndex := ti\<rparr>"

definition logs_of :: "('t, 'e) StateDB \<Rightarrow> hash \<Rightarrow> Log list" where
  "logs_of s h = (case map_of (logs s) h of Some ls \<Rightarrow> ls | None \<Rightarrow> [])"

definition AddLog :: "Log \<Rightarrow> ('t, 'e) StateDB \<Rightarrow> ('t, 'e) StateDB" where
  "AddLog lg s =
     (let s = append_journal (addLogChange (thash s)) s;
          lg = lg\<lparr>lg_TxHash := thash s, lg_BlockHash := bhash s, lg_TxIndex := of_int (txIndex s), lg_Index := logSize s\<rparr>
      in s\<lparr>logs := AList.update (thash s) (logs_of s (thash s) @ [lg]) (logs s), logSize := logSize s + 1\<rparr>)"

definition AddPreimage :: "hash \<Rightarrow> byte list \<Rightarrow> ('t, 'e) StateDB \<Rightarrow> ('t, 'e) StateDB" where
  "AddPreimage h preimage s =
     (if map_of (preimages s) h = None
      then (append_journal (addPreimageChange h) s)\<lparr>preimages := AList.update h preimage (preimages s)\<rparr> else s)"

section \<open>Storage tries\<close>

text \<open>The loop over the dirty slots, in the order in which the map is ranged over.\<close>

fun update_slots :: "encbuf \<Rightarrow> ('b, 't, 'w, 'e) Backend \<Rightarrow> 't \<Rightarrow> (hash, hash) gomap \<Rightarrow> ('t, 'e) stateObject \<Rightarrow> ('b, ('t, 'e) stateObject) op" where
  "update_slots eb I tr [] c b = Some (c, b)"
| "update_slots eb I tr ((key, v) # m) c b = do {
     let c = c\<lparr>dirtyStorage := AList.delete key (dirtyStorage c)\<rparr>;
     (err, b) \<leftarrow> (if v = zeroHash then T_TryDelete I tr key b
       else do {
         r \<leftarrow> EncodeToBytes eb (VBytes (dropWhile (\<lambda>x. x = 0) v));
         T_TryUpdate I tr key (case r of Inr e \<Rightarrow> e | Inl _ \<Rightarrow> []) b
       });
     update_slots eb I tr m (so_setError (map_option DbError err) c) b
   }"

definition updateTrie :: "encbuf \<Rightarrow> ('b, 't, 'w, 'e) Backend \<Rightarrow> ('t, 'e) stateObject \<Rightarrow> ('b, 't \<times> ('t, 'e) stateObject) op" where
  "updateTrie eb I c b = do {
     ((tr, c), b) \<leftarrow> getTrie I c b;
     (c, b) \<leftarrow> update_slots eb I tr (dirtyStorage c) c b;
     Some ((tr, c), b)
   }"

definition updateRoot :: "encbuf \<Rightarrow> ('b, 't, 'w, 'e) Backend \<Rightarrow> ('t, 'e) stateObject \<Rightarrow> ('b, ('t, 'e) stateObject) op" where
  "updateRoot eb I c b = do {
     ((tr, c), b) \<leftarrow> updateTrie eb I c b;
     (h, b) \<leftarrow> T_Hash I tr b;
     Some (c\<lparr>so_data := (so_data c)\<lparr>ac_Root := h\<rparr>\<rparr>, b)
   }"

definition CommitTrie :: "encbuf \<Rightarrow> ('b, 't, 'w, 'e) Backend \<Rightarrow> ('t, 'e) stateObject \<Rightarrow> ('b \<times> 'w, 'e state_error option \<times> ('t, 'e) stateObject) op" where
  "CommitTrie eb I c bw = (case bw of (b, wr) \<Rightarrow> do {
     ((tr, c), b) \<leftarrow> updateTrie eb I c b;
     if so_dbErr c \<noteq> None then Some ((so_dbErr c, c), (b, wr))
     else do {
       ((rt, err), bw) \<leftarrow> T_CommitTo I tr (b, wr);
       Some ((map_option DbError err, if err = None then c\<lparr>so_data := (so_data c)\<lparr>ac_Root := rt\<rparr>\<rparr> else c), bw)
     }
   })"

definition deepCopy :: "(byte list \<Rightarrow> byte list) \<Rightarrow> ('b, 't, 'w, 'e) Backend \<Rightarrow> bool \<Rightarrow> ('t, 'e) stateObject \<Rightarrow> ('b, ('t, 'e) stateObject) op" where
  "deepCopy K I cb c b = do {
     (tr, b) \<leftarrow> (case so_trie c of
         None \<Rightarrow> Some (None, b)
       | Some t \<Rightarrow> do { (t, b) \<leftarrow> CopyTrie I t b; Some (Some t, b) });
     Some ((newObject K (so_address c) (Some (so_data c)) cb)\<lparr>so_trie := tr, so_code := so_code c, dirtyStorage := dirtyStorage c,
       cachedStorage := dirtyStorage c, suicided := suicided c, dirtyCode := dirtyCode c, so_deleted := so_deleted c\<rparr>, b)
   }"

definition StorageTrie :: "(byte list \<Rightarrow> byte list) \<Rightarrow> encbuf \<Rightarrow> ('b, 't, 'w, 'e) Backend \<Rightarrow> address \<Rightarrow> (('b, 't, 'e) world, 't option) op" where
  "StorageTrie K eb I a w = do {
     (obj, (b, s)) \<leftarrow> getStateObject K I a w;
     (case obj of
        None \<Rightarrow> Some (None, (b, s))
      | Some c \<Rightarrow> do {
          (cpy, b) \<leftarrow> deepCopy K I False c b;
          ((tr, cpy), b) \<leftarrow> updateTrie eb I cpy b;
          Some (Some tr, (b, s))
        })
   }"

section \<open>Snapshots and the journal\<close>

definition ripemd :: address where
  "ripemd = replicate 19 0 @ [3]"

text \<open>
  A method of the object that an entry of the journal is about.  Without such an object the call is one of a nil
  pointer, which panics.
\<close>

definition undo_object :: "(byte list \<Rightarrow> byte list) \<Rightarrow> ('b, 't, 'w, 'e) Backend \<Rightarrow> address \<Rightarrow>
    (('t, 'e) stateObject \<Rightarrow> ('t, 'e) StateDB \<Rightarrow> ('t, 'e) stateObject \<times> ('t, 'e) StateDB) \<Rightarrow> ('b, 't, 'e) world \<Rightarrow> ('b, 't, 'e) world option" where
  "undo_object K I a f w = do {
     (obj, w) \<leftarrow> getStateObject K I a w;
     c \<leftarrow> obj;
     Some (on_object f c w)
   }"

fun undo :: "(byte list \<Rightarrow> byte list) \<Rightarrow> ('b, 't, 'w, 'e) Backend \<Rightarrow> ('t, 'e) journalEntry \<Rightarrow> ('b, 't, 'e) world \<Rightarrow> ('b, 't, 'e) world option" where
  "undo K I (createObjectChange a) (b, s) =
     Some (b, s\<lparr>stateObjects := AList.delete a (stateObjects s), stateObjectsDirty := AList.delete a (stateObjectsDirty s)\<rparr>)"
| "undo K I (resetObjectChange prev) (b, s) = Some (b, setStateObject prev s)"
| "undo K I (suicideChange a prev prevbalance) w = do {
     (obj, w) \<leftarrow> getStateObject K I a w;
     Some (case obj of
         None \<Rightarrow> w
       | Some c \<Rightarrow> on_object (so_setBalance prevbalance) (c\<lparr>suicided := prev\<rparr>) w)
   }"
| "undo K I (touchChange a prev prevDirty) w =
     (if \<not> prev \<and> a \<noteq> ripemd then do {
        (b, s) \<leftarrow> undo_object K I a (\<lambda>c s. (c\<lparr>touched := prev\<rparr>, s)) w;
        Some (b, if \<not> prevDirty then s\<lparr>stateObjectsDirty := AList.delete a (stateObjectsDirty s)\<rparr> else s)
      }
      else Some w)"
| "undo K I (balanceChange a prev) w = undo_object K I a (so_setBalance prev) w"
| "undo K I (nonceChange a prev) w = undo_object K I a (so_setNonce prev) w"
| "undo K I (codeChange a prevcode prevhash) w = undo_object K I a (so_setCode (BytesToHash prevhash) prevcode) w"
| "undo K I (storageChange a key prevalue) w = undo_object K I a (so_setState key prevalue) w"
| "undo K I (refundChange prev) (b, s) = Some (b, s\<lparr>refund := prev\<rparr>)"
| "undo K I (addLogChange txhash) (b, s) =
     (case logs_of s txhash of
        [] \<Rightarrow> None
      | ls \<Rightarrow> Some (b, s\<lparr>logs := if length ls = 1 then AList.delete txhash (logs s) else AList.update txhash (butlast ls) (logs s),
           logSize := logSize s - 1\<rparr>))"
| "undo K I (addPreimageChange h) (b, s) = Some (b, s\<lparr>preimages := AList.delete h (preimages s)\<rparr>)"

definition Snapshot :: "('t, 'e) StateDB \<Rightarrow> int \<times> ('t, 'e) StateDB" where
  "Snapshot s =
     (let id = nextRevisionId s
      in (id, s\<lparr>nextRevisionId := id + 1, validRevisions := validRevisions s @ [\<lparr>rev_id = id, journalIndex = length (journal s)\<rparr>]\<rparr>))"

text \<open>\<^verbatim>\<open>sort.Search\<close>: bisection for the first index below \<open>j\<close> at which \<open>f\<close> holds.\<close>

function sort_Search :: "(nat \<Rightarrow> bool) \<Rightarrow> nat \<Rightarrow> nat \<Rightarrow> nat" where
  "sort_Search f i j =
     (if i < j then let h = (i + j) div 2 in if \<not> f h then sort_Search f (h + 1) j else sort_Search f i h else i)"
  by pat_completeness auto
termination by (relation "measure (\<lambda>(f, i, j). j - i)") auto

declare sort_Search.simps [simp del]

fun undo_all :: "(byte list \<Rightarrow> byte list) \<Rightarrow> ('b, 't, 'w, 'e) Backend \<Rightarrow> ('t, 'e) journalEntry list \<Rightarrow> ('b, 't, 'e) world \<Rightarrow> ('b, 't, 'e) world option" where
  "undo_all K I [] w = Some w"
| "undo_all K I (e # es) w = do { w \<leftarrow> undo K I e w; undo_all K I es w }"

definition RevertToSnapshot :: "(byte list \<Rightarrow> byte list) \<Rightarrow> ('b, 't, 'w, 'e) Backend \<Rightarrow> int \<Rightarrow> (('b, 't, 'e) world, unit) op" where
  "RevertToSnapshot K I revid w = (case w of (b, s) \<Rightarrow> do {
     let revs = validRevisions s;
     let idx = sort_Search (\<lambda>i. rev_id (revs ! i) \<ge> revid) 0 (length revs);
     if idx = length revs \<or> rev_id (revs ! idx) \<noteq> revid then None
     else do {
       let snapshot = journalIndex (revs ! idx);
       (b, s) \<leftarrow> undo_all K I (rev (drop snapshot (journal s))) (b, s);
       Some ((), (b, s\<lparr>journal := take snapshot (journal s), validRevisions := take idx revs\<rparr>))
     }
   })"

section \<open>Finalising, committing and copying\<close>

definition updateStateObject :: "encbuf \<Rightarrow> ('b, 't, 'w, 'e) Backend \<Rightarrow> ('t, 'e) stateObject \<Rightarrow> ('b, 't, 'e) world \<Rightarrow> ('b, 't, 'e) world option" where
  "updateStateObject eb I c w = (case w of (b, s) \<Rightarrow> do {
     r \<leftarrow> EncodeToBytes eb (account_value (so_data c));
     (case r of
        Inl _ \<Rightarrow> None
      | Inr data \<Rightarrow> do {
          (err, b) \<leftarrow> T_TryUpdate I (db_trie s) (so_address c) data b;
          Some (b, setError (map_option DbError err) s)
        })
   })"

definition deleteStateObject :: "('b, 't, 'w, 'e) Backend \<Rightarrow> ('t, 'e) stateObject \<Rightarrow> ('b, 't, 'e) world \<Rightarrow> ('b, 't, 'e) world option" where
  "deleteStateObject I c w = (case w of (b, s) \<Rightarrow> do {
     let s = setStateObject (c\<lparr>so_deleted := True\<rparr>) s;
     (err, b) \<leftarrow> T_TryDelete I (db_trie s) (so_address c) b;
     Some (b, setError (map_option DbError err) s)
   })"

text \<open>The loop of \<^verbatim>\<open>Finalise\<close> over the dirty addresses; an address without an object is a nil pointer.\<close>

fun finalise_objects :: "(byte list \<Rightarrow> byte list) \<Rightarrow> encbuf \<Rightarrow> ('b, 't, 'w, 'e) Backend \<Rightarrow> bool \<Rightarrow> address list \<Rightarrow>
    ('b, 't, 'e) world \<Rightarrow> ('b, 't, 'e) world option" where
  "finalise_objects K eb I deleteEmptyObjects [] w = Some w"
| "finalise_objects K eb I deleteEmptyObjects (a # as) (b, s) = do {
     c \<leftarrow> map_of (stateObjects s) a;
     w \<leftarrow> (if suicided c \<or> (deleteEmptyObjects \<and> so_empty K c) then deleteStateObject I c (b, s)
       else do {
         (c, b) \<leftarrow> updateRoot eb I c b;
         updateStateObject eb I c (b, setStateObject c s)
       });
     finalise_objects K eb I deleteEmptyObjects as w
   }"

definition Finalise :: "(byte list \<Rightarrow> byte list) \<Rightarrow> encbuf \<Rightarrow> ('b, 't, 'w, 'e) Backend \<Rightarrow> bool \<Rightarrow> (('b, 't, 'e) world, unit) op" where
  "Finalise K eb I deleteEmptyObjects w = (case w of (b, s) \<Rightarrow> do {
     (b, s) \<leftarrow> finalise_objects K eb I deleteEmptyObjects (map fst (stateObjectsDirty s)) (b, s);
     Some ((), (b, clearJournalAndRefund s))
   })"

definition IntermediateRoot :: "(byte list \<Rightarrow> byte list) \<Rightarrow> encbuf \<Rightarrow> ('b, 't, 'w, 'e) Backend \<Rightarrow> bool \<Rightarrow> (('b, 't, 'e) world, hash) op" where
  "IntermediateRoot K eb I deleteEmptyObjects w = do {
     (_, (b, s)) \<leftarrow> Finalise K eb I deleteEmptyObjects w;
     (h, b) \<leftarrow> T_Hash I (db_trie s) b;
     Some (h, (b, s))
   }"

fun delete_suicides :: "address list \<Rightarrow> ('t, 'e) StateDB \<Rightarrow> ('t, 'e) StateDB option" where
  "delete_suicides [] s = Some s"
| "delete_suicides (a # as) s = do {
     c \<leftarrow> map_of (stateObjects s) a;
     let s = (if suicided c then setStateObject (c\<lparr>so_deleted := True\<rparr>) s else s);
     delete_suicides as (s\<lparr>stateObjectsDirty := AList.delete a (stateObjectsDirty s)\<rparr>)
   }"

definition DeleteSuicides :: "('t, 'e) StateDB \<Rightarrow> ('t, 'e) StateDB option" where
  "DeleteSuicides s = (let s = clearJournalAndRefund s in delete_suicides (map fst (stateObjectsDirty s)) s)"

text \<open>
  The loop of \<^verbatim>\<open>CommitTo\<close> over the live objects: an error ends it.  \<open>P\<close> is the method \<^verbatim>\<open>Put\<close> of the writer.
\<close>

definition commit_object :: "(byte list \<Rightarrow> byte list) \<Rightarrow> encbuf \<Rightarrow> ('b, 't, 'w, 'e) Backend \<Rightarrow> (byte list \<Rightarrow> byte list \<Rightarrow> 'w \<Rightarrow> 'e option \<times> 'w) \<Rightarrow>
    bool \<Rightarrow> ('t, 'e) stateObject \<Rightarrow> (('b, 't, 'e) world \<times> 'w, 'e state_error option) op" where
  "commit_object K eb I P deleteEmptyObjects c v = (case v of ((b, s), wr) \<Rightarrow>
     let isDirty = (map_of (stateObjectsDirty s) (so_address c) \<noteq> None)
     in if suicided c \<or> (isDirty \<and> deleteEmptyObjects \<and> so_empty K c) then do {
          w \<leftarrow> deleteStateObject I c (b, s);
          Some (None, (w, wr))
        }
        else if isDirty then do {
          let (err, wr) = (case so_code c of Some code \<Rightarrow> if dirtyCode c then P (ac_CodeHash (so_data c)) code wr else (None, wr) | None \<Rightarrow> (None, wr));
          if err \<noteq> None then Some (map_option DbError err, ((b, s), wr))
          else do {
            let c = (if so_code c \<noteq> None then c\<lparr>dirtyCode := False\<rparr> else c);
            ((err, c), (b, wr)) \<leftarrow> CommitTrie eb I c (b, wr);
            let s = setStateObject c s;
            if err \<noteq> None then Some (err, ((b, s), wr))
            else do {
              w \<leftarrow> updateStateObject eb I c (b, s);
              Some (None, (w, wr))
            }
          }
        }
        else Some (None, ((b, s), wr)))"

fun commit_objects :: "(byte list \<Rightarrow> byte list) \<Rightarrow> encbuf \<Rightarrow> ('b, 't, 'w, 'e) Backend \<Rightarrow> (byte list \<Rightarrow> byte list \<Rightarrow> 'w \<Rightarrow> 'e option \<times> 'w) \<Rightarrow>
    bool \<Rightarrow> address list \<Rightarrow> (('b, 't, 'e) world \<times> 'w, 'e state_error option) op" where
  "commit_objects K eb I P deleteEmptyObjects [] v = Some (None, v)"
| "commit_objects K eb I P deleteEmptyObjects (a # as) v = do {
     c \<leftarrow> map_of (stateObjects (snd (fst v))) a;
     (err, ((b, s), wr)) \<leftarrow> commit_object K eb I P deleteEmptyObjects c v;
     if err \<noteq> None then Some (err, ((b, s), wr))
     else commit_objects K eb I P deleteEmptyObjects as ((b, s\<lparr>stateObjectsDirty := AList.delete a (stateObjectsDirty s)\<rparr>), wr)
   }"

definition StateDB_CommitTo :: "(byte list \<Rightarrow> byte list) \<Rightarrow> encbuf \<Rightarrow> ('b, 't, 'w, 'e) Backend \<Rightarrow> (byte list \<Rightarrow> byte list \<Rightarrow> 'w \<Rightarrow> 'e option \<times> 'w) \<Rightarrow>
    bool \<Rightarrow> (('b, 't, 'e) world \<times> 'w, hash \<times> 'e state_error option) op" where
  "StateDB_CommitTo K eb I P deleteEmptyObjects v = do {
     (err, ((b, s), wr)) \<leftarrow> commit_objects K eb I P deleteEmptyObjects (map fst (stateObjects (snd (fst v)))) v;
     if err \<noteq> None then Some ((zeroHash, err), ((b, clearJournalAndRefund s), wr))
     else do {
       ((rt, err), (b, wr)) \<leftarrow> T_CommitTo I (db_trie s) (b, wr);
       Some ((rt, map_option DbError err), ((b, clearJournalAndRefund s), wr))
     }
   }"

fun copy_objects :: "(byte list \<Rightarrow> byte list) \<Rightarrow> ('b, 't, 'w, 'e) Backend \<Rightarrow> ('t, 'e) StateDB \<Rightarrow> address list \<Rightarrow> ('b, 't, 'e) world \<Rightarrow> ('b, 't, 'e) world option" where
  "copy_objects K I old [] w = Some w"
| "copy_objects K I old (a # as) (b, s) = do {
     c \<leftarrow> map_of (stateObjects old) a;
     (c, b) \<leftarrow> deepCopy K I True c b;
     copy_objects K I old as (b, s\<lparr>stateObjects := AList.update a c (stateObjects s), stateObjectsDirty := AList.update a () (stateObjectsDirty s)\<rparr>)
   }"

text \<open>The copy keeps the reference to the trie of accounts.\<close>

definition StateDB_Copy :: "(byte list \<Rightarrow> byte list) \<Rightarrow> ('b, 't, 'w, 'e) Backend \<Rightarrow> ('t, 'e) StateDB \<Rightarrow> ('b, ('t, 'e) StateDB) op" where
  "StateDB_Copy K I s b = do {
     (b, s') \<leftarrow> copy_objects K I s (map fst (stateObjectsDirty s)) (b,
       \<lparr>db_trie = db_trie s, stateObjects = [], stateObjectsDirty = [], dbErr = None, refund = refund s, thash = zeroHash,
        bhash = zeroHash, txIndex = 0, logs = logs s, logSize = logSize s, preimages = preimages s, journal = [],
        validRevisions = [], nextRevisionId = 0\<rparr>);
     Some (s', b)
   }"

definition StateDB_Logs :: "('t, 'e) StateDB \<Rightarrow> Log list" where
  "StateDB_Logs s = concat (map snd (logs s))"

end
