(* ===== verification/Spec2Isabelle.thy ===== *)
theory Spec2Isabelle
  imports ConsensusProps TrieProps StateDb
begin

text \<open>
  A verification library for the paradigm node, a ledger whose nodes gossip signed events (comets), order them by a
  hashgraph consensus, cut the ordered events into blocks and keep accounts in a Merkle Patricia trie.

  \<^bold>\<open>How the code is modelled.\<close>
  A Go struct is a record, a tagged union or an error type a datatype, a method that changes its receiver a function of
  type \<^verbatim>\<open>('s, 'a) op\<close>: it takes the state to \<^term>\<open>None\<close> when the code panics (or when the fuel of a recursion
  is used up) and to the result and the new state otherwise.  Go errors are values of sum or option types.  Go maps are
  association lists, and ranging over a map visits them in the order of the list; a byte is an 8-bit word, \<^verbatim>\<open>uint64\<close> a
  64-bit word, \<^verbatim>\<open>*big.Int\<close> and \<^verbatim>\<open>int\<close> are integers.  Hash functions, elliptic curves, the databases below the
  store interfaces and writers are parameters.

  \<^bold>\<open>The theories.\<close>

  \<^item> Prelude: the type of operations, the calculus \<open>returns\<close> of computations that return, slices, decimal numbers.
  \<^item> StoreErr, Lru, RollingIndex, Signature: \<^verbatim>\<open>src/errors/errors.go\<close>, \<^verbatim>\<open>src/common/lru.go\<close>,
    \<^verbatim>\<open>src/common/rolling_index.go\<close>, \<^verbatim>\<open>rolling_index_map.go\<close>, \<^verbatim>\<open>src/common/crypto/utils.go\<close>.  The LRU cache
    refines a recency list (locale \<open>cache\<close>), a rolling index keeps a suffix of the history and reports what it
    has dropped, signatures survive their textual form.
  \<^item> CometTypes: \<^verbatim>\<open>src/types\<close> (comets, blocks, rounds, roots, frames) and their bookkeeping.
  \<^item> StoreIface, MemStore: the interface \<^verbatim>\<open>src/storage/store.go\<close> as a record of operations, its contract as the
    locales \<open>comet_store\<close> and \<open>consensus_store\<close>, and the in-memory store of \<^verbatim>\<open>memory_store.go\<close> and \<^verbatim>\<open>caches.go\<close>
    that implements it.
  \<^item> CometGraph, GraphSpec, GraphInsert, GraphProps: the graph of \<^verbatim>\<open>src/core/sequentia/sequentia.go\<close> up to insertion.
    GraphSpec says what the coordinates of comets must mean on the abstract graph of parent edges; GraphInsert shows
    that insertion keeps that; GraphProps derives what \<^verbatim>\<open>AncestorOf\<close>, \<^verbatim>\<open>StronglySee\<close> and \<^verbatim>\<open>InsertComet\<close> do in
    every reachable state.
  \<^item> Consensus, ConsensusRun, ConsensusInv, Fame, Receive, ConsensusProps: \<^verbatim>\<open>DivideRounds\<close>, \<^verbatim>\<open>DecideFame\<close>,
    \<^verbatim>\<open>FindOrder\<close>, the sorter and the cutting of blocks.  A consensus pass always returns, decided fame is final and
    agreed upon, the order is total, and blocks carry the transactions in that order.
  \<^item> Bytes, ZeroCopy, ZeroCopyProps, Serialize: checked arithmetic, the zero-copy serialiser, the stream serialiser
    (\<^verbatim>\<open>src/common\<close>).  The locale \<open>codec\<close> states what it takes to write and read back a sequence of fields.
  \<^item> Rlp, RlpProps, RlpDecode, RlpRound: \<^verbatim>\<open>src/common/rlp\<close>, the encoder and the raw splitter against a recursive definition
    of RLP, and the stream decoder, which undoes encoding for every type that is decoded by reflection.
  \<^item> TrieEnc, TrieNode, MerkleTrie, TrieHasher: \<^verbatim>\<open>src/trie\<close>, the key encodings, the nodes and their database
    form, lookup, insertion and deletion, hashing and committing, the trie with hashed keys.
  \<^item> TrieWf, TrieInsert, TrieDelete, TrieMap, TrieCanon: what a trie holds and when it is in minimal form, that the
    operations keep it so, that the trie implements the locale \<open>byte_map\<close>, and that the contents determine the shape.
  \<^item> TrieRep, TrieCommit, TrieGood, TrieProps: hashing.  \<open>stands_for\<close> relates a node in memory, with its cached hashes and what
    is left in the database, to its expansion; the locale \<open>node_writer\<close> is what the hasher needs of the database it writes to.
    Decoding undoes encoding, the operations keep the caches sound (\<open>trie_good\<close>), the root hash is a function of the
    contents and binds them, and a committed trie can be loaded again.
  \<^item> StateDb: \<^verbatim>\<open>src/state\<close>, state objects, the state database with its journal and snapshots, over the interfaces \<^verbatim>\<open>Database\<close>
    and \<^verbatim>\<open>Trie\<close> as a record of operations.

  \<^bold>\<open>Fuel.\<close>
  \<^verbatim>\<open>Round\<close> and its relatives recurse along parents and may, on a cyclic store, run forever; in a reachable state the
  number of comets is enough (\<open>consensus_pass_returns\<close>).  A trie operation may in principle follow hashes in a circle;
  on a well-formed trie four steps per byte of the key and four more are enough (\<open>trie_fuel\<close>).  Decoding a node takes
  one step per byte of its encoding.
\<close>

end
